(* ===== verification/Aba_Prelude.thy ===== *)
theory Aba_Prelude
  imports Main "HOL-Library.Word" "HOL-Library.Multiset"
begin

text \<open>
  The language of the model. A C function that touches shared memory is a program: a finite
  tree of atomic actions on the memory. \<open>Act u k\<close> is one indivisible access (an atomic
  read, write or compare-and-swap, or one access to a struct that its owner or its publication
  protects): it updates the memory with \<open>u\<close> and continues with \<open>k\<close> applied to the memory
  before the update. \<open>Crash\<close> is a failed assert, an abort or undefined behaviour; loops that
  the code may repeat for ever carry fuel and end in \<open>Crash Out_of_fuel\<close>.

  \<open>run\<close> executes a program alone; \<open>runi\<close> executes it with other threads: before every
  action of the program the next element of a list of interfering memory changes is applied.
  Also here: the theorem collection \<open>exec\<close> (how a program of the model executes) and generic
  lemmas on words and multisets.
\<close>

unbundle bit_operations_syntax

named_theorems exec

section \<open>Programs and their execution\<close>

datatype fault = Null_deref | Dangling | Out_of_bounds | Double_free | Assert_failed | Abort | Out_of_fuel

datatype ('s, 'a) prog = Ret 'a | Crash fault | Act "'s \<Rightarrow> 's" "'s \<Rightarrow> ('s, 'a) prog"

datatype ('s, 'a) outcome = Ok 'a 's | Fault fault

primrec bnd :: "('s, 'a) prog \<Rightarrow> ('a \<Rightarrow> ('s, 'b) prog) \<Rightarrow> ('s, 'b) prog" where
  "bnd (Ret a) f = f a"
| "bnd (Crash e) f = Crash e"
| "bnd (Act u k) f = Act u (\<lambda>s. bnd (k s) f)"

primrec run :: "('s, 'a) prog \<Rightarrow> 's \<Rightarrow> ('s, 'a) outcome" where
  "run (Ret a) = (\<lambda>s. Ok a s)"
| "run (Crash e) = (\<lambda>s. Fault e)"
| "run (Act u k) = (\<lambda>s. run (k s) (u s))"

primrec runi :: "('s, 'a) prog \<Rightarrow> ('s \<Rightarrow> 's) list \<Rightarrow> 's \<Rightarrow> ('s \<times> ('s \<Rightarrow> 's) list, 'a) outcome" where
  "runi (Ret a) = (\<lambda>es s. Ok a (s, es))"
| "runi (Crash e) = (\<lambda>es s. Fault e)"
| "runi (Act u k) = (\<lambda>es s.
     (case es of [] \<Rightarrow> runi (k s) [] (u s)
      | e # es' \<Rightarrow> runi (k (e s)) es' (u (e s))))"

definition skip :: "('s, unit) prog" where
  "skip = Ret ()"

definition reads :: "('s \<Rightarrow> 'a) \<Rightarrow> ('s, 'a) prog" where
  "reads f = Act id (\<lambda>s. Ret (f s))"

definition modify :: "('s \<Rightarrow> 's) \<Rightarrow> ('s, unit) prog" where
  "modify f = Act f (\<lambda>_. Ret ())"

primrec each :: "('e \<Rightarrow> ('s, unit) prog) \<Rightarrow> 'e list \<Rightarrow> ('s, unit) prog" where
  "each f [] = skip"
| "each f (x # xs) = bnd (f x) (\<lambda>_. each f xs)"

lemma run_Ret [exec, simp]: "run (Ret a) s = Ok a s"
  by simp

lemma run_bnd [exec]:
  "run (bnd p f) s = (case run p s of Ok a t \<Rightarrow> run (f a) t | Fault e \<Rightarrow> Fault e)"
  by (induction p arbitrary: s) auto

lemma run_skip [exec, simp]: "run skip s = Ok () s"
  by (simp add: skip_def)

lemma run_reads [exec, simp]: "run (reads f) s = Ok (f s) s"
  by (simp add: reads_def)

lemma run_modify [exec, simp]: "run (modify f) s = Ok () (f s)"
  by (simp add: modify_def)

lemma run_if [exec]: "run (if b then p else p') s = (if b then run p s else run p' s)"
  by simp

lemma bnd_assoc: "bnd (bnd p f) g = bnd p (\<lambda>a. bnd (f a) g)"
  by (induction p) auto

lemma bnd_Ret [simp]: "bnd p Ret = p"
  by (induction p) auto

lemma bnd_skip: "bnd p (\<lambda>_. skip) = p"
  by (induction p) (auto simp: skip_def)

lemma runi_bnd [exec]:
  "runi (bnd p f) es s =
     (case runi p es s of Ok a (t, es') \<Rightarrow> runi (f a) es' t | Fault e \<Rightarrow> Fault e)"
  by (induction p arbitrary: es s) (auto split: list.splits)

lemma run_bnd_Ok:
  "run (bnd p f) s = Ok b u \<longleftrightarrow> (\<exists>a t. run p s = Ok a t \<and> run (f a) t = Ok b u)"
  by (auto simp: run_bnd split: outcome.splits)

lemma run_bnd_OkI: "run p s = Ok a t \<Longrightarrow> run (bnd p f) s = run (f a) t"
  by (simp add: run_bnd)

text \<open>Without interference the two semantics agree, and interference is only ever consumed.\<close>

lemma runi_Nil: "runi p [] s = (case run p s of Ok a t \<Rightarrow> Ok a (t, []) | Fault e \<Rightarrow> Fault e)"
  by (induction p arbitrary: s) auto

lemma runi_length: "runi p es s = Ok a (t, es') \<Longrightarrow> length es' \<le> length es"
proof (induction p arbitrary: es s)
  case (Act u k)
  show ?case
  proof (cases es)
    case Nil
    with Act show ?thesis by (auto simp: runi_Nil split: outcome.splits)
  next
    case (Cons e es1)
    with Act.prems have "runi (k (e s)) es1 (u (e s)) = Ok a (t, es')" by simp
    then have "length es' \<le> length es1" using Act.IH by blast
    with Cons show ?thesis by simp
  qed
qed auto

section \<open>Words\<close>

type_synonym uptr = "64 word"
type_synonym uint = "32 word"

text \<open>A pointer to a struct is aligned: its two low bits are free to carry bit and lock.\<close>

definition aligned :: "uptr \<Rightarrow> bool" where
  "aligned a \<longleftrightarrow> a AND 3 = 0"

lemma aligned_0 [simp]: "aligned 0"
  by (simp add: aligned_def)

lemma numeral_3_eq_mask: "(3 :: uptr) = mask 2"
  by (simp add: mask_eq_exp_minus_1)

lemma bit_int_2_iff: "bit (2 :: int) n \<longleftrightarrow> n = Suc 0"
  by (cases n; cases "n - 1") (auto simp: bit_0 bit_Suc)

lemma bit_int_3_iff: "bit (3 :: int) n \<longleftrightarrow> n = 0 \<or> n = Suc 0"
  by (cases n; cases "n - 1") (auto simp: bit_0 bit_Suc)

lemma bit_word_2_iff: "bit (2 :: uptr) n \<longleftrightarrow> n = Suc 0"
  by (auto simp: bit_int_2_iff)

lemma bit_word_3_iff: "bit (3 :: uptr) n \<longleftrightarrow> n = 0 \<or> n = Suc 0"
  by (auto simp: bit_int_3_iff)

text \<open>Bits of the small constants, for proofs by \<open>bit_word_eqI\<close>.\<close>

lemmas low_bits = bit_1_iff bit_int_2_iff bit_int_3_iff

lemma aligned_iff_bits: "aligned a \<longleftrightarrow> \<not> bit a 0 \<and> \<not> bit a (Suc 0)"
proof
  assume "aligned a"
  then have "bit (a AND mask 2) n = False" for n
    by (simp add: aligned_def numeral_3_eq_mask)
  from this [of 0] this [of 1] show "\<not> bit a 0 \<and> \<not> bit a (Suc 0)"
    by (simp_all add: bit_simps)
next
  assume "\<not> bit a 0 \<and> \<not> bit a (Suc 0)"
  then show "aligned a"
    by (auto simp: aligned_def numeral_3_eq_mask bit_simps less_2_cases_iff intro!: bit_word_eqI)
qed

lemma bit_gt_1: "\<not> bit a 0 \<Longrightarrow> \<not> bit a (Suc 0) \<Longrightarrow> bit (a :: uptr) n \<Longrightarrow> Suc 0 < n"
  by (metis One_nat_def less_Suc0 linorder_neqE_nat)

lemma shl_one_nonzero: "n < 64 \<Longrightarrow> push_bit n (1 :: uptr) \<noteq> 0"
  by (simp add: push_bit_eq_mult)

lemma unat_lt_32: "unat (w :: uint) < 2 ^ 32"
  using unsigned_less [of w] by simp

lemma unat_lt_64: "unat (w :: uptr) < 2 ^ 64"
  using unsigned_less [of w] by simp

lemma unat_of_nat_32: "k < 2 ^ 32 \<Longrightarrow> unat (word_of_nat k :: uint) = k"
  by (simp add: unat_of_nat)

lemma unat_ucast_32: "unat (x :: uptr) < 2 ^ 32 \<Longrightarrow> unat (ucast x :: uint) = unat x"
  by (simp add: unsigned_ucast_eq take_bit_eq_mod)

lemma unat_ucast_64: "unat (ucast (x :: uint) :: uptr) = unat x"
  using unat_lt_32 [of x] by (simp add: unsigned_ucast_eq take_bit_eq_mod)

lemma unat_minus_one_32: "unat (- 1 :: uint) = 2 ^ 32 - 1"
  by (simp add: unsigned_minus_1_eq_mask mask_eq_exp_minus_1)

section \<open>Lists and multisets\<close>

lemma nth_rotate1_Suc: "Suc i < length xs \<Longrightarrow> rotate1 xs ! i = xs ! Suc i"
  by (cases xs) (auto simp: nth_append)

end
