(* ===== verification/Aba_Mem.thy ===== *)
theory Aba_Mem
  imports Aba_Prelude
begin

text \<open>
  The memory the library works on and the code it relies on but does not contain.
  \<open>mem\<close> holds every struct of \<open>src/mulle-aba-storage.h\<close> that lives on the heap (worlds,
  timestamp storages, free entries), each kind in its own map from addresses, the one
  \<open>struct mulle_aba\<close>, every thread's thread-specific timestamp and \<open>errno\<close>, and the calls made
  to the client's free functions in the order they were made.
  \<open>ext\<close> collects the parameters: the build flags, the addresses the allocator picks, the outcome
  of weak compare-and-swaps and the lock-free list of mulle-linkedlist; \<open>ext_ok\<close> states what is
  documented about them. The atomic operations of mulle-thread are those of C11
  \<open>stdatomic.h\<close>, its thread-specific storage that of \<open>threads.h\<close>.
\<close>

section \<open>Structs\<close>

type_synonym tid = nat

text \<open>
  The free functions a free entry may carry: the library's own two, or one of the client's
  (a word standing for the function's address).
\<close>

datatype fnptr = Fn_owned_pointer_free_world | Fn_no_owner_free | Fn_client uptr

record freeentry =
  fe_link :: uptr
  fe_free :: "fnptr option"
  fe_pointer :: uptr
  fe_owner :: uptr

record timestampentry =
  retain_count_1 :: uptr
  pointer_list :: "uptr list"

record timestampstorage =
  usage_bits :: uptr
  ts_entries :: "timestampentry list"

record world =
  w_link :: uptr
  w_timestamp :: uptr
  w_n_threads :: uptr
  w_offset :: uptr
  w_size :: uint
  w_n :: uint
  w_storage :: "uptr list"

record storage =
  q_world :: uptr
  q_allocator :: uptr
  q_leaks :: "uptr list"
  q_free_entries :: "uptr list"
  q_free_worlds :: "uptr list"

text \<open>
  There is one instance of \<open>struct mulle_aba\<close>: \<open>aba_global\<close> tells whether \<open>global\<close> points to it.
  \<open>allocator_aba\<close> tells for which allocators \<open>mulle_allocator_set_aba\<close> has installed it.
\<close>

text \<open>A call of a client's free function with one argument or with pointer and owner.\<close>

datatype event = Call1 uptr uptr | Call2 uptr uptr uptr

record mem =
  worlds :: "uptr \<Rightarrow> world option"
  stores :: "uptr \<Rightarrow> timestampstorage option"
  entries :: "uptr \<Rightarrow> freeentry option"
  q :: storage
  tss_key :: uptr
  tss :: "tid \<Rightarrow> uptr"
  errno :: "tid \<Rightarrow> int"
  aba_global :: bool
  allocator_aba :: "uptr \<Rightarrow> bool"
  trace :: "event list"
  nops :: nat

section \<open>What the library is built on\<close>

text \<open>
  \<open>ndebug\<close> and \<open>debug\<close> are the preprocessor flags. \<open>x_calloc k live\<close> is the address the
  allocator returns for the \<open>k\<close>-th request when \<open>live\<close> tells the addresses in use, 0 when it has
  no memory left; \<open>x_weak k\<close> tells whether the \<open>k\<close>-th weak compare-and-swap fails spuriously;
  \<open>x_add\<close> and \<open>x_remove_one\<close> are the list's operations on the sequence of its elements in the
  order \<open>walk\<close> visits them; \<open>x_tss_key\<close> is the key \<open>mulle_thread_tss_create\<close> gives, if any;
  \<open>x_self\<close> is the address of the storage, passed as owner of worlds that are freed late;
  \<open>x_default_allocator\<close> the address of \<open>mulle_default_allocator\<close>;
  \<open>x_capacity\<close> is a number of blocks the allocator has room for.
\<close>

record ext =
  ndebug :: bool
  debug :: bool
  x_calloc :: "nat \<Rightarrow> (uptr \<Rightarrow> bool) \<Rightarrow> uptr"
  x_weak :: "nat \<Rightarrow> bool"
  x_add :: "uptr \<Rightarrow> uptr list \<Rightarrow> uptr list"
  x_remove_one :: "uptr list \<Rightarrow> (uptr \<times> uptr list) option"
  x_tss_key :: "uptr option"
  x_self :: uptr
  x_default_allocator :: uptr
  x_capacity :: nat

definition calloc_ok :: "ext \<Rightarrow> bool" where
  "calloc_ok E \<longleftrightarrow>
     (\<forall>k live. x_calloc E k live \<noteq> 0 \<longrightarrow> aligned (x_calloc E k live) \<and> \<not> live (x_calloc E k live))
     \<and> (\<forall>k live. card {a. live a} < x_capacity E \<longrightarrow> x_calloc E k live \<noteq> 0)"

definition list_ok :: "ext \<Rightarrow> bool" where
  "list_ok E \<longleftrightarrow> (\<forall>x xs. mset (x_add E x xs) = add_mset x (mset xs))
     \<and> (\<forall>xs. x_remove_one E xs = None \<longleftrightarrow> xs = [])
     \<and> (\<forall>xs x ys. x_remove_one E xs = Some (x, ys) \<longrightarrow> mset xs = add_mset x (mset ys))"

definition ext_ok :: "ext \<Rightarrow> bool" where
  "ext_ok E \<longleftrightarrow> calloc_ok E \<and> list_ok E \<and> x_self E \<noteq> 0"

definition n_entries :: "ext \<Rightarrow> nat" where
  "n_entries E = (if debug E then 2 else 64)"

definition initial_size :: "ext \<Rightarrow> uint" where
  "initial_size E = (if debug E then 1 else 8)"

lemma n_entries_pos [simp]: "0 < n_entries E" "n_entries E \<noteq> 0" "1 < n_entries E"
  by (simp_all add: n_entries_def)

lemma n_entries_le: "n_entries E \<le> 64"
  by (simp add: n_entries_def)

section \<open>Primitive actions\<close>

definition live :: "mem \<Rightarrow> uptr \<Rightarrow> bool" where
  "live s a \<longleftrightarrow> worlds s a \<noteq> None \<or> stores s a \<noteq> None \<or> entries s a \<noteq> None"

definition c_assert :: "ext \<Rightarrow> bool \<Rightarrow> (mem, unit) prog" where
  "c_assert E b = (if ndebug E \<or> b then skip else Crash Assert_failed)"

definition set_errno :: "tid \<Rightarrow> int \<Rightarrow> (mem, unit) prog" where
  "set_errno th e = modify (\<lambda>s. s\<lparr>errno := (errno s)(th := e)\<rparr>)"

definition get_errno :: "tid \<Rightarrow> (mem, int) prog" where
  "get_errno th = reads (\<lambda>s. errno s th)"

definition tss_set :: "tid \<Rightarrow> uptr \<Rightarrow> (mem, unit) prog" where
  "tss_set th v = modify (\<lambda>s. s\<lparr>tss := (tss s)(th := v)\<rparr>)"

definition tss_get :: "tid \<Rightarrow> (mem, uptr) prog" where
  "tss_get th = reads (\<lambda>s. tss s th)"

text \<open>Access to a struct through a pointer: NULL and dangling pointers are faults.\<close>

definition check_ptr :: "uptr \<Rightarrow> 'a option \<Rightarrow> ('a \<Rightarrow> (mem, 'b) prog) \<Rightarrow> (mem, 'b) prog" where
  "check_ptr a x f =
     (if a = 0 then Crash Null_deref else case x of None \<Rightarrow> Crash Dangling | Some v \<Rightarrow> f v)"

definition load_world :: "uptr \<Rightarrow> (mem, world) prog" where
  "load_world a = Act id (\<lambda>s. check_ptr a (worlds s a) Ret)"

definition store_world :: "uptr \<Rightarrow> (world \<Rightarrow> world) \<Rightarrow> (mem, unit) prog" where
  "store_world a f = Act (\<lambda>s. s\<lparr>worlds := (worlds s)(a := map_option f (worlds s a))\<rparr>)
     (\<lambda>s. check_ptr a (worlds s a) (\<lambda>_. skip))"

definition load_ts :: "uptr \<Rightarrow> (mem, timestampstorage) prog" where
  "load_ts a = Act id (\<lambda>s. check_ptr a (stores s a) Ret)"

definition store_ts :: "uptr \<Rightarrow> (timestampstorage \<Rightarrow> timestampstorage) \<Rightarrow> (mem, unit) prog" where
  "store_ts a f = Act (\<lambda>s. s\<lparr>stores := (stores s)(a := map_option f (stores s a))\<rparr>)
     (\<lambda>s. check_ptr a (stores s a) (\<lambda>_. skip))"

definition load_entry :: "uptr \<Rightarrow> (mem, freeentry) prog" where
  "load_entry a = Act id (\<lambda>s. check_ptr a (entries s a) Ret)"

definition store_entry :: "uptr \<Rightarrow> (freeentry \<Rightarrow> freeentry) \<Rightarrow> (mem, unit) prog" where
  "store_entry a f = Act (\<lambda>s. s\<lparr>entries := (entries s)(a := map_option f (entries s a))\<rparr>)
     (\<lambda>s. check_ptr a (entries s a) (\<lambda>_. skip))"

text \<open>\<open>calloc\<close>: one request picks an address and fills the block with zeros.\<close>

definition zero_world :: "nat \<Rightarrow> world" where
  "zero_world cap = \<lparr>w_link = 0, w_timestamp = 0, w_n_threads = 0, w_offset = 0, w_size = 0, w_n = 0,
     w_storage = replicate cap 0\<rparr>"

definition zero_ts :: "nat \<Rightarrow> timestampstorage" where
  "zero_ts k = \<lparr>usage_bits = 0, ts_entries = replicate k \<lparr>retain_count_1 = 0, pointer_list = []\<rparr>\<rparr>"

definition zero_entry :: freeentry where
  "zero_entry = \<lparr>fe_link = 0, fe_free = None, fe_pointer = 0, fe_owner = 0\<rparr>"

definition calloc_at :: "ext \<Rightarrow> mem \<Rightarrow> uptr" where
  "calloc_at E s = x_calloc E (nops s) (live s)"

definition calloc_world :: "ext \<Rightarrow> nat \<Rightarrow> (mem, uptr) prog" where
  "calloc_world E cap = Act (\<lambda>s. let a = calloc_at E s in
       if a = 0 then s\<lparr>nops := Suc (nops s)\<rparr>
       else s\<lparr>nops := Suc (nops s), worlds := (worlds s)(a \<mapsto> zero_world cap)\<rparr>)
     (\<lambda>s. Ret (calloc_at E s))"

definition calloc_ts :: "ext \<Rightarrow> nat \<Rightarrow> (mem, uptr) prog" where
  "calloc_ts E k = Act (\<lambda>s. let a = calloc_at E s in
       if a = 0 then s\<lparr>nops := Suc (nops s)\<rparr>
       else s\<lparr>nops := Suc (nops s), stores := (stores s)(a \<mapsto> zero_ts k)\<rparr>)
     (\<lambda>s. Ret (calloc_at E s))"

definition calloc_entry :: "ext \<Rightarrow> (mem, uptr) prog" where
  "calloc_entry E = Act (\<lambda>s. let a = calloc_at E s in
       if a = 0 then s\<lparr>nops := Suc (nops s)\<rparr>
       else s\<lparr>nops := Suc (nops s), entries := (entries s)(a \<mapsto> zero_entry)\<rparr>)
     (\<lambda>s. Ret (calloc_at E s))"

text \<open>\<open>mulle_allocator_free\<close>: freeing NULL does nothing, freeing twice is a fault.\<close>

definition check_free :: "uptr \<Rightarrow> 'a option \<Rightarrow> (mem, unit) prog" where
  "check_free a x = (if a = 0 \<or> x \<noteq> None then skip else Crash Double_free)"

definition dealloc_world :: "uptr \<Rightarrow> (mem, unit) prog" where
  "dealloc_world a = Act (\<lambda>s. s\<lparr>worlds := (worlds s)(a := None)\<rparr>) (\<lambda>s. check_free a (worlds s a))"

definition dealloc_ts :: "uptr \<Rightarrow> (mem, unit) prog" where
  "dealloc_ts a = Act (\<lambda>s. s\<lparr>stores := (stores s)(a := None)\<rparr>) (\<lambda>s. check_free a (stores s a))"

definition dealloc_entry :: "uptr \<Rightarrow> (mem, unit) prog" where
  "dealloc_entry a = Act (\<lambda>s. s\<lparr>entries := (entries s)(a := None)\<rparr>) (\<lambda>s. check_free a (entries s a))"

text \<open>The world pointer is the one word all threads compete for.\<close>

definition set_q_world :: "uptr \<Rightarrow> mem \<Rightarrow> mem" where
  "set_q_world p s = s\<lparr>q := (q s)\<lparr>q_world := p\<rparr>\<rparr>"

definition mulle_aba_storage_get_worldpointer :: "(mem, uptr) prog" where
  "mulle_aba_storage_get_worldpointer = reads (\<lambda>s. q_world (q s))"

definition cas_world :: "uptr \<Rightarrow> uptr \<Rightarrow> (mem, uptr) prog" where
  "cas_world new expect =
     Act (\<lambda>s. if q_world (q s) = expect then set_q_world new s else s) (\<lambda>s. Ret (q_world (q s)))"

section \<open>Execution of the primitives\<close>

lemma run_c_assert: "run (c_assert E b) s = (if ndebug E \<or> b then Ok () s else Fault Assert_failed)"
  by (simp add: c_assert_def)

lemma run_c_assert_ok [exec]: "b \<Longrightarrow> run (c_assert E b) s = Ok () s"
  by (simp add: c_assert_def)

lemma run_set_errno [exec]: "run (set_errno th e) s = Ok () (s\<lparr>errno := (errno s)(th := e)\<rparr>)"
  by (simp add: set_errno_def)

lemma run_get_errno [exec]: "run (get_errno th) s = Ok (errno s th) s"
  by (simp add: get_errno_def)

lemma run_tss_set [exec]: "run (tss_set th v) s = Ok () (s\<lparr>tss := (tss s)(th := v)\<rparr>)"
  by (simp add: tss_set_def)

lemma run_tss_get [exec]: "run (tss_get th) s = Ok (tss s th) s"
  by (simp add: tss_get_def)

lemma run_get_worldpointer [exec]: "run mulle_aba_storage_get_worldpointer s = Ok (q_world (q s)) s"
  by (simp add: mulle_aba_storage_get_worldpointer_def)

lemma run_load_world [exec]:
  "a \<noteq> 0 \<Longrightarrow> worlds s a = Some w \<Longrightarrow> run (load_world a) s = Ok w s"
  by (simp add: load_world_def check_ptr_def)

lemma run_store_world [exec]:
  "a \<noteq> 0 \<Longrightarrow> worlds s a = Some w \<Longrightarrow>
   run (store_world a f) s = Ok () (s\<lparr>worlds := (worlds s)(a \<mapsto> f w)\<rparr>)"
  by (simp add: store_world_def check_ptr_def)

lemma run_load_ts [exec]:
  "a \<noteq> 0 \<Longrightarrow> stores s a = Some w \<Longrightarrow> run (load_ts a) s = Ok w s"
  by (simp add: load_ts_def check_ptr_def)

lemma run_store_ts [exec]:
  "a \<noteq> 0 \<Longrightarrow> stores s a = Some w \<Longrightarrow>
   run (store_ts a f) s = Ok () (s\<lparr>stores := (stores s)(a \<mapsto> f w)\<rparr>)"
  by (simp add: store_ts_def check_ptr_def)

lemma run_load_entry [exec]:
  "a \<noteq> 0 \<Longrightarrow> entries s a = Some w \<Longrightarrow> run (load_entry a) s = Ok w s"
  by (simp add: load_entry_def check_ptr_def)

lemma run_store_entry [exec]:
  "a \<noteq> 0 \<Longrightarrow> entries s a = Some w \<Longrightarrow>
   run (store_entry a f) s = Ok () (s\<lparr>entries := (entries s)(a \<mapsto> f w)\<rparr>)"
  by (simp add: store_entry_def check_ptr_def)

lemma run_dealloc_world [exec]:
  "worlds s a \<noteq> None \<Longrightarrow> run (dealloc_world a) s = Ok () (s\<lparr>worlds := (worlds s)(a := None)\<rparr>)"
  by (simp add: dealloc_world_def check_free_def)

lemma run_dealloc_ts [exec]:
  "stores s a \<noteq> None \<Longrightarrow> run (dealloc_ts a) s = Ok () (s\<lparr>stores := (stores s)(a := None)\<rparr>)"
  by (simp add: dealloc_ts_def check_free_def)

lemma run_dealloc_entry [exec]:
  "entries s a \<noteq> None \<Longrightarrow> run (dealloc_entry a) s = Ok () (s\<lparr>entries := (entries s)(a := None)\<rparr>)"
  by (simp add: dealloc_entry_def check_free_def)

lemma run_cas_world [exec]:
  "run (cas_world new expect) s =
     Ok (q_world (q s)) (if q_world (q s) = expect then set_q_world new s else s)"
  by (simp add: cas_world_def)

text \<open>Sequences over blocks of one kind.\<close>

lemma run_each_Nil [exec]: "run (each f []) s = Ok () s"
  by simp

section \<open>Room on the heap\<close>

text \<open>\<open>room E s k\<close>: the allocator can serve \<open>k\<close> more requests.\<close>

definition blocks :: "mem \<Rightarrow> nat" where
  "blocks s = card {a. live s a}"

definition room :: "ext \<Rightarrow> mem \<Rightarrow> nat \<Rightarrow> bool" where
  "room E s k \<longleftrightarrow> blocks s + k \<le> x_capacity E"

lemma room_mono: "room E s k \<Longrightarrow> j \<le> k \<Longrightarrow> room E s j"
  by (simp add: room_def)

lemma room_cong: "(\<And>a. live t a = live s a) \<Longrightarrow> room E t k = room E s k"
  by (simp add: room_def blocks_def)

lemma room_less_live:
  assumes "room E s k" "\<And>a. live t a \<Longrightarrow> live s a"
  shows "room E t k"
proof -
  have "blocks t \<le> blocks s"
    unfolding blocks_def by (rule card_mono) (use assms(2) in auto)
  with assms(1) show ?thesis by (simp add: room_def)
qed

lemma blocks_insert:
  assumes "\<And>a. live t a \<Longrightarrow> live s a \<or> a = b"
  shows "blocks t \<le> Suc (blocks s)"
proof -
  have "blocks t \<le> card (insert b {a. live s a})"
    unfolding blocks_def by (rule card_mono) (use assms in auto)
  also have "\<dots> \<le> Suc (blocks s)"
    unfolding blocks_def by (rule card_insert_le_m1) simp_all
  finally show ?thesis .
qed

lemma room_insert:
  assumes "room E s (Suc k)" "\<And>a. live t a \<Longrightarrow> live s a \<or> a = b"
  shows "room E t k"
proof -
  have "blocks t \<le> Suc (blocks s)" by (rule blocks_insert [OF assms(2)])
  with assms(1) show ?thesis by (simp add: room_def)
qed

lemma calloc_at_fresh:
  assumes "calloc_ok E" "room E s (Suc k)"
  shows "calloc_at E s \<noteq> 0" "aligned (calloc_at E s)" "\<not> live s (calloc_at E s)"
proof -
  have "card {a. live s a} < x_capacity E" using assms(2) by (simp add: room_def blocks_def)
  with assms(1) show *: "calloc_at E s \<noteq> 0" by (simp add: calloc_ok_def calloc_at_def)
  with assms(1) show "aligned (calloc_at E s)" "\<not> live s (calloc_at E s)"
    unfolding calloc_ok_def calloc_at_def by blast+
qed

lemma run_calloc_world [exec]:
  "calloc_at E s \<noteq> 0 \<Longrightarrow> run (calloc_world E cap) s = Ok (calloc_at E s)
     (s\<lparr>nops := Suc (nops s), worlds := (worlds s)(calloc_at E s \<mapsto> zero_world cap)\<rparr>)"
  by (simp add: calloc_world_def Let_def)

lemma run_calloc_ts [exec]:
  "calloc_at E s \<noteq> 0 \<Longrightarrow> run (calloc_ts E k) s = Ok (calloc_at E s)
     (s\<lparr>nops := Suc (nops s), stores := (stores s)(calloc_at E s \<mapsto> zero_ts k)\<rparr>)"
  by (simp add: calloc_ts_def Let_def)

lemma run_calloc_entry [exec]:
  "calloc_at E s \<noteq> 0 \<Longrightarrow> run (calloc_entry E) s = Ok (calloc_at E s)
     (s\<lparr>nops := Suc (nops s), entries := (entries s)(calloc_at E s \<mapsto> zero_entry)\<rparr>)"
  by (simp add: calloc_entry_def Let_def)

section \<open>A concrete environment\<close>

text \<open>
  The environment of the examples: debug build with asserts, lists that are stacks (as
  mulle-linkedlist's are), an allocator that hands out the lowest of 64 addresses.
\<close>

definition sample_addresses :: "uptr list" where
  "sample_addresses = map (\<lambda>i. word_of_nat (16 * Suc i)) [0..<64]"

definition stack_remove_one :: "uptr list \<Rightarrow> (uptr \<times> uptr list) option" where
  "stack_remove_one xs = (case xs of [] \<Rightarrow> None | x # ys \<Rightarrow> Some (x, ys))"

definition lowest_free :: "nat \<Rightarrow> (uptr \<Rightarrow> bool) \<Rightarrow> uptr" where
  "lowest_free k lv = (case filter (\<lambda>a. \<not> lv a) sample_addresses of [] \<Rightarrow> 0 | a # _ \<Rightarrow> a)"

definition sample_ext :: ext where
  "sample_ext = \<lparr>ndebug = False, debug = True, x_calloc = lowest_free, x_weak = (\<lambda>_. False),
     x_add = (#), x_remove_one = stack_remove_one, x_tss_key = Some 1, x_self = 8,
     x_default_allocator = 4, x_capacity = 64\<rparr>"

definition sample_mem :: mem where
  "sample_mem = \<lparr>worlds = (\<lambda>_. None), stores = (\<lambda>_. None), entries = (\<lambda>_. None),
     q = \<lparr>q_world = 0, q_allocator = 0, q_leaks = [], q_free_entries = [], q_free_worlds = []\<rparr>,
     tss_key = 0, tss = (\<lambda>_. 0), errno = (\<lambda>_. 0), aba_global = False, allocator_aba = (\<lambda>_. False),
     trace = [], nops = 0\<rparr>"

lemma sample_addresses_props:
  "length sample_addresses = 64" "distinct sample_addresses"
  "\<forall>a \<in> set sample_addresses. a \<noteq> 0 \<and> aligned a"
  by (simp_all add: sample_addresses_def aligned_def upt_rec)

lemma lowest_free_ok:
  "lowest_free k lv \<noteq> 0 \<Longrightarrow> aligned (lowest_free k lv) \<and> \<not> lv (lowest_free k lv)"
proof -
  assume "lowest_free k lv \<noteq> 0"
  then obtain a as where "filter (\<lambda>a. \<not> lv a) sample_addresses = a # as" and eq: "lowest_free k lv = a"
    by (auto simp: lowest_free_def split: list.splits)
  then have "a \<in> set (filter (\<lambda>a. \<not> lv a) sample_addresses)" by simp
  with eq show ?thesis using sample_addresses_props(3) by auto
qed

lemma lowest_free_room: "card {a. lv a} < 64 \<Longrightarrow> lowest_free k lv \<noteq> 0"
proof -
  assume "card {a. lv a} < 64"
  then have "\<not> set sample_addresses \<subseteq> {a. lv a}"
    using card_mono [of "{a. lv a}" "set sample_addresses"] sample_addresses_props(1,2)
    by (auto simp: distinct_card)
  then obtain a where "a \<in> set (filter (\<lambda>a. \<not> lv a) sample_addresses)" by auto
  then obtain b bs where "filter (\<lambda>a. \<not> lv a) sample_addresses = b # bs"
    by (cases "filter (\<lambda>a. \<not> lv a) sample_addresses") auto
  moreover from this have "b \<in> set sample_addresses"
    by (metis filter_is_subset list.set_intros(1) subsetD)
  ultimately show ?thesis using sample_addresses_props(3) by (auto simp: lowest_free_def)
qed

lemma ext_ok_sample: "ext_ok sample_ext"
  using lowest_free_ok lowest_free_room
  by (auto simp: ext_ok_def calloc_ok_def list_ok_def sample_ext_def stack_remove_one_def
      split: list.splits)

end
