(* ===== verification/Aba_Worldpointer.thy ===== *)
theory Aba_Worldpointer
  imports Aba_Mem
begin

text \<open>
  The tagged world pointer of \<open>src/mulle-aba-storage.h\<close>: the address of a world with the
  "checked in" bit in bit 0 and the lock in bit 1, and the state graph over it that the asserts of
  \<open>src/mulle-aba-storage.c\<close> prescribe (\<open>assert_valid_transition\<close>, \<open>_mulle_aba_worldpointer_state\<close>).
\<close>

section \<open>Packing and unpacking\<close>

definition mulle_aba_worldpointer_set_lock :: "uptr \<Rightarrow> uptr \<Rightarrow> uptr" where
  "mulle_aba_worldpointer_set_lock p b = (p AND NOT 2) OR (if b \<noteq> 0 then 2 else 0)"

definition mulle_aba_worldpointer_get_lock :: "uptr \<Rightarrow> uptr" where
  "mulle_aba_worldpointer_get_lock p = (if p AND 2 \<noteq> 0 then 1 else 0)"

definition mulle_aba_worldpointer_set_bit :: "ext \<Rightarrow> uptr \<Rightarrow> uptr \<Rightarrow> (mem, uptr) prog" where
  "mulle_aba_worldpointer_set_bit E p b =
     bnd (c_assert E (b = 0 \<or> b = 1)) (\<lambda>_. Ret ((p AND NOT 1) OR b))"

definition mulle_aba_worldpointer_get_bit :: "uptr \<Rightarrow> uptr" where
  "mulle_aba_worldpointer_get_bit p = p AND 1"

definition mulle_aba_worldpointer_get_struct :: "uptr \<Rightarrow> uptr" where
  "mulle_aba_worldpointer_get_struct p = p AND NOT 3"

definition mulle_aba_worldpointer_make :: "ext \<Rightarrow> uptr \<Rightarrow> uptr \<Rightarrow> (mem, uptr) prog" where
  "mulle_aba_worldpointer_make E w bits =
     bnd (c_assert E (bits \<le> 3)) (\<lambda>_.
     bnd (c_assert E (w AND 3 = 0)) (\<lambda>_.
     Ret (w OR bits)))"

record worldpointers =
  new_world_p :: uptr
  old_world_p :: uptr

definition mulle_aba_worldpointers_make :: "ext \<Rightarrow> uptr \<Rightarrow> uptr \<Rightarrow> (mem, worldpointers) prog" where
  "mulle_aba_worldpointers_make E n o' =
     bnd (c_assert E ((n = 0 \<and> o' = 0) \<or>
        (mulle_aba_worldpointer_get_struct n \<noteq> 0 \<and> mulle_aba_worldpointer_get_struct o' \<noteq> 0))) (\<lambda>_.
     Ret \<lparr>new_world_p = n, old_world_p = o'\<rparr>)"

abbreviation get_lock :: "uptr \<Rightarrow> uptr" where "get_lock \<equiv> mulle_aba_worldpointer_get_lock"
abbreviation get_bit' :: "uptr \<Rightarrow> uptr" where "get_bit' \<equiv> mulle_aba_worldpointer_get_bit"
abbreviation get_struct :: "uptr \<Rightarrow> uptr" where "get_struct \<equiv> mulle_aba_worldpointer_get_struct"
abbreviation set_lock :: "uptr \<Rightarrow> uptr \<Rightarrow> uptr" where "set_lock \<equiv> mulle_aba_worldpointer_set_lock"

section \<open>The state graph\<close>

datatype swap_intent = Swap_register | Swap_unregister | Swap_free | Swap_checkin | Swap_lock | Swap_unlock

definition mulle_aba_worldpointer_state :: "uptr \<Rightarrow> world \<Rightarrow> nat" where
  "mulle_aba_worldpointer_state p w =
     unat (p AND 3) + (if w_timestamp w \<noteq> 0 then 4 else 0) + (if 1 <s w_n_threads w then 8 else 0)"

definition valid_transition :: "nat \<Rightarrow> nat \<Rightarrow> swap_intent \<Rightarrow> bool" where
  "valid_transition new old i =
    (if old = 0 then new = 2 \<and> i = Swap_lock
     else if old = 1 then new = 3 \<and> i = Swap_lock
     else if old = 2 then (new = 0 \<and> i = Swap_unlock) \<or> (new = 1 \<and> i = Swap_register)
     else if old = 3 then (new = 1 \<and> i = Swap_unlock) \<or> (new = 2 \<and> i = Swap_unregister)
       \<or> (new = 9 \<and> i = Swap_register)
     else if old = 5 then (new = 7 \<and> i = Swap_lock) \<or> (new = 5 \<and> i = Swap_checkin)
     else if old = 7 then (new = 2 \<and> i = Swap_unregister) \<or> (new = 5 \<and> i = Swap_unlock)
       \<or> (new = 5 \<and> i = Swap_checkin) \<or> (new = 13 \<and> i = Swap_register)
     else if old = 9 then (new = 11 \<and> i = Swap_lock) \<or> (new = 12 \<and> i = Swap_free)
     else if old = 11 then (new = 1 \<and> i = Swap_unregister) \<or> (new = 9 \<and> i = Swap_unlock)
       \<or> (new = 9 \<and> i = Swap_unregister) \<or> (new = 9 \<and> i = Swap_register) \<or> (new = 12 \<and> i = Swap_free)
     else if old = 12 then (new = 13 \<and> i = Swap_checkin) \<or> (new = 14 \<and> i = Swap_lock)
     else if old = 13 then (new = 12 \<and> i = Swap_free) \<or> (new = 13 \<and> i = Swap_checkin)
       \<or> (new = 15 \<and> i = Swap_lock)
     else if old = 14 then (new = 5 \<and> i = Swap_unregister) \<or> (new = 12 \<and> i = Swap_unlock)
       \<or> (new = 13 \<and> i = Swap_register) \<or> (new = 13 \<and> i = Swap_unregister)
       \<or> (new = 13 \<and> i = Swap_checkin) \<or> (new = 14 \<and> i = Swap_free)
     else if old = 15 then (new = 5 \<and> i = Swap_unregister) \<or> (new = 12 \<and> i = Swap_free)
       \<or> (new = 13 \<and> i = Swap_unlock) \<or> (new = 13 \<and> i = Swap_checkin)
       \<or> (new = 13 \<and> i = Swap_register) \<or> (new = 13 \<and> i = Swap_unregister)
     else False)"

section \<open>Bit-level facts\<close>

lemmas wp_defs = mulle_aba_worldpointer_set_lock_def mulle_aba_worldpointer_get_lock_def
  mulle_aba_worldpointer_get_bit_def mulle_aba_worldpointer_get_struct_def

lemma bit_set_lock:
  "bit (set_lock p b) n \<longleftrightarrow> n < 64 \<and> (if n = Suc 0 then b \<noteq> 0 else bit p n)"
  by (cases "n < 64") (auto simp: wp_defs bit_simps low_bits)

lemma bit_get_struct: "bit (get_struct p) n \<longleftrightarrow> n < 64 \<and> Suc 0 < n \<and> bit p n"
  by (cases "n < 64") (auto simp: wp_defs bit_simps low_bits)

lemma and_2_eq_0_iff: "(p :: uptr) AND 2 = 0 \<longleftrightarrow> \<not> bit p (Suc 0)"
proof
  assume "p AND 2 = 0"
  then have "\<not> bit (p AND 2) (Suc 0)" by simp
  then show "\<not> bit p (Suc 0)" by (simp add: bit_simps low_bits)
next
  assume "\<not> bit p (Suc 0)"
  then show "p AND 2 = 0"
    by (auto simp: bit_simps low_bits intro!: bit_word_eqI)
qed

lemma get_lock_iff: "get_lock p = (if bit p (Suc 0) then 1 else 0)"
  by (simp add: wp_defs and_2_eq_0_iff)

lemma get_bit_iff: "get_bit' p = (if bit p 0 then 1 else 0)"
  by (auto simp: wp_defs bit_simps low_bits intro!: bit_word_eqI)

lemma get_bit_cases: "get_bit' p = 0 \<or> get_bit' p = 1"
  by (simp add: get_bit_iff)

lemma get_lock_cases: "get_lock p = 0 \<or> get_lock p = 1"
  by (simp add: get_lock_iff)

lemma aligned_get_struct [simp]: "aligned (get_struct p)"
  by (simp add: aligned_iff_bits bit_get_struct)

lemma get_struct_aligned: "aligned a \<Longrightarrow> get_struct a = a"
  by (rule bit_word_eqI) (auto simp: bit_get_struct aligned_iff_bits dest: bit_gt_1)

lemma word_le_3_cases: "(b :: uptr) \<le> 3 \<longleftrightarrow> b = 0 \<or> b = 1 \<or> b = 2 \<or> b = 3"
proof -
  have "unat b \<le> 3 \<longleftrightarrow> unat b = 0 \<or> unat b = 1 \<or> unat b = 2 \<or> unat b = 3" by linarith
  then show ?thesis
    by (simp add: word_le_nat_alt word_unat_eq_iff)
qed

lemma bit_le_3: "(b :: uptr) \<le> 3 \<Longrightarrow> bit b n \<Longrightarrow> n = 0 \<or> n = Suc 0"
  by (auto simp: word_le_3_cases low_bits)

lemma get_struct_or:
  "aligned a \<Longrightarrow> b \<le> 3 \<Longrightarrow> get_struct (a OR b) = a"
  by (rule bit_word_eqI) (auto simp: bit_get_struct aligned_iff_bits bit_simps dest: bit_le_3 bit_gt_1)

lemma get_lock_or: "aligned a \<Longrightarrow> get_lock (a OR b) = get_lock b"
  by (simp add: get_lock_iff aligned_iff_bits bit_simps)

lemma get_bit_or: "aligned a \<Longrightarrow> get_bit' (a OR b) = get_bit' b"
  by (simp add: get_bit_iff aligned_iff_bits bit_simps)

lemma get_bits_const [simp]:
  "get_lock 0 = 0" "get_lock 1 = 0" "get_lock 2 = 1" "get_lock 3 = 1"
  "get_bit' 0 = 0" "get_bit' 1 = 1" "get_bit' 2 = 0" "get_bit' 3 = 1"
  "get_struct 0 = 0"
  by (simp_all add: wp_defs)

lemma get_struct_set_lock [simp]: "get_struct (set_lock p b) = get_struct p"
  by (rule bit_word_eqI) (auto simp: bit_get_struct bit_set_lock)

lemma get_bit_set_lock [simp]: "get_bit' (set_lock p b) = get_bit' p"
  by (simp add: get_bit_iff bit_set_lock)

lemma get_lock_set_lock [simp]: "get_lock (set_lock p b) = (if b = 0 then 0 else 1)"
  by (simp add: get_lock_iff bit_set_lock)

lemma set_lock_set_lock [simp]: "set_lock (set_lock p b) c = set_lock p c"
  by (rule bit_word_eqI) (auto simp: bit_set_lock)

text \<open>A world pointer is determined by its three parts.\<close>

lemma worldpointer_eqI:
  assumes "get_struct p = get_struct r" "get_bit' p = get_bit' r" "get_lock p = get_lock r"
  shows "p = r"
proof (rule bit_word_eqI)
  fix n assume "n < LENGTH(64)"
  then show "bit p n = bit r n"
    using arg_cong [OF assms(1), of "\<lambda>w. bit w n"] assms(2,3)
    by (cases "n = 0"; cases "n = Suc 0") (auto simp: bit_get_struct get_bit_iff get_lock_iff split: if_splits)
qed

lemma set_lock_same: "set_lock p (get_lock p) = p"
  by (rule worldpointer_eqI) (simp_all, simp add: get_lock_iff)

lemma set_lock_neq: "get_lock p = 0 \<Longrightarrow> set_lock p 1 \<noteq> p"
  by (metis get_lock_set_lock zero_neq_one)

lemma worldpointer_and_3: "unat (p AND 3) = unat (get_bit' p) + 2 * unat (get_lock p)"
proof -
  have "p AND 3 = get_bit' p + 2 * get_lock p"
  proof (cases "bit p 0"; cases "bit p (Suc 0)")
    assume "bit p 0" "bit p (Suc 0)"
    then have "p AND 3 = 3" by (auto simp: bit_simps low_bits intro!: bit_word_eqI)
    with \<open>bit p 0\<close> \<open>bit p (Suc 0)\<close> show ?thesis by (simp add: get_bit_iff get_lock_iff)
  next
    assume "bit p 0" "\<not> bit p (Suc 0)"
    then have "p AND 3 = 1" by (auto simp: bit_simps low_bits intro!: bit_word_eqI)
    with \<open>bit p 0\<close> \<open>\<not> bit p (Suc 0)\<close> show ?thesis by (simp add: get_bit_iff get_lock_iff)
  next
    assume "\<not> bit p 0" "bit p (Suc 0)"
    then have "p AND 3 = 2" by (auto simp: bit_simps low_bits intro!: bit_word_eqI)
    with \<open>\<not> bit p 0\<close> \<open>bit p (Suc 0)\<close> show ?thesis by (simp add: get_bit_iff get_lock_iff)
  next
    assume "\<not> bit p 0" "\<not> bit p (Suc 0)"
    then have "p AND 3 = 0" by (auto simp: bit_simps low_bits intro!: bit_word_eqI)
    with \<open>\<not> bit p 0\<close> \<open>\<not> bit p (Suc 0)\<close> show ?thesis by (simp add: get_bit_iff get_lock_iff)
  qed
  then show ?thesis by (auto simp: get_bit_iff get_lock_iff)
qed


section \<open>Properties\<close>

text \<open>C34: Packing a world's address with bit and lock loses nothing: for an aligned address and bits
  up to 3 \<open>_mulle_aba_worldpointer_make\<close> yields a pointer from which struct, bit and lock read back.
  For a misaligned address or larger bits a build with asserts stops.\<close>

theorem worldpointer_make_roundtrip:
  "run (mulle_aba_worldpointer_make E w bits) s =
     (if ndebug E \<or> (bits \<le> 3 \<and> aligned w) then Ok (w OR bits) s else Fault Assert_failed)
   \<and> (aligned w \<and> bits \<le> 3 \<longrightarrow> get_struct (w OR bits) = w
        \<and> get_bit' (w OR bits) = get_bit' bits \<and> get_lock (w OR bits) = get_lock bits)"
  by (simp add: mulle_aba_worldpointer_make_def exec run_c_assert aligned_def [symmetric]
      get_struct_or get_bit_or get_lock_or)

theorem worldpointer_make_roundtrip_witness:
  "get_struct ((64 :: uptr) OR 3) = 64 \<and> get_bit' ((64 :: uptr) OR 3) = 1 \<and> get_lock ((64 :: uptr) OR 3) = 1"
proof -
  have "aligned 64" "(3 :: uptr) \<le> 3" by (simp_all add: aligned_def)
  then show ?thesis using worldpointer_make_roundtrip [of sample_ext 64 3 sample_mem] by simp
qed

lemma run_make [exec]:
  "bits \<le> 3 \<Longrightarrow> aligned w \<Longrightarrow> run (mulle_aba_worldpointer_make E w bits) s = Ok (w OR bits) s"
  by (simp add: mulle_aba_worldpointer_make_def exec aligned_def)

lemma bit_set_bit:
  assumes "b = 0 \<or> b = 1"
  shows "bit ((p AND NOT 1) OR b) n \<longleftrightarrow> n < 64 \<and> (if n = 0 then b = 1 else bit (p :: uptr) n)"
  using assms by (cases "n < 64") (auto simp: bit_simps low_bits)

text \<open>C35: Setting the bit or the lock of a world pointer changes nothing else in it, and what was set
  is what is read.\<close>

theorem set_bit_set_lock_frame:
  assumes "b = 0 \<or> b = 1"
  shows "\<exists>r. run (mulle_aba_worldpointer_set_bit E p b) s = Ok r s
     \<and> get_bit' r = b \<and> get_lock r = get_lock p \<and> get_struct r = get_struct p
     \<and> get_lock (set_lock p b) = b \<and> get_bit' (set_lock p b) = get_bit' p
     \<and> get_struct (set_lock p b) = get_struct p
     \<and> set_lock (set_lock p b) (get_lock p) = p"
proof -
  obtain r where r: "r = (p AND NOT 1) OR b" by blast
  then have bits: "bit r n \<longleftrightarrow> n < 64 \<and> (if n = 0 then b = 1 else bit p n)" for n
    using bit_set_bit [OF assms, of p n] by simp
  have "get_struct r = get_struct p" by (rule bit_word_eqI) (simp add: bit_get_struct bits)
  moreover have "get_bit' r = b" "get_lock r = get_lock p"
    using assms by (auto simp: get_bit_iff get_lock_iff bits)
  moreover have "run (mulle_aba_worldpointer_set_bit E p b) s = Ok r s"
    using assms by (simp add: mulle_aba_worldpointer_set_bit_def exec r)
  moreover have "get_lock (set_lock p b) = b" using assms by auto
  ultimately show ?thesis by (simp add: set_lock_same)
qed

theorem set_bit_set_lock_frame_witness:
  "\<exists>r. run (mulle_aba_worldpointer_set_bit sample_ext 66 1) sample_mem = Ok r sample_mem
     \<and> get_bit' r = 1 \<and> get_lock r = 1"
proof -
  have l: "get_lock 66 = 1" by (simp add: mulle_aba_worldpointer_get_lock_def)
  obtain r where "run (mulle_aba_worldpointer_set_bit sample_ext 66 1) sample_mem = Ok r sample_mem"
    "get_bit' r = 1" "get_lock r = get_lock 66"
    using set_bit_set_lock_frame [of 1 sample_ext 66 sample_mem] by blast
  with l show ?thesis by metis
qed

lemma valid_transition_cases:
  assumes "valid_transition new old i"
  obtains "(old, i, new) \<in> {(0, Swap_lock, 2), (1, Swap_lock, 3), (5, Swap_lock, 7), (9, Swap_lock, 11),
      (12, Swap_lock, 14), (13, Swap_lock, 15)}"
  | "(old, i, new) \<in> {(2, Swap_unlock, 0), (3, Swap_unlock, 1), (7, Swap_unlock, 5), (11, Swap_unlock, 9),
      (14, Swap_unlock, 12), (15, Swap_unlock, 13)}"
  | "(old, i, new) \<in> {(2, Swap_register, 1), (3, Swap_register, 9), (7, Swap_register, 13),
      (11, Swap_register, 9), (14, Swap_register, 13), (15, Swap_register, 13)}"
  | "(old, i, new) \<in> {(5, Swap_checkin, 5), (7, Swap_checkin, 5), (12, Swap_checkin, 13),
      (13, Swap_checkin, 13), (14, Swap_checkin, 13), (15, Swap_checkin, 13)}"
  | "(old, i, new) \<in> {(3, Swap_unregister, 2), (7, Swap_unregister, 2), (11, Swap_unregister, 1),
      (11, Swap_unregister, 9), (14, Swap_unregister, 5), (14, Swap_unregister, 13),
      (15, Swap_unregister, 5), (15, Swap_unregister, 13)}"
  | "(old, i, new) \<in> {(9, Swap_free, 12), (11, Swap_free, 12), (13, Swap_free, 12), (14, Swap_free, 14),
      (15, Swap_free, 12)}"
proof -
  have "old < 16"
    using assms by (rule contrapos_pp) (simp add: valid_transition_def)
  then have "old = 0 \<or> old = 1 \<or> old = 2 \<or> old = 3 \<or> old = 4 \<or> old = 5 \<or> old = 6 \<or> old = 7 \<or> old = 8
    \<or> old = 9 \<or> old = 10 \<or> old = 11 \<or> old = 12 \<or> old = 13 \<or> old = 14 \<or> old = 15"
    by arith
  then show ?thesis
    using assms that by (elim disjE) (simp_all add: valid_transition_def, blast+)
qed

text \<open>C33: The state graph of the world pointer: locking sets the lock bit of an unlocked state and
  unlocking clears it, nothing else; registering and checking in lead to states with the bit set and
  no lock; a lock survives a step only when the last thread unregisters or a free keeps state 14; and
  every state that is entered can be left again.\<close>

theorem valid_transition_graph:
  assumes "valid_transition new old i"
  shows "(i = Swap_lock \<longrightarrow> even (old div 2) \<and> new = old + 2)
    \<and> (i = Swap_unlock \<longrightarrow> odd (old div 2) \<and> old = new + 2)
    \<and> (i = Swap_checkin \<or> i = Swap_register \<longrightarrow> odd new \<and> even (new div 2))
    \<and> (odd (new div 2) \<and> i \<noteq> Swap_lock \<longrightarrow> (i = Swap_unregister \<and> new = 2) \<or> (i = Swap_free \<and> new = 14))
    \<and> (\<exists>new' i'. valid_transition new' new i')"
proof -
  have ex: "\<exists>new' i'. valid_transition new' s i'" if "s \<in> {0, 1, 2, 3, 5, 7, 9, 11, 12, 13, 14, 15}" for s
    using that by (simp add: valid_transition_def) (elim disjE, simp_all, blast+)
  from assms show ?thesis
    by (cases rule: valid_transition_cases) (auto intro: ex)
qed

theorem valid_transition_graph_witness:
  "valid_transition 13 14 Swap_register \<and> (\<exists>new' i'. valid_transition new' 13 i')"
  using valid_transition_graph [of 13 14 Swap_register] by (simp add: valid_transition_def)

end
