(* ===== verification/Aba_Timestampstorage.thy ===== *)
theory Aba_Timestampstorage
  imports Aba_Worldpointer
begin

text \<open>
  Timestamp storages (\<open>struct _mulle_aba_timestampstorage\<close>): blocks of reference counted lists of
  pointers to free, one entry per timestamp, with a bit per entry that tells whether the entry is
  in use. An entry is pointed to by the storage's address and the entry's index.
\<close>

section \<open>Entries\<close>

type_synonym entryptr = "uptr \<times> nat"

definition ts_upd :: "nat \<Rightarrow> (timestampentry \<Rightarrow> timestampentry) \<Rightarrow> timestampstorage \<Rightarrow> timestampstorage" where
  "ts_upd i f ts = ts\<lparr>ts_entries := (ts_entries ts)[i := f (ts_entries ts ! i)]\<rparr>"

definition check_index :: "nat \<Rightarrow> timestampstorage \<Rightarrow> (mem, 'b) prog \<Rightarrow> (mem, 'b) prog" where
  "check_index i ts p = (if i < length (ts_entries ts) then p else Crash Out_of_bounds)"

text \<open>An atomic update of an entry gives the entry before the update.\<close>

definition entry_update :: "entryptr \<Rightarrow> (timestampentry \<Rightarrow> timestampentry) \<Rightarrow> (mem, timestampentry) prog" where
  "entry_update e f = Act
     (\<lambda>s. s\<lparr>stores := (stores s)(fst e := map_option (ts_upd (snd e) f) (stores s (fst e)))\<rparr>)
     (\<lambda>s. check_ptr (fst e) (stores s (fst e)) (\<lambda>ts.
        check_index (snd e) ts (Ret (ts_entries ts ! snd e))))"

definition entry_decrement_rc :: "entryptr \<Rightarrow> (mem, uptr) prog" where
  "entry_decrement_rc e =
     bnd (entry_update e (\<lambda>x. x\<lparr>retain_count_1 := retain_count_1 x - 1\<rparr>)) (\<lambda>x. Ret (retain_count_1 x))"

definition entry_add_rc :: "entryptr \<Rightarrow> uptr \<Rightarrow> (mem, unit) prog" where
  "entry_add_rc e d =
     bnd (entry_update e (\<lambda>x. x\<lparr>retain_count_1 := retain_count_1 x + d\<rparr>)) (\<lambda>_. skip)"

definition entry_add_pointer :: "ext \<Rightarrow> entryptr \<Rightarrow> uptr \<Rightarrow> (mem, unit) prog" where
  "entry_add_pointer E e a =
     bnd (entry_update e (\<lambda>x. x\<lparr>pointer_list := x_add E a (pointer_list x)\<rparr>)) (\<lambda>_. skip)"

definition entry_get_list :: "entryptr \<Rightarrow> (mem, uptr list) prog" where
  "entry_get_list e = bnd (entry_update e id) (\<lambda>x. Ret (pointer_list x))"

definition entry_clear_list :: "entryptr \<Rightarrow> (mem, unit) prog" where
  "entry_clear_list e = bnd (entry_update e (\<lambda>x. x\<lparr>pointer_list := []\<rparr>)) (\<lambda>_. skip)"

definition mulle_aba_timestampstorage_get_timestamp_index :: "ext \<Rightarrow> uptr \<Rightarrow> uint" where
  "mulle_aba_timestampstorage_get_timestamp_index E timestamp =
     ucast (timestamp mod word_of_nat (n_entries E))"

definition mulle_aba_timestampstorage_get_timestampentry :: "ext \<Rightarrow> uptr \<Rightarrow> uptr \<Rightarrow> entryptr" where
  "mulle_aba_timestampstorage_get_timestampentry E ts_storage timestamp =
     (ts_storage, unat (mulle_aba_timestampstorage_get_timestamp_index E timestamp))"

definition mulle_aba_timestampstorage_get_timestampentry_at_index ::
  "ext \<Rightarrow> uptr \<Rightarrow> uint \<Rightarrow> (mem, entryptr) prog" where
  "mulle_aba_timestampstorage_get_timestampentry_at_index E ts_storage index =
     bnd (c_assert E (unat index < n_entries E)) (\<lambda>_. Ret (ts_storage, unat index))"

section \<open>Allocation\<close>

definition mulle_aba_timestampstorage_alloc :: "ext \<Rightarrow> (mem, uptr) prog" where
  "mulle_aba_timestampstorage_alloc E =
     bnd (calloc_ts E (n_entries E)) (\<lambda>ts_storage.
     bnd (c_assert E (ts_storage \<noteq> 0)) (\<lambda>_.
     bnd (each (\<lambda>i. store_ts ts_storage (ts_upd i (\<lambda>x. x\<lparr>retain_count_1 := - 1\<rparr>)))
            [0..<n_entries E]) (\<lambda>_.
     Ret ts_storage)))"

definition mulle_aba_timestampstorage_empty_assert :: "ext \<Rightarrow> uptr \<Rightarrow> (mem, unit) prog" where
  "mulle_aba_timestampstorage_empty_assert E ts_storage =
     (if ndebug E then skip
      else each (\<lambda>i. bnd (load_ts ts_storage) (\<lambda>ts.
                     c_assert E (pointer_list (ts_entries ts ! i) = []))) [0..<n_entries E])"

definition mulle_aba_timestampstorage_free_unchecked :: "uptr \<Rightarrow> (mem, unit) prog" where
  "mulle_aba_timestampstorage_free_unchecked ts_storage =
     (if ts_storage = 0 then skip else dealloc_ts ts_storage)"

definition mulle_aba_timestampstorage_free :: "ext \<Rightarrow> uptr \<Rightarrow> (mem, unit) prog" where
  "mulle_aba_timestampstorage_free E ts_storage =
     (if ts_storage = 0 then skip
      else bnd (mulle_aba_timestampstorage_empty_assert E ts_storage) (\<lambda>_.
           mulle_aba_timestampstorage_free_unchecked ts_storage))"

section \<open>Usage bits\<close>

definition mulle_aba_timestampstorage_get_usage_bit :: "uptr \<Rightarrow> uint \<Rightarrow> (mem, uint) prog" where
  "mulle_aba_timestampstorage_get_usage_bit ts_storage index =
     bnd (load_ts ts_storage) (\<lambda>ts.
     Ret (if usage_bits ts AND push_bit (unat index) 1 \<noteq> 0 then 1 else 0))"

definition weakcas_usage :: "ext \<Rightarrow> uptr \<Rightarrow> uptr \<Rightarrow> uptr \<Rightarrow> (mem, bool) prog" where
  "weakcas_usage E a new expect = Act
     (\<lambda>s. s\<lparr>nops := Suc (nops s),
            stores := (stores s)(a := map_option (\<lambda>ts.
              if usage_bits ts = expect \<and> \<not> x_weak E (nops s) then ts\<lparr>usage_bits := new\<rparr> else ts)
              (stores s a))\<rparr>)
     (\<lambda>s. check_ptr a (stores s a) (\<lambda>ts. Ret (usage_bits ts = expect \<and> \<not> x_weak E (nops s))))"

definition set_mask :: "uptr \<Rightarrow> uint \<Rightarrow> uptr \<Rightarrow> uptr" where
  "set_mask usage index b =
     (let i_mask = push_bit (unat index) 1
      in (usage AND NOT i_mask) OR (if b \<noteq> 0 then i_mask else 0))"

fun mulle_aba_timestampstorage_set_usage_bit ::
  "ext \<Rightarrow> nat \<Rightarrow> uptr \<Rightarrow> uint \<Rightarrow> uptr \<Rightarrow> (mem, int) prog" where
  "mulle_aba_timestampstorage_set_usage_bit E 0 ts_storage index b = Crash Out_of_fuel"
| "mulle_aba_timestampstorage_set_usage_bit E (Suc fuel) ts_storage index b =
     bnd (load_ts ts_storage) (\<lambda>ts.
       let expect = usage_bits ts; usage = set_mask expect index b; r = (if usage \<noteq> 0 then 1 else 0)
       in if usage = expect then Ret r
          else bnd (weakcas_usage E ts_storage usage expect) (\<lambda>ok.
               if ok then Ret r
               else mulle_aba_timestampstorage_set_usage_bit E fuel ts_storage index b))"

section \<open>Execution of the operations\<close>

lemma ts_upd_sel [simp]:
  "usage_bits (ts_upd i f ts) = usage_bits ts" "length (ts_entries (ts_upd i f ts)) = length (ts_entries ts)"
  by (simp_all add: ts_upd_def)

lemma ts_upd_id [simp]: "ts_upd i id ts = ts"
  by (simp add: ts_upd_def)

lemma ts_upd_nth [simp]:
  "i < length (ts_entries ts) \<Longrightarrow> ts_entries (ts_upd i f ts) ! j = (if j = i then f (ts_entries ts ! i) else ts_entries ts ! j)"
  by (simp add: ts_upd_def)

lemma run_entry_update:
  assumes "fst e \<noteq> 0" "stores s (fst e) = Some ts" "snd e < length (ts_entries ts)"
  shows "run (entry_update e f) s = Ok (ts_entries ts ! snd e) (s\<lparr>stores := (stores s)(fst e \<mapsto> ts_upd (snd e) f ts)\<rparr>)"
  using assms by (simp add: entry_update_def check_ptr_def check_index_def)

lemma run_entry_ops [exec]:
  assumes "a \<noteq> 0" "stores s a = Some ts" "i < length (ts_entries ts)"
  shows "run (entry_decrement_rc (a, i)) s = Ok (retain_count_1 (ts_entries ts ! i))
      (s\<lparr>stores := (stores s)(a \<mapsto> ts_upd i (\<lambda>x. x\<lparr>retain_count_1 := retain_count_1 x - 1\<rparr>) ts)\<rparr>)"
    and "run (entry_add_rc (a, i) d) s = Ok ()
      (s\<lparr>stores := (stores s)(a \<mapsto> ts_upd i (\<lambda>x. x\<lparr>retain_count_1 := retain_count_1 x + d\<rparr>) ts)\<rparr>)"
    and "run (entry_add_pointer E (a, i) p) s = Ok ()
      (s\<lparr>stores := (stores s)(a \<mapsto> ts_upd i (\<lambda>x. x\<lparr>pointer_list := x_add E p (pointer_list x)\<rparr>) ts)\<rparr>)"
    and "run (entry_get_list (a, i)) s = Ok (pointer_list (ts_entries ts ! i)) s"
    and "run (entry_clear_list (a, i)) s = Ok ()
      (s\<lparr>stores := (stores s)(a \<mapsto> ts_upd i (\<lambda>x. x\<lparr>pointer_list := []\<rparr>) ts)\<rparr>)"
proof -
  have "(stores s)(a \<mapsto> ts) = stores s" using assms(2) by auto
  with assms show "run (entry_get_list (a, i)) s = Ok (pointer_list (ts_entries ts ! i)) s"
    by (simp add: entry_get_list_def exec run_entry_update)
qed (use assms in \<open>simp_all add: exec run_entry_update entry_decrement_rc_def entry_add_rc_def
    entry_add_pointer_def entry_clear_list_def\<close>)

text \<open>Every entry in turn.\<close>

lemma run_each_ts_upd:
  "\<lbrakk>a \<noteq> 0; stores s a = Some ts\<rbrakk> \<Longrightarrow>
   run (each (\<lambda>i. store_ts a (ts_upd i f)) xs) s = Ok () (s\<lparr>stores := (stores s)(a \<mapsto> fold (\<lambda>i. ts_upd i f) xs ts)\<rparr>)"
proof (induction xs arbitrary: s ts)
  case Nil
  then have "(stores s)(a \<mapsto> ts) = stores s" by auto
  with Nil show ?case by simp
qed (simp add: exec)

lemma fold_ts_upd:
  assumes "n \<le> length (ts_entries ts)"
  shows "fold (\<lambda>i. ts_upd i f) [0..<n] ts = ts\<lparr>ts_entries := map f (take n (ts_entries ts)) @ drop n (ts_entries ts)\<rparr>"
  using assms
proof (induction n)
  case (Suc n)
  then have "drop n (ts_entries ts) = ts_entries ts ! n # drop (Suc n) (ts_entries ts)"
    by (simp add: Cons_nth_drop_Suc)
  with Suc show ?case
    by (simp add: ts_upd_def nth_append list_update_append take_Suc_conv_app_nth)
qed simp

definition fresh_ts :: "ext \<Rightarrow> timestampstorage" where
  "fresh_ts E = \<lparr>usage_bits = 0, ts_entries = replicate (n_entries E) \<lparr>retain_count_1 = - 1, pointer_list = []\<rparr>\<rparr>"

lemma fresh_ts_sel [simp]:
  "usage_bits (fresh_ts E) = 0" "length (ts_entries (fresh_ts E)) = n_entries E"
  "i < n_entries E \<Longrightarrow> ts_entries (fresh_ts E) ! i = \<lparr>retain_count_1 = - 1, pointer_list = []\<rparr>"
  by (simp_all add: fresh_ts_def)

lemma run_timestampstorage_alloc [exec]:
  assumes "calloc_at E s \<noteq> 0"
  shows "run (mulle_aba_timestampstorage_alloc E) s = Ok (calloc_at E s)
    (s\<lparr>nops := Suc (nops s), stores := (stores s)(calloc_at E s \<mapsto> fresh_ts E)\<rparr>)"
proof -
  have "fold (\<lambda>i. ts_upd i (\<lambda>x. x\<lparr>retain_count_1 := - 1\<rparr>)) [0..<n_entries E] (zero_ts (n_entries E)) = fresh_ts E"
    by (subst fold_ts_upd) (simp_all add: zero_ts_def fresh_ts_def)
  with assms show ?thesis
    by (simp add: mulle_aba_timestampstorage_alloc_def exec run_each_ts_upd)
qed

lemma run_each_empty:
  "\<lbrakk>a \<noteq> 0; stores s a = Some ts; \<forall>i \<in> set xs. pointer_list (ts_entries ts ! i) = []\<rbrakk> \<Longrightarrow>
   run (each (\<lambda>i. bnd (load_ts a) (\<lambda>ts. c_assert E (pointer_list (ts_entries ts ! i) = []))) xs) s = Ok () s"
  by (induction xs) (simp_all add: exec)

lemma run_each_nonempty:
  "\<lbrakk>a \<noteq> 0; stores s a = Some ts; \<not> ndebug E; \<not> (\<forall>i \<in> set xs. pointer_list (ts_entries ts ! i) = [])\<rbrakk> \<Longrightarrow>
   run (each (\<lambda>i. bnd (load_ts a) (\<lambda>ts. c_assert E (pointer_list (ts_entries ts ! i) = []))) xs) s = Fault Assert_failed"
  by (induction xs) (auto simp: exec run_c_assert)

lemma run_timestampstorage_free_0 [exec]: "run (mulle_aba_timestampstorage_free E 0) s = Ok () s"
  by (simp add: mulle_aba_timestampstorage_free_def)

lemma run_timestampstorage_free [exec]:
  assumes "a \<noteq> 0" "stores s a = Some ts" "\<forall>i < n_entries E. pointer_list (ts_entries ts ! i) = []"
  shows "run (mulle_aba_timestampstorage_free E a) s = Ok () (s\<lparr>stores := (stores s)(a := None)\<rparr>)"
  using assms run_each_empty [of a s ts "[0..<n_entries E]" E]
  by (simp add: mulle_aba_timestampstorage_free_def mulle_aba_timestampstorage_empty_assert_def
      mulle_aba_timestampstorage_free_unchecked_def exec)

section \<open>Usage bits\<close>

lemma bit_set_mask:
  "bit (set_mask u i b) k \<longleftrightarrow> k < 64 \<and> (if k = unat i then b \<noteq> 0 else bit u k)"
  by (cases "k < 64") (auto simp: set_mask_def Let_def bit_simps)

lemma run_get_usage_bit [exec]:
  assumes "a \<noteq> 0" "stores s a = Some ts" "unat i < 64"
  shows "run (mulle_aba_timestampstorage_get_usage_bit a i) s = Ok (if bit (usage_bits ts) (unat i) then 1 else 0) s"
proof -
  have "usage_bits ts AND push_bit (unat i) 1 \<noteq> 0 \<longleftrightarrow> bit (usage_bits ts) (unat i)"
  proof
    assume "usage_bits ts AND push_bit (unat i) 1 \<noteq> 0"
    then obtain k where "bit (usage_bits ts AND push_bit (unat i) 1) k" by (auto simp: bit_eq_iff)
    then show "bit (usage_bits ts) (unat i)" by (auto simp: bit_simps)
  next
    assume "bit (usage_bits ts) (unat i)"
    then have "bit (usage_bits ts AND push_bit (unat i) 1) (unat i)" using assms(3) by (simp add: bit_simps)
    then show "usage_bits ts AND push_bit (unat i) 1 \<noteq> 0" by auto
  qed
  with assms(1,2) show ?thesis
    by (simp add: mulle_aba_timestampstorage_get_usage_bit_def exec)
qed

text \<open>
  A weak compare-and-swap may fail without reason, but not for ever: \<open>weak_bound E F\<close> says that of any
  \<open>F\<close> successive ones at least one does not. Alone, an update of a usage bit then ends within \<open>F\<close> rounds.
\<close>

definition weak_bound :: "ext \<Rightarrow> nat \<Rightarrow> bool" where
  "weak_bound E F \<longleftrightarrow> (\<forall>k. \<exists>j < F. \<not> x_weak E (k + j))"

lemma weak_bound_mono: "weak_bound E F \<Longrightarrow> F \<le> G \<Longrightarrow> weak_bound E G"
  unfolding weak_bound_def by (meson less_le_trans)

lemma weak_bound_sample: "0 < F \<Longrightarrow> weak_bound sample_ext F"
  by (auto simp: weak_bound_def sample_ext_def)

lemma run_weakcas [exec]:
  assumes "a \<noteq> 0" "stores s a = Some ts"
  shows "run (weakcas_usage E a new expect) s = (if usage_bits ts = expect \<and> \<not> x_weak E (nops s)
    then Ok True (s\<lparr>nops := Suc (nops s), stores := (stores s)(a \<mapsto> ts\<lparr>usage_bits := new\<rparr>)\<rparr>)
    else Ok False (s\<lparr>nops := Suc (nops s), stores := (stores s)(a \<mapsto> ts)\<rparr>))"
  using assms by (auto simp: weakcas_usage_def check_ptr_def)

definition usage_result :: "uptr \<Rightarrow> int" where
  "usage_result u = (if u \<noteq> 0 then 1 else 0)"

lemma run_set_usage_bit_steps:
  assumes "a \<noteq> 0" "stores s a = Some ts" "\<exists>j < fuel. \<not> x_weak E (nops s + j)"
  shows "\<exists>m. run (mulle_aba_timestampstorage_set_usage_bit E fuel a i b) s =
    Ok (usage_result (set_mask (usage_bits ts) i b))
      (s\<lparr>nops := m, stores := (stores s)(a \<mapsto> ts\<lparr>usage_bits := set_mask (usage_bits ts) i b\<rparr>)\<rparr>)"
  using assms
proof (induction fuel arbitrary: s)
  case (Suc fuel)
  let ?u = "set_mask (usage_bits ts) i b"
  show ?case
  proof (cases "?u = usage_bits ts")
    case True
    then have "s\<lparr>nops := nops s, stores := (stores s)(a \<mapsto> ts\<lparr>usage_bits := ?u\<rparr>)\<rparr> = s"
      using Suc.prems(2) by (simp add: fun_upd_idem)
    moreover have "run (mulle_aba_timestampstorage_set_usage_bit E (Suc fuel) a i b) s = Ok (usage_result ?u) s"
      using True Suc.prems(1,2) by (simp add: exec usage_result_def)
    ultimately show ?thesis by metis
  next
    case ne: False
    show ?thesis
    proof (cases "x_weak E (nops s)")
      case False
      with ne Suc.prems(1,2) have "run (mulle_aba_timestampstorage_set_usage_bit E (Suc fuel) a i b) s =
        Ok (usage_result ?u) (s\<lparr>nops := Suc (nops s), stores := (stores s)(a \<mapsto> ts\<lparr>usage_bits := ?u\<rparr>)\<rparr>)"
        by (simp add: exec usage_result_def Let_def)
      then show ?thesis by blast
    next
      case True
      let ?t = "s\<lparr>nops := Suc (nops s), stores := (stores s)(a \<mapsto> ts)\<rparr>"
      from Suc.prems(3) obtain j where "j < Suc fuel" "\<not> x_weak E (nops s + j)" by blast
      moreover from this True have "j \<noteq> 0" by (metis add_0_right)
      ultimately have "\<exists>j < fuel. \<not> x_weak E (nops ?t + j)"
        by (intro exI [of _ "j - 1"]) simp
      moreover have "stores ?t a = Some ts" by simp
      ultimately obtain m where
        "run (mulle_aba_timestampstorage_set_usage_bit E fuel a i b) ?t =
          Ok (usage_result ?u) (?t\<lparr>nops := m, stores := (stores ?t)(a \<mapsto> ts\<lparr>usage_bits := ?u\<rparr>)\<rparr>)"
        using Suc.IH [OF Suc.prems(1)] by blast
      with ne True Suc.prems(1,2) have "run (mulle_aba_timestampstorage_set_usage_bit E (Suc fuel) a i b) s =
        Ok (usage_result ?u) (s\<lparr>nops := m, stores := (stores s)(a \<mapsto> ts\<lparr>usage_bits := ?u\<rparr>)\<rparr>)"
        by (simp add: exec Let_def)
      then show ?thesis by blast
    qed
  qed
qed simp

lemma run_set_usage_bit:
  assumes "a \<noteq> 0" "stores s a = Some ts" "weak_bound E fuel"
  obtains m where "run (mulle_aba_timestampstorage_set_usage_bit E fuel a i b) s =
    Ok (usage_result (set_mask (usage_bits ts) i b))
      (s\<lparr>nops := m, stores := (stores s)(a \<mapsto> ts\<lparr>usage_bits := set_mask (usage_bits ts) i b\<rparr>)\<rparr>)"
  using run_set_usage_bit_steps [OF assms(1,2)] assms(3) unfolding weak_bound_def by blast

text \<open>Another thread that sets or clears a usage bit of the same storage.\<close>

definition other_usage :: "uptr \<Rightarrow> uint \<times> uptr \<Rightarrow> mem \<Rightarrow> mem" where
  "other_usage a jb s = s\<lparr>stores := (stores s)(a :=
     map_option (\<lambda>ts. ts\<lparr>usage_bits := set_mask (usage_bits ts) (fst jb) (snd jb)\<rparr>) (stores s a))\<rparr>"

definition apply_masks :: "(uint \<times> uptr) list \<Rightarrow> uptr \<Rightarrow> uptr" where
  "apply_masks js u = fold (\<lambda>jb u. set_mask u (fst jb) (snd jb)) js u"

lemma apply_masks_simps [simp]:
  "apply_masks [] u = u" "apply_masks (jb # js) u = apply_masks js (set_mask u (fst jb) (snd jb))"
  by (simp_all add: apply_masks_def)

definition usage_upd :: "uptr \<Rightarrow> timestampstorage \<Rightarrow> uptr \<Rightarrow> nat \<Rightarrow> mem \<Rightarrow> mem" where
  "usage_upd a ts u m s = s\<lparr>nops := m, stores := (stores s)(a \<mapsto> ts\<lparr>usage_bits := u\<rparr>)\<rparr>"

lemma other_usage_upd [simp]:
  "other_usage a jb (usage_upd a ts u m s) = usage_upd a ts (set_mask u (fst jb) (snd jb)) m s"
  by (simp add: other_usage_def usage_upd_def)

lemma usage_upd_sel [simp]: "stores (usage_upd a ts u m s) a = Some (ts\<lparr>usage_bits := u\<rparr>)"
  "nops (usage_upd a ts u m s) = m"
  by (simp_all add: usage_upd_def)

lemma usage_upd_upd [simp]:
  "(usage_upd a ts u m s)\<lparr>nops := m', stores := (stores (usage_upd a ts u m s))(a \<mapsto> ts\<lparr>usage_bits := u'\<rparr>)\<rparr>
    = usage_upd a ts u' m' s"
  by (simp add: usage_upd_def)

lemma runi_load_ts:
  "a \<noteq> 0 \<Longrightarrow> runi (load_ts a) (map (other_usage a) js) (usage_upd a ts u m s) =
     (case js of [] \<Rightarrow> Ok (ts\<lparr>usage_bits := u\<rparr>) (usage_upd a ts u m s, [])
      | jb # js' \<Rightarrow> Ok (ts\<lparr>usage_bits := set_mask u (fst jb) (snd jb)\<rparr>)
          (usage_upd a ts (set_mask u (fst jb) (snd jb)) m s, map (other_usage a) js'))"
  by (simp add: load_ts_def check_ptr_def split: list.split)

lemma runi_weakcas:
  assumes "a \<noteq> 0"
  shows "runi (weakcas_usage E a new expect) (map (other_usage a) js) (usage_upd a ts u m s) =
     (let u' = apply_masks (take 1 js) u in
      if u' = expect \<and> \<not> x_weak E m then Ok True (usage_upd a ts new (Suc m) s, map (other_usage a) (drop 1 js))
      else Ok False (usage_upd a ts u' (Suc m) s, map (other_usage a) (drop 1 js)))"
proof (cases js)
  case Nil
  with assms show ?thesis by (simp add: weakcas_usage_def check_ptr_def usage_upd_def Let_def)
next
  case (Cons jb js')
  with assms show ?thesis
    by (simp add: weakcas_usage_def check_ptr_def Let_def usage_upd_def other_usage_def)
qed

lemma runi_set_usage_bit:
  assumes "a \<noteq> 0" "weak_bound E F"
  shows "length js + F \<le> fuel \<Longrightarrow>
    \<exists>n u' m'. runi (mulle_aba_timestampstorage_set_usage_bit E fuel a i b) (map (other_usage a) js) (usage_upd a ts u m s)
        = Ok (usage_result u') (usage_upd a ts u' m' s, map (other_usage a) (drop n js))
      \<and> n \<le> length js \<and> u' = set_mask (apply_masks (take n js) u) i b"
proof (induction fuel arbitrary: js u m)
  case 0
  with assms(2) show ?case by (simp add: weak_bound_def)
next
  case (Suc fuel)
  let ?set = "mulle_aba_timestampstorage_set_usage_bit E (Suc fuel) a i b"
  show ?case
  proof (cases js)
    case Nil
    have w: "weak_bound E (Suc fuel)" using weak_bound_mono [OF assms(2)] Suc.prems Nil by simp
    from run_set_usage_bit [OF assms(1) usage_upd_sel(1) [of a ts u m s] w, where i = i and b = b] obtain m' where
      "run ?set (usage_upd a ts u m s) = Ok (usage_result (set_mask u i b)) (usage_upd a ts (set_mask u i b) m' s)"
      by (auto simp del: mulle_aba_timestampstorage_set_usage_bit.simps)
    with Nil show ?thesis
      by (intro exI [of _ "0 :: nat"] exI [of _ "set_mask u i b"] exI [of _ m'])
        (simp add: runi_Nil del: mulle_aba_timestampstorage_set_usage_bit.simps)
  next
    case (Cons jb js')
    let ?u1 = "set_mask u (fst jb) (snd jb)"
    let ?new = "set_mask ?u1 i b" and ?u2 = "apply_masks (take 1 js') ?u1" and ?k = "Suc (length (take 1 js'))"
    have load: "runi (load_ts a) (map (other_usage a) js) (usage_upd a ts u m s)
      = Ok (ts\<lparr>usage_bits := ?u1\<rparr>) (usage_upd a ts ?u1 m s, map (other_usage a) js')"
      using runi_load_ts [OF assms(1), of js] Cons by simp
    note cas = runi_weakcas [OF assms(1), of E ?new ?u1 js' ts ?u1 m s]
    have k: "take ?k js = jb # take 1 js'" "drop ?k js = drop 1 js'" "?k \<le> length js"
      unfolding Cons by (cases js'; simp)+
    consider "?new = ?u1" | "?new \<noteq> ?u1" "?u2 = ?u1" "\<not> x_weak E m" | "?new \<noteq> ?u1" "?u2 \<noteq> ?u1 \<or> x_weak E m" by blast
    then show ?thesis
    proof cases
      case 1
      with load Cons show ?thesis
        by (intro exI [of _ 1] exI [of _ ?u1] exI [of _ m]) (simp add: runi_bnd usage_result_def)
    next
      case 2
      with load cas k show ?thesis
        by (intro exI [of _ ?k] exI [of _ ?new] exI [of _ "Suc m"]) (simp add: runi_bnd usage_result_def Let_def)
    next
      case 3
      have "length (drop 1 js') + F \<le> fuel" using Suc.prems Cons by simp
      from Suc.IH [OF this, of ?u2 "Suc m"] obtain n u' m' where IH:
        "runi (mulle_aba_timestampstorage_set_usage_bit E fuel a i b) (map (other_usage a) (drop 1 js')) (usage_upd a ts ?u2 (Suc m) s)
          = Ok (usage_result u') (usage_upd a ts u' m' s, map (other_usage a) (drop n (drop 1 js')))"
        "n \<le> length (drop 1 js')" "u' = set_mask (apply_masks (take n (drop 1 js')) ?u2) i b" by blast
      have d: "drop n (drop 1 js') = drop (?k + n) js"
        using k(2) by (metis drop_drop add.commute)
      have "runi ?set (map (other_usage a) js) (usage_upd a ts u m s) =
        Ok (usage_result u') (usage_upd a ts u' m' s, map (other_usage a) (drop n (drop 1 js')))"
        using 3 load cas IH(1) by (auto simp: runi_bnd Let_def)
      then have "runi ?set (map (other_usage a) js) (usage_upd a ts u m s) =
        Ok (usage_result u') (usage_upd a ts u' m' s, map (other_usage a) (drop (?k + n) js))"
        by (simp only: d)
      moreover have "apply_masks (take (?k + n) js) u = apply_masks (take n (drop 1 js')) ?u2"
        unfolding take_add k(1,2) by (simp add: apply_masks_def)
      moreover have "?k + n \<le> length js" using IH(2) Cons by (cases js') auto
      ultimately show ?thesis using IH(3) by metis
    qed
  qed
qed

section \<open>Properties\<close>

text \<open>C37: A new timestamp storage sits at an address that was not in use; it has no usage bit set and
  every entry has retain count -1 (stored as 0xFF..FF) and no pointers; the rest of memory is untouched.
  If the allocator gives no memory the code stops at the assert, or writes through NULL without asserts.\<close>

theorem timestampstorage_alloc_spec:
  assumes "calloc_ok E"
  shows "if calloc_at E s = 0
    then run (mulle_aba_timestampstorage_alloc E) s = Fault (if ndebug E then Null_deref else Assert_failed)
    else run (mulle_aba_timestampstorage_alloc E) s = Ok (calloc_at E s)
           (s\<lparr>nops := Suc (nops s), stores := (stores s)(calloc_at E s \<mapsto> fresh_ts E)\<rparr>)
      \<and> aligned (calloc_at E s) \<and> \<not> live s (calloc_at E s)
      \<and> usage_bits (fresh_ts E) = 0
      \<and> list_all (\<lambda>x. retain_count_1 x = - 1 \<and> pointer_list x = []) (ts_entries (fresh_ts E))"
proof (cases "calloc_at E s = 0")
  case True
  obtain m where "n_entries E = Suc m" using n_entries_pos(1) [of E] by (cases "n_entries E") auto
  then have "[0..<n_entries E] = 0 # [1..<n_entries E]" by (simp add: upt_conv_Cons)
  with True show ?thesis
    by (simp add: mulle_aba_timestampstorage_alloc_def run_bnd calloc_ts_def run_c_assert
        store_ts_def check_ptr_def)
next
  case False
  with assms show ?thesis
    unfolding calloc_ok_def by (auto simp: run_timestampstorage_alloc calloc_at_def list_all_length)
qed

theorem timestampstorage_alloc_spec_witness:
  "run (mulle_aba_timestampstorage_alloc sample_ext) sample_mem = Ok 16
     (sample_mem\<lparr>nops := 1, stores := (stores sample_mem)(16 \<mapsto> fresh_ts sample_ext)\<rparr>)"
proof -
  have "calloc_ok sample_ext" using ext_ok_sample by (simp add: ext_ok_def)
  moreover have "calloc_at sample_ext sample_mem = 16"
    by (simp add: calloc_at_def sample_ext_def lowest_free_def sample_addresses_def upt_rec live_def sample_mem_def)
  ultimately show ?thesis
    using timestampstorage_alloc_spec [of sample_ext sample_mem] by (simp add: sample_mem_def)
qed

text \<open>C38: Freeing a timestamp storage returns its block; a build with asserts refuses a storage that
  still holds pointers to free, one without asserts drops them.\<close>

theorem timestampstorage_free_spec:
  assumes "a \<noteq> 0" "stores s a = Some ts" "length (ts_entries ts) = n_entries E"
  shows "run (mulle_aba_timestampstorage_free E a) s =
    (if ndebug E \<or> list_all (\<lambda>x. pointer_list x = []) (ts_entries ts)
     then Ok () (s\<lparr>stores := (stores s)(a := None)\<rparr>) else Fault Assert_failed)"
proof -
  have all: "list_all (\<lambda>x. pointer_list x = []) (ts_entries ts) \<longleftrightarrow>
    (\<forall>i \<in> set [0..<n_entries E]. pointer_list (ts_entries ts ! i) = [])"
    using assms(3) by (auto simp: list_all_length)
  show ?thesis
  proof (cases "\<forall>i \<in> set [0..<n_entries E]. pointer_list (ts_entries ts ! i) = []")
    case True
    with assms all show ?thesis by (simp add: run_timestampstorage_free)
  next
    case False
    with assms(1,2) all run_each_nonempty [OF assms(1,2) _ False] show ?thesis
      by (auto simp: mulle_aba_timestampstorage_free_def mulle_aba_timestampstorage_empty_assert_def
          mulle_aba_timestampstorage_free_unchecked_def run_bnd run_dealloc_ts)
  qed
qed

theorem timestampstorage_free_spec_witness:
  "run (mulle_aba_timestampstorage_free sample_ext 16)
     (sample_mem\<lparr>stores := [16 \<mapsto> ts_upd 0 (\<lambda>x. x\<lparr>pointer_list := [32]\<rparr>) (fresh_ts sample_ext)]\<rparr>)
   = Fault Assert_failed"
proof -
  let ?ts = "ts_upd 0 (\<lambda>x. x\<lparr>pointer_list := [32]\<rparr>) (fresh_ts sample_ext)"
  let ?s = "sample_mem\<lparr>stores := [16 \<mapsto> ?ts]\<rparr>"
  have "length (ts_entries ?ts) = n_entries sample_ext" by simp
  moreover have "\<not> list_all (\<lambda>x. pointer_list x = []) (ts_entries ?ts)"
    by (auto simp: list_all_length intro!: exI [of _ 0])
  moreover have "\<not> ndebug sample_ext" by (simp add: sample_ext_def)
  ultimately show ?thesis
    using timestampstorage_free_spec [of 16 ?s ?ts sample_ext] by simp
qed

text \<open>C36: Setting a usage bit, run alone, ends within the bound on spurious failures, changes exactly
  that bit, returns whether any entry of the storage is in use, and the bit reads back.\<close>

theorem set_usage_bit_spec:
  assumes "a \<noteq> 0" "stores s a = Some ts" "weak_bound E fuel" "unat i < 64"
  shows "\<exists>m u. run (mulle_aba_timestampstorage_set_usage_bit E fuel a i b) s =
      Ok (if u \<noteq> 0 then 1 else 0) (s\<lparr>nops := m, stores := (stores s)(a \<mapsto> ts\<lparr>usage_bits := u\<rparr>)\<rparr>)
    \<and> (\<forall>k < 64. bit u k = (if k = unat i then b \<noteq> 0 else bit (usage_bits ts) k))
    \<and> run (mulle_aba_timestampstorage_get_usage_bit a i)
        (s\<lparr>nops := m, stores := (stores s)(a \<mapsto> ts\<lparr>usage_bits := u\<rparr>)\<rparr>) =
      Ok (if b \<noteq> 0 then 1 else 0) (s\<lparr>nops := m, stores := (stores s)(a \<mapsto> ts\<lparr>usage_bits := u\<rparr>)\<rparr>)"
proof -
  let ?u = "set_mask (usage_bits ts) i b"
  obtain m where m: "run (mulle_aba_timestampstorage_set_usage_bit E fuel a i b) s =
    Ok (usage_result ?u) (s\<lparr>nops := m, stores := (stores s)(a \<mapsto> ts\<lparr>usage_bits := ?u\<rparr>)\<rparr>)"
    using run_set_usage_bit [OF assms(1-3)] by blast
  let ?t = "s\<lparr>nops := m, stores := (stores s)(a \<mapsto> ts\<lparr>usage_bits := ?u\<rparr>)\<rparr>"
  have "run (mulle_aba_timestampstorage_get_usage_bit a i) ?t = Ok (if b \<noteq> 0 then 1 else 0) ?t"
    using run_get_usage_bit [OF assms(1), of ?t "ts\<lparr>usage_bits := ?u\<rparr>" i] assms(4)
    by (simp add: bit_set_mask)
  moreover have "\<forall>k < 64. bit ?u k = (if k = unat i then b \<noteq> 0 else bit (usage_bits ts) k)"
    by (simp add: bit_set_mask)
  ultimately show ?thesis using m unfolding usage_result_def by blast
qed

theorem set_usage_bit_spec_witness:
  "\<exists>(u :: uptr) t. run (mulle_aba_timestampstorage_set_usage_bit sample_ext 1 16 1 1)
      (sample_mem\<lparr>stores := [16 \<mapsto> fresh_ts sample_ext]\<rparr>) = Ok (if u \<noteq> 0 then 1 else 0) t \<and> bit u 1"
proof -
  let ?s = "sample_mem\<lparr>stores := [16 \<mapsto> fresh_ts sample_ext]\<rparr>"
  have pre: "(16 :: uptr) \<noteq> 0" "stores ?s 16 = Some (fresh_ts sample_ext)" "weak_bound sample_ext 1" "unat (1 :: uint) < 64"
    by (simp_all add: weak_bound_sample)
  obtain m u where "run (mulle_aba_timestampstorage_set_usage_bit sample_ext 1 16 1 1) ?s =
      Ok (if u \<noteq> 0 then 1 else 0) (?s\<lparr>nops := m, stores := (stores ?s)(16 \<mapsto> (fresh_ts sample_ext)\<lparr>usage_bits := u\<rparr>)\<rparr>)"
    and u: "\<forall>k < 64. bit u k = (if k = unat (1 :: uint) then (1 :: uptr) \<noteq> 0 else bit (usage_bits (fresh_ts sample_ext)) k)"
    using set_usage_bit_spec [OF pre, of 1] by blast
  moreover have "bit u 1" using u [rule_format, of 1] by simp
  ultimately show ?thesis by blast
qed

text \<open>C20: Setting a usage bit is lock-free and loses no update. While other threads change usage bits
  of the same storage any number of times (\<open>js\<close>), and the weak compare-and-swap may fail spuriously
  as well, though of any \<open>F\<close> in succession at least one does not (\<open>weak_bound\<close>), the loop ends within
  as many rounds as there are changes plus \<open>F\<close>; then the thread's own bit is as it wants it and every
  other bit is as the other threads left it.\<close>

theorem set_usage_bit_lock_free:
  assumes "a \<noteq> 0" "stores s a = Some ts" "weak_bound E F" "length js + F \<le> fuel"
  shows "\<exists>n \<le> length js. \<exists>u t.
      runi (mulle_aba_timestampstorage_set_usage_bit E fuel a i b) (map (other_usage a) js) s
        = Ok (if u \<noteq> 0 then 1 else 0) (t, map (other_usage a) (drop n js))
      \<and> stores t a = Some (ts\<lparr>usage_bits := u\<rparr>)
      \<and> (\<forall>k < 64. bit u k = (if k = unat i then b \<noteq> 0 else bit (apply_masks (take n js) (usage_bits ts)) k))"
proof -
  have s: "usage_upd a ts (usage_bits ts) (nops s) s = s"
    using assms(2) by (simp add: usage_upd_def fun_upd_idem)
  from runi_set_usage_bit [OF assms(1,3,4), of i b ts "usage_bits ts" "nops s" s] obtain n u m where
    r: "runi (mulle_aba_timestampstorage_set_usage_bit E fuel a i b) (map (other_usage a) js) s
      = Ok (usage_result u) (usage_upd a ts u m s, map (other_usage a) (drop n js))"
    "n \<le> length js" "u = set_mask (apply_masks (take n js) (usage_bits ts)) i b"
    unfolding s by blast
  moreover have "\<forall>k < 64. bit u k = (if k = unat i then b \<noteq> 0 else bit (apply_masks (take n js) (usage_bits ts)) k)"
    using r(3) by (simp add: bit_set_mask)
  ultimately show ?thesis unfolding usage_result_def by (metis usage_upd_sel(1))
qed

text \<open>Every other compare-and-swap fails for no reason.\<close>

definition flaky_ext :: ext where
  "flaky_ext = sample_ext\<lparr>x_weak := \<lambda>k. k mod 2 = 0\<rparr>"

lemma weak_bound_flaky: "weak_bound flaky_ext 2"
proof (unfold weak_bound_def, intro allI)
  fix k :: nat
  show "\<exists>j < 2. \<not> x_weak flaky_ext (k + j)"
  proof (cases "k mod 2 = 0")
    case True
    then show ?thesis by (intro exI [of _ 1]) (simp add: flaky_ext_def, presburger)
  next
    case False
    then show ?thesis by (intro exI [of _ 0]) (simp add: flaky_ext_def)
  qed
qed

theorem set_usage_bit_lock_free_witness:
  "\<exists>n \<le> 1. \<exists>(u :: uptr) t. runi (mulle_aba_timestampstorage_set_usage_bit flaky_ext 3 16 0 1) (map (other_usage 16) [(1, 1)])
      (sample_mem\<lparr>stores := [16 \<mapsto> fresh_ts sample_ext]\<rparr>)
    = Ok (if u \<noteq> 0 then 1 else 0) (t, map (other_usage 16) (drop n [(1, 1)]))"
proof -
  let ?s = "sample_mem\<lparr>stores := [16 \<mapsto> fresh_ts sample_ext]\<rparr>"
  have pre: "(16 :: uptr) \<noteq> 0" "stores ?s 16 = Some (fresh_ts sample_ext)" "weak_bound flaky_ext 2"
    "length [(1 :: uint, 1 :: uptr)] + 2 \<le> 3"
    by (simp_all add: weak_bound_flaky)
  have "length [(1 :: uint, 1 :: uptr)] = 1" by simp
  with set_usage_bit_lock_free [OF pre, of 0 1] show ?thesis by (elim exE conjE) (intro exI conjI, simp_all only:)
qed

end
