(* ===== verification/Aba_World.thy ===== *)
theory Aba_World
  imports Aba_Timestampstorage
begin

text \<open>
  Worlds (\<open>struct _mulle_aba_world\<close>): the window of timestamps for which there are entries. Slot
  \<open>i\<close> of \<open>w_storage\<close> holds the entries of the timestamps from \<open>w_offset + i * n_entries\<close> on. The
  operations of \<open>src/mulle-aba-storage.c\<close> on one world, their results as functions on the world,
  and the window they keep.
\<close>

definition EACCES :: int where "EACCES = 13"
definition EINVAL :: int where "EINVAL = 22"
definition ENOSPC :: int where "ENOSPC = 28"
definition EBUSY :: int where "EBUSY = 16"
definition EAGAIN :: int where "EAGAIN = 11"
definition EWOULDBLOCK :: int where "EWOULDBLOCK = 11"

definition check_bound :: "bool \<Rightarrow> (mem, 'b) prog \<Rightarrow> (mem, 'b) prog" where
  "check_bound b p = (if b then p else Crash Out_of_bounds)"

section \<open>Operations\<close>

definition mulle_aba_world_pop_storage :: "ext \<Rightarrow> uptr \<Rightarrow> (mem, uptr) prog" where
  "mulle_aba_world_pop_storage E world =
     bnd (load_world world) (\<lambda>w.
       if w_n w = 0 then Ret 0
       else let n = w_n w - 1 in
         check_bound (unat (w_n w) \<le> length (w_storage w)) (
         bnd (store_world world (\<lambda>v. v\<lparr>
                w_storage := (take (unat n) (drop 1 (w_storage v)) @ drop (unat n) (w_storage v))[unat n := 0],
                w_n := n,
                w_offset := w_offset v + word_of_nat (n_entries E)\<rparr>)) (\<lambda>_.
         Ret (w_storage w ! 0))))"

definition mulle_aba_world_push_storage :: "ext \<Rightarrow> tid \<Rightarrow> uptr \<Rightarrow> uptr \<Rightarrow> (mem, int) prog" where
  "mulle_aba_world_push_storage E th world ts_storage =
     bnd (c_assert E (ts_storage \<noteq> 0)) (\<lambda>_.
     bnd (load_world world) (\<lambda>w.
       if w_size w = w_n w
       then bnd (set_errno th EACCES) (\<lambda>_. bnd (c_assert E False) (\<lambda>_. Ret (- 1)))
       else check_bound (unat (w_n w) < length (w_storage w)) (
         bnd (store_world world (\<lambda>v. v\<lparr>w_storage := (w_storage v)[unat (w_n v) := ts_storage],
                                      w_n := w_n v + 1\<rparr>)) (\<lambda>_.
         Ret 0))))"

definition mulle_aba_world_rotate_storage :: "ext \<Rightarrow> tid \<Rightarrow> uptr \<Rightarrow> (mem, unit) prog" where
  "mulle_aba_world_rotate_storage E th world =
     bnd (if ndebug E then skip else bnd (load_world world) (\<lambda>w. c_assert E (w_n w \<noteq> 0))) (\<lambda>_.
     bnd (mulle_aba_world_pop_storage E world) (\<lambda>storage.
     bnd (mulle_aba_world_push_storage E th world storage) (\<lambda>_. skip)))"

definition mulle_aba_world_get_timestampstorage_index ::
  "ext \<Rightarrow> tid \<Rightarrow> uptr \<Rightarrow> uptr \<Rightarrow> (mem, uint) prog" where
  "mulle_aba_world_get_timestampstorage_index E th world timestamp =
     bnd (load_world world) (\<lambda>w.
       if timestamp < w_offset w
       then bnd (set_errno th EINVAL) (\<lambda>_. bnd (c_assert E False) (\<lambda>_. Ret (- 1)))
       else let timestamp' = timestamp - w_offset w;
                s_index = ucast (timestamp' div word_of_nat (n_entries E)) in
         if w_n w \<le> s_index
         then bnd (set_errno th (if w_size w = w_n w then ENOSPC else EINVAL)) (\<lambda>_.
              bnd (c_assert E (timestamp' \<le> w_timestamp w + 1)) (\<lambda>_. Ret (- 1)))
         else Ret s_index)"

definition mulle_aba_world_get_timestampstorage_at_index :: "ext \<Rightarrow> uptr \<Rightarrow> uint \<Rightarrow> (mem, uptr) prog" where
  "mulle_aba_world_get_timestampstorage_at_index E world ts_index =
     bnd (load_world world) (\<lambda>w.
     bnd (c_assert E (ts_index \<noteq> - 1 \<and> ts_index < w_n w)) (\<lambda>_.
     check_bound (unat ts_index < length (w_storage w)) (
     bnd (c_assert E (w_storage w ! unat ts_index \<noteq> 0)) (\<lambda>_.
     Ret (w_storage w ! unat ts_index)))))"

definition mulle_aba_world_get_timestampstorage :: "ext \<Rightarrow> tid \<Rightarrow> uptr \<Rightarrow> uptr \<Rightarrow> (mem, uptr) prog" where
  "mulle_aba_world_get_timestampstorage E th world timestamp =
     bnd (mulle_aba_world_get_timestampstorage_index E th world timestamp) (\<lambda>ts_index.
       if ts_index = - 1 then Ret 0
       else mulle_aba_world_get_timestampstorage_at_index E world ts_index)"

definition mulle_aba_world_get_timestampentry ::
  "ext \<Rightarrow> tid \<Rightarrow> uptr \<Rightarrow> uptr \<Rightarrow> (mem, entryptr option) prog" where
  "mulle_aba_world_get_timestampentry E th world timestamp =
     (if timestamp = 0 then bnd (set_errno th EINVAL) (\<lambda>_. Ret None)
      else bnd (mulle_aba_world_get_timestampstorage E th world timestamp) (\<lambda>ts_storage.
        if ts_storage = 0 then bnd (set_errno th EINVAL) (\<lambda>_. Ret None)
        else Ret (Some (mulle_aba_timestampstorage_get_timestampentry E ts_storage timestamp))))"

definition mulle_aba_world_copy :: "uptr \<Rightarrow> uptr \<Rightarrow> (mem, unit) prog" where
  "mulle_aba_world_copy dst src =
     bnd (load_world src) (\<lambda>v.
     bnd (load_world dst) (\<lambda>w.
     check_bound (unat (w_size v) \<le> length (w_storage v) \<and> unat (w_size v) \<le> length (w_storage w)) (
     store_world dst (\<lambda>w. v\<lparr>w_link := 0,
       w_storage := take (unat (w_size v)) (w_storage v) @ drop (unat (w_size v)) (w_storage w)\<rparr>))))"

section \<open>Sanity\<close>

definition mulle_aba_world_get_timestamp_range :: "ext \<Rightarrow> world \<Rightarrow> uptr \<times> uptr" where
  "mulle_aba_world_get_timestamp_range E w =
     (let start = w_offset w; len = ucast (w_n w * word_of_nat (n_entries E))
      in if w_offset w = 0 then (1, len - 1) else (start, len))"

definition timestamp_range_contains_timestamp :: "uptr \<times> uptr \<Rightarrow> uptr \<Rightarrow> bool" where
  "timestamp_range_contains_timestamp r timestamp \<longleftrightarrow>
     timestamp < fst r + snd r \<and> fst r \<le> timestamp"

definition mulle_aba_world_assert_sanity :: "ext \<Rightarrow> tid \<Rightarrow> uptr \<Rightarrow> (mem, unit) prog" where
  "mulle_aba_world_assert_sanity E th world =
     (if ndebug E then skip
      else bnd (load_world world) (\<lambda>w.
           bnd (c_assert E (w_n_threads w \<noteq> 0 \<or> w_timestamp w = 0)) (\<lambda>_.
           bnd (c_assert E (w_timestamp w \<noteq> 0 \<or> w_offset w = 0)) (\<lambda>_.
           bnd (c_assert E (w_size w \<noteq> 0)) (\<lambda>_.
           bnd (c_assert E (w_n w \<le> w_size w)) (\<lambda>_.
           bnd (c_assert E (w_timestamp w = 0 \<or>
             timestamp_range_contains_timestamp (mulle_aba_world_get_timestamp_range E w) (w_timestamp w))) (\<lambda>_.
           if w_timestamp w = 0 then skip
           else bnd (mulle_aba_world_get_timestampentry E th world (w_timestamp w)) (\<lambda>e.
                c_assert E (e \<noteq> None)))))))))"

section \<open>Reuse of storages\<close>

fun reuse_loop :: "ext \<Rightarrow> tid \<Rightarrow> uptr \<Rightarrow> bool \<Rightarrow> uptr \<Rightarrow> nat \<Rightarrow> uint \<Rightarrow> uint \<Rightarrow> (mem, uint) prog" where
  "reuse_loop E th world counting ts_index 0 i reused = Ret reused"
| "reuse_loop E th world counting ts_index (Suc k) i reused =
     (if ucast i = ts_index then Ret reused
      else bnd (mulle_aba_world_get_timestampstorage_at_index E world i) (\<lambda>ts_storage.
        if ts_storage = 0 then Ret reused
        else bnd (load_ts ts_storage) (\<lambda>ts.
          if usage_bits ts \<noteq> 0 then reuse_loop E th world counting ts_index k (i + 1) reused
          else bnd (if counting then skip else mulle_aba_world_rotate_storage E th world) (\<lambda>_.
               reuse_loop E th world counting ts_index k (i + 1) (reused + 1)))))"

definition mulle_aba_world_reuse_or_count_storages :: "ext \<Rightarrow> tid \<Rightarrow> uptr \<Rightarrow> bool \<Rightarrow> (mem, uint) prog" where
  "mulle_aba_world_reuse_or_count_storages E th world counting =
     bnd (load_world world) (\<lambda>w.
       if w_timestamp w = 0 then Ret 0
       else bnd (mulle_aba_world_get_timestampstorage_index E th world (w_timestamp w)) (\<lambda>ts_index.
            reuse_loop E th world counting (ucast ts_index) (unat (w_n w)) 0 0))"

definition mulle_aba_world_reuse_storages :: "ext \<Rightarrow> tid \<Rightarrow> uptr \<Rightarrow> (mem, uint) prog" where
  "mulle_aba_world_reuse_storages E th world =
     mulle_aba_world_reuse_or_count_storages E th world False"

definition mulle_aba_world_count_available_reusable_storages :: "ext \<Rightarrow> tid \<Rightarrow> uptr \<Rightarrow> (mem, uint) prog" where
  "mulle_aba_world_count_available_reusable_storages E th world =
     mulle_aba_world_reuse_or_count_storages E th world True"

section \<open>Well-formed worlds\<close>

text \<open>
  The invariant of a world: the slots below \<open>_n\<close> hold storages and the others up to \<open>_size\<close> are
  NULL, the offset is a multiple of the width of a storage, the current timestamp lies in the window
  (or is 0 with offset 0), and the window is so small that no computation on it wraps around.
\<close>

definition wf_shape :: "ext \<Rightarrow> world \<Rightarrow> bool" where
  "wf_shape E w \<longleftrightarrow>
     0 < unat (w_size w) \<and> unat (w_n w) \<le> unat (w_size w)
     \<and> unat (w_size w) \<le> length (w_storage w)
     \<and> (\<forall>i < unat (w_size w). w_storage w ! i = 0 \<longleftrightarrow> unat (w_n w) \<le> i)
     \<and> unat (w_offset w) mod n_entries E = 0
     \<and> unat (w_size w) * n_entries E < 2 ^ 32
     \<and> unat (w_offset w) + unat (w_size w) * n_entries E < 2 ^ 63"

definition wf_world :: "ext \<Rightarrow> world \<Rightarrow> bool" where
  "wf_world E w \<longleftrightarrow> wf_shape E w
     \<and> (w_timestamp w = 0 \<longrightarrow> w_offset w = 0)
     \<and> (w_timestamp w \<noteq> 0 \<longrightarrow> w_n_threads w \<noteq> 0 \<and> w_offset w \<le> w_timestamp w
          \<and> unat (w_timestamp w) < unat (w_offset w) + unat (w_n w) * n_entries E)"

lemma wf_world_shape: "wf_world E w \<Longrightarrow> wf_shape E w"
  by (simp add: wf_world_def)

definition slot_index :: "ext \<Rightarrow> world \<Rightarrow> uptr \<Rightarrow> nat" where
  "slot_index E w ts = (unat ts - unat (w_offset w)) div n_entries E"

definition covers :: "ext \<Rightarrow> world \<Rightarrow> uptr \<Rightarrow> bool" where
  "covers E w ts \<longleftrightarrow> ts \<noteq> 0 \<and> w_offset w \<le> ts \<and> slot_index E w ts < unat (w_n w)"

text \<open>The entry of a timestamp: storage and index in it.\<close>

definition slot :: "ext \<Rightarrow> world \<Rightarrow> uptr \<Rightarrow> entryptr option" where
  "slot E w ts = (if covers E w ts
     then Some (w_storage w ! slot_index E w ts, unat ts mod n_entries E) else None)"

lemma unat_n_entries [simp]:
  "unat (word_of_nat (n_entries E) :: uptr) = n_entries E"
  "unat (word_of_nat (n_entries E) :: uint) = n_entries E"
  by (auto simp: n_entries_def)

lemma slot_index_less_iff:
  "w_offset w \<le> ts \<Longrightarrow>
   slot_index E w ts < k \<longleftrightarrow> unat ts < unat (w_offset w) + k * n_entries E"
  unfolding slot_index_def word_le_nat_alt
  by (subst div_less_iff_less_mult) (auto simp: less_diff_conv2 add.commute)

lemma covers_iff:
  "covers E w ts \<longleftrightarrow> ts \<noteq> 0 \<and> w_offset w \<le> ts
     \<and> unat ts < unat (w_offset w) + unat (w_n w) * n_entries E"
  by (auto simp: covers_def slot_index_less_iff)

lemma wf_world_covers: "wf_world E w \<Longrightarrow> w_timestamp w \<noteq> 0 \<Longrightarrow> covers E w (w_timestamp w)"
  by (simp add: wf_world_def covers_iff)

lemma wf_world_ts_bound: "wf_world E w \<Longrightarrow> unat (w_timestamp w) < 2 ^ 63"
proof (cases "w_timestamp w = 0")
  case False
  assume wf: "wf_world E w"
  then have "unat (w_n w) * n_entries E \<le> unat (w_size w) * n_entries E" by (simp add: wf_world_def wf_shape_def)
  with wf False show ?thesis unfolding wf_world_def wf_shape_def by linarith
qed simp

lemma wf_shape_storage_nonzero:
  "wf_shape E w \<Longrightarrow> i < unat (w_n w) \<Longrightarrow> w_storage w ! i \<noteq> 0 \<and> i < length (w_storage w)"
  unfolding wf_shape_def by force

lemma get_timestamp_index_unat [simp]:
  "unat (mulle_aba_timestampstorage_get_timestamp_index E ts) = unat ts mod n_entries E"
proof -
  have "unat ts mod n_entries E < 64"
    using mod_less_divisor [OF n_entries_pos(1)] n_entries_le by (rule less_le_trans)
  then have "unat ts mod n_entries E < 2 ^ 32" by simp
  then show ?thesis
    unfolding mulle_aba_timestampstorage_get_timestamp_index_def
    by (simp add: unat_ucast_32 unat_mod_distrib)
qed

section \<open>Finding storage and entry of a timestamp\<close>

lemma s_index_unat:
  assumes "w_offset w \<le> ts" "slot_index E w ts < 2 ^ 32"
  shows "unat (ucast ((ts - w_offset w) div word_of_nat (n_entries E)) :: uint) = slot_index E w ts"
  using assms by (simp add: slot_index_def unat_ucast_32 unat_div_distrib unat_sub)

lemma run_get_timestampstorage_index [exec]:
  assumes "world \<noteq> 0" "worlds s world = Some w" "w_offset w \<le> ts" "slot_index E w ts < unat (w_n w)"
  shows "run (mulle_aba_world_get_timestampstorage_index E th world ts) s = Ok (word_of_nat (slot_index E w ts)) s"
proof -
  have lt: "slot_index E w ts < 2 ^ 32" using assms(4) unat_lt_32 [of "w_n w"] by linarith
  note u = s_index_unat [OF assms(3) lt]
  have "(ucast ((ts - w_offset w) div word_of_nat (n_entries E)) :: uint) = word_of_nat (slot_index E w ts)"
    by (simp only: word_unat_eq_iff u unat_of_nat_32 [OF lt])
  moreover have "\<not> w_n w \<le> ucast ((ts - w_offset w) div word_of_nat (n_entries E))"
    using assms(4) u by (simp add: word_le_nat_alt)
  moreover have "\<not> ts < w_offset w" using assms(3) by simp
  ultimately show ?thesis
    using assms by (simp add: mulle_aba_world_get_timestampstorage_index_def exec Let_def)
qed

text \<open>Past the window: no storage, and the error says whether a slot is left.\<close>

lemma run_get_timestampstorage_index_past [exec]:
  assumes "world \<noteq> 0" "worlds s world = Some w" "w_offset w \<le> ts"
    and "unat (w_n w) \<le> slot_index E w ts" "slot_index E w ts < 2 ^ 32"
    and "ts - w_offset w \<le> w_timestamp w + 1"
  shows "run (mulle_aba_world_get_timestampstorage_index E th world ts) s
    = Ok (- 1) (s\<lparr>errno := (errno s)(th := if w_size w = w_n w then ENOSPC else EINVAL)\<rparr>)"
proof -
  have "w_n w \<le> ucast ((ts - w_offset w) div word_of_nat (n_entries E))"
    using assms(4) s_index_unat [OF assms(3,5)] by (simp add: word_le_nat_alt)
  moreover have "\<not> ts < w_offset w" using assms(3) by simp
  ultimately show ?thesis
    using assms by (simp add: mulle_aba_world_get_timestampstorage_index_def exec Let_def)
qed

text \<open>Before the window: an assert in debug builds, \<open>EINVAL\<close> otherwise.\<close>

lemma run_get_timestampstorage_index_before:
  assumes "world \<noteq> 0" "worlds s world = Some w" "ts < w_offset w"
  shows "run (mulle_aba_world_get_timestampstorage_index E th world ts) s
    = (if ndebug E then Ok (- 1) (s\<lparr>errno := (errno s)(th := EINVAL)\<rparr>) else Fault Assert_failed)"
  using assms by (simp add: mulle_aba_world_get_timestampstorage_index_def exec run_c_assert)

lemma run_get_timestampstorage_at_index [exec]:
  assumes "world \<noteq> 0" "worlds s world = Some w" "unat i < unat (w_n w)"
    "unat i < length (w_storage w)" "w_storage w ! unat i \<noteq> 0"
  shows "run (mulle_aba_world_get_timestampstorage_at_index E world i) s = Ok (w_storage w ! unat i) s"
proof -
  have "i \<noteq> - 1"
  proof
    assume "i = - 1"
    then have "unat i = 2 ^ 32 - 1" by (simp only: unat_minus_one_32)
    then show False using assms(3) unat_lt_32 [of "w_n w"] by linarith
  qed
  with assms show ?thesis
    by (simp add: mulle_aba_world_get_timestampstorage_at_index_def exec check_bound_def word_less_nat_alt)
qed

lemma slot_index_unat:
  "slot_index E w ts < unat (w_n w) \<Longrightarrow> unat (word_of_nat (slot_index E w ts) :: uint) = slot_index E w ts"
  using unat_lt_32 [of "w_n w"] by (intro unat_of_nat_32) linarith

lemma run_get_timestampstorage [exec]:
  assumes "world \<noteq> 0" "worlds s world = Some w" "wf_shape E w" "w_offset w \<le> ts"
    "slot_index E w ts < unat (w_n w)"
  shows "run (mulle_aba_world_get_timestampstorage E th world ts) s = Ok (w_storage w ! slot_index E w ts) s"
proof -
  note u = slot_index_unat [OF assms(5)]
  have "(word_of_nat (slot_index E w ts) :: uint) \<noteq> - 1"
  proof
    assume "(word_of_nat (slot_index E w ts) :: uint) = - 1"
    then have "unat (word_of_nat (slot_index E w ts) :: uint) = 2 ^ 32 - 1" by (simp only: unat_minus_one_32)
    with u show False using assms(5) unat_lt_32 [of "w_n w"] by linarith
  qed
  with assms u wf_shape_storage_nonzero [OF assms(3,5)] show ?thesis
    by (simp add: mulle_aba_world_get_timestampstorage_def exec)
qed

lemma run_get_timestampentry_covered [exec]:
  assumes "world \<noteq> 0" "worlds s world = Some w" "wf_shape E w" "covers E w ts"
  shows "run (mulle_aba_world_get_timestampentry E th world ts) s = Ok (slot E w ts) s"
  using assms wf_shape_storage_nonzero [OF assms(3), of "slot_index E w ts"]
  by (simp add: mulle_aba_world_get_timestampentry_def exec covers_def slot_def
      mulle_aba_timestampstorage_get_timestampentry_def)

text \<open>The one timestamp past the window, for which a storage has to be found.\<close>

lemma run_get_timestampentry_past [exec]:
  assumes "world \<noteq> 0" "worlds s world = Some w"
    and "ts \<noteq> 0" "w_offset w \<le> ts" "slot_index E w ts = unat (w_n w)" "ts - w_offset w \<le> w_timestamp w + 1"
  shows "run (mulle_aba_world_get_timestampentry E th world ts) s
    = Ok None (s\<lparr>errno := (errno s)(th := EINVAL)\<rparr>)"
proof -
  have "slot_index E w ts < 2 ^ 32" using assms(5) unat_lt_32 [of "w_n w"] by simp
  with assms show ?thesis
    by (simp add: mulle_aba_world_get_timestampentry_def mulle_aba_world_get_timestampstorage_def exec)
qed

lemma run_get_timestampentry_zero [exec]:
  "run (mulle_aba_world_get_timestampentry E th world 0) s = Ok None (s\<lparr>errno := (errno s)(th := EINVAL)\<rparr>)"
  by (simp add: mulle_aba_world_get_timestampentry_def exec)

section \<open>Sanity\<close>

lemma window_width:
  assumes "wf_shape E w"
  shows "unat (ucast (w_n w * word_of_nat (n_entries E)) :: uptr) = unat (w_n w) * n_entries E"
    and "unat (w_offset w + ucast (w_n w * word_of_nat (n_entries E))) = unat (w_offset w) + unat (w_n w) * n_entries E"
proof -
  have b: "unat (w_n w) * n_entries E \<le> unat (w_size w) * n_entries E"
    using assms by (simp add: wf_shape_def)
  moreover have c: "unat (w_size w) * n_entries E < 2 ^ 32"
    "unat (w_offset w) + unat (w_size w) * n_entries E < 2 ^ 63"
    using assms by (simp_all add: wf_shape_def)
  ultimately have "unat (w_n w) * n_entries E < 2 ^ 32" by linarith
  then show u: "unat (ucast (w_n w * word_of_nat (n_entries E)) :: uptr) = unat (w_n w) * n_entries E"
    by (simp add: unat_ucast_64 unat_word_ariths)
  have "unat (w_offset w) + unat (w_n w) * n_entries E < 2 ^ 63" using b c by linarith
  then have "unat (w_offset w) + unat (w_n w) * n_entries E < 2 ^ 64" by (rule less_trans) simp
  then show "unat (w_offset w + ucast (w_n w * word_of_nat (n_entries E))) = unat (w_offset w) + unat (w_n w) * n_entries E"
    by (simp add: unat_word_ariths u)
qed

lemma wf_world_in_range:
  assumes "wf_world E w" "w_timestamp w \<noteq> 0"
  shows "timestamp_range_contains_timestamp (mulle_aba_world_get_timestamp_range E w) (w_timestamp w)"
proof (cases "w_offset w = 0")
  case True
  have "unat ((1 :: uptr) + (ucast (w_n w * word_of_nat (n_entries E)) - 1)) = unat (w_n w) * n_entries E"
    using window_width(1) [OF wf_world_shape [OF assms(1)]] by simp
  moreover have "1 \<le> unat (w_timestamp w)" using assms(2) by (simp add: Suc_le_eq unat_gt_0)
  moreover have "unat (w_timestamp w) < unat (w_n w) * n_entries E"
    using assms True by (simp add: wf_world_def)
  ultimately show ?thesis
    using True by (simp add: timestamp_range_contains_timestamp_def
      mulle_aba_world_get_timestamp_range_def word_less_nat_alt word_le_nat_alt)
next
  case False
  with assms window_width(2) [OF wf_world_shape [OF assms(1)]] show ?thesis
    by (simp add: timestamp_range_contains_timestamp_def
      mulle_aba_world_get_timestamp_range_def word_less_nat_alt wf_world_def)
qed

lemma wf_world_sane:
  assumes "wf_world E w"
  shows "w_n_threads w \<noteq> 0 \<or> w_timestamp w = 0" "w_timestamp w \<noteq> 0 \<or> w_offset w = 0"
    "w_size w \<noteq> 0" "w_n w \<le> w_size w"
  using assms by (auto simp: wf_world_def wf_shape_def word_le_nat_alt)

lemma run_assert_sanity [exec]:
  assumes "world \<noteq> 0" "worlds s world = Some w" "wf_world E w"
  shows "run (mulle_aba_world_assert_sanity E th world) s = Ok () s"
proof (cases "w_timestamp w = 0")
  case True
  with assms wf_world_sane [OF assms(3)] show ?thesis
    by (simp add: mulle_aba_world_assert_sanity_def exec)
next
  case False
  note cov = wf_world_covers [OF assms(3) False]
  from cov have "slot E w (w_timestamp w) \<noteq> None" by (simp add: slot_def)
  with assms False cov wf_world_shape [OF assms(3)] wf_world_in_range [OF assms(3) False] wf_world_sane [OF assms(3)] show ?thesis
    by (simp add: mulle_aba_world_assert_sanity_def exec)
qed

section \<open>Copies\<close>

lemma run_world_copy [exec]:
  assumes "dst \<noteq> 0" "src \<noteq> 0" "worlds s src = Some v" "worlds s dst = Some w"
    and "unat (w_size v) \<le> length (w_storage v)" "unat (w_size v) \<le> length (w_storage w)"
  shows "run (mulle_aba_world_copy dst src) s = Ok () (s\<lparr>worlds := (worlds s)(dst \<mapsto> v\<lparr>w_link := 0,
    w_storage := take (unat (w_size v)) (w_storage v) @ drop (unat (w_size v)) (w_storage w)\<rparr>)\<rparr>)"
  using assms by (simp add: mulle_aba_world_copy_def exec check_bound_def)

section \<open>Properties\<close>

text \<open>A world of the examples: two storages of two entries, offset 2, current timestamp 5, window 2 to 5.\<close>

definition sample_world :: world where
  "sample_world = \<lparr>w_link = 0, w_timestamp = 5, w_n_threads = 2, w_offset = 2, w_size = 2, w_n = 2,
     w_storage = [16, 32]\<rparr>"

lemma sample_world_wf: "wf_world sample_ext sample_world" "wf_shape sample_ext sample_world"
  by (simp_all add: wf_world_def wf_shape_def sample_world_def sample_ext_def n_entries_def
      less_2_cases_iff word_le_nat_alt)

text \<open>
  The index is computed at the width of \<open>uintptr_t\<close> and cut off to \<open>unsigned int\<close>, 32 bits.
\<close>

lemma s_index_cut:
  assumes "w_offset w \<le> ts"
  shows "unat (ucast ((ts - w_offset w) div word_of_nat (n_entries E)) :: uint) = slot_index E w ts mod 2 ^ 32"
proof -
  have "unat ((ts - w_offset w) div word_of_nat (n_entries E)) = slot_index E w ts"
    using assms by (simp add: slot_index_def unat_div_distrib unat_sub)
  then show ?thesis by (simp add: unsigned_ucast_eq take_bit_eq_mod)
qed

lemma run_get_timestampstorage_index_from:
  assumes "world \<noteq> 0" "worlds s world = Some w" "w_offset w \<le> ts"
  shows "run (mulle_aba_world_get_timestampstorage_index E th world ts) s =
    (let i = slot_index E w ts mod 2 ^ 32 in
     if i < unat (w_n w) then Ok (word_of_nat i) s
     else if ndebug E \<or> ts - w_offset w \<le> w_timestamp w + 1
     then Ok (- 1) (s\<lparr>errno := (errno s)(th := if w_size w = w_n w then ENOSPC else EINVAL)\<rparr>)
     else Fault Assert_failed)"
proof -
  let ?i = "ucast ((ts - w_offset w) div word_of_nat (n_entries E)) :: uint"
  have lt: "slot_index E w ts mod 2 ^ 32 < 2 ^ 32" by simp
  have "?i = word_of_nat (slot_index E w ts mod 2 ^ 32)"
    by (simp only: word_unat_eq_iff s_index_cut [OF assms(3)] unat_of_nat_32 [OF lt])
  moreover have "w_n w \<le> ?i \<longleftrightarrow> \<not> slot_index E w ts mod 2 ^ 32 < unat (w_n w)"
    by (simp only: word_le_nat_alt s_index_cut [OF assms(3)] not_less)
  moreover have "\<not> ts < w_offset w" using assms(3) by simp
  ultimately show ?thesis
    using assms(1,2) by (simp add: mulle_aba_world_get_timestampstorage_index_def exec run_c_assert Let_def)
qed

text \<open>C25: Lookup of a timestamp's entry in a well-formed world, for any timestamp. For 0 there is none and
  \<open>errno\<close> is \<open>EINVAL\<close>. Below the window a build with asserts stops and one without gives \<open>EINVAL\<close>.
  Otherwise let \<open>i\<close> be \<open>(timestamp - offset) div n\<close> as an \<open>unsigned int\<close>: when slot \<open>i\<close> is in use, the
  result is the entry \<open>timestamp mod n\<close> of the storage in it, which is not NULL; when it is not, which
  includes every timestamp in the empty initial world, \<open>errno\<close> is \<open>EINVAL\<close>, but a build with asserts
  stops if \<open>timestamp - offset\<close> exceeds the current timestamp by more than one. A covered timestamp always
  has its entry.\<close>

theorem get_timestampentry_spec:
  assumes "a \<noteq> 0" "worlds s a = Some w" "wf_world E w"
  shows "run (mulle_aba_world_get_timestampentry E th a ts) s =
    (let i = (unat ts - unat (w_offset w)) div n_entries E mod 2 ^ 32;
         none = Ok None (s\<lparr>errno := (errno s)(th := EINVAL)\<rparr>) in
     if ts = 0 then none
     else if ts < w_offset w then (if ndebug E then none else Fault Assert_failed)
     else if i < unat (w_n w) then Ok (Some (w_storage w ! i, unat ts mod n_entries E)) s
     else if ndebug E \<or> unat ts - unat (w_offset w) \<le> unat (w_timestamp w) + 1 then none
     else Fault Assert_failed)
   \<and> (\<forall>i < unat (w_n w). w_storage w ! i \<noteq> 0)
   \<and> (covers E w ts \<longrightarrow> (unat ts - unat (w_offset w)) div n_entries E mod 2 ^ 32 < unat (w_n w))"
proof -
  have sh: "wf_shape E w" using assms(3) by (rule wf_world_shape)
  have nz: "\<forall>i < unat (w_n w). w_storage w ! i \<noteq> 0" using wf_shape_storage_nonzero [OF sh] by blast
  have i: "(unat ts - unat (w_offset w)) div n_entries E = slot_index E w ts" by (simp add: slot_index_def)
  let ?i = "slot_index E w ts mod 2 ^ 32"
  have cov: "covers E w ts \<longrightarrow> ?i < unat (w_n w)"
    unfolding covers_def by (metis le_less_trans mod_less_eq_dividend)
  consider "ts = 0" | "ts \<noteq> 0" "ts < w_offset w" | "ts \<noteq> 0" "w_offset w \<le> ts" using not_less by blast
  then show ?thesis
  proof cases
    case 1
    with nz show ?thesis by (simp add: exec covers_def)
  next
    case 2
    then show ?thesis
      using assms(1,2) nz cov
      by (simp add: i mulle_aba_world_get_timestampentry_def mulle_aba_world_get_timestampstorage_def
          run_bnd run_get_timestampstorage_index_before exec Let_def)
  next
    case 3
    note idx = run_get_timestampstorage_index_from [OF assms(1,2) 3(2), of E th]
    have diff: "ts - w_offset w \<le> w_timestamp w + 1 \<longleftrightarrow> unat ts - unat (w_offset w) \<le> unat (w_timestamp w) + 1"
    proof -
      have "unat (w_timestamp w) + 1 < 2 ^ 64" using wf_world_ts_bound [OF assms(3)] by simp
      then have "unat (w_timestamp w + 1) = unat (w_timestamp w) + 1" by (simp add: unat_word_ariths)
      with 3(2) show ?thesis by (simp only: word_le_nat_alt unat_sub)
    qed
    show ?thesis
    proof (cases "?i < unat (w_n w)")
      case True
      then have u: "unat (word_of_nat ?i :: uint) = ?i" by (intro unat_of_nat_32) simp
      have "(word_of_nat ?i :: uint) \<noteq> - 1"
      proof
        assume "(word_of_nat ?i :: uint) = - 1"
        then have "?i = 2 ^ 32 - 1" by (metis u unat_minus_one_32)
        with True unat_lt_32 [of "w_n w"] show False by linarith
      qed
      with True 3 idx u nz cov wf_shape_storage_nonzero [OF sh True] run_get_timestampstorage_at_index [OF assms(1,2), of "word_of_nat ?i" E] show ?thesis
        by (simp add: i mulle_aba_world_get_timestampentry_def mulle_aba_world_get_timestampstorage_def run_bnd
            mulle_aba_timestampstorage_get_timestampentry_def Let_def)
    next
      case False
      with 3 idx diff nz cov show ?thesis
        by (simp add: i mulle_aba_world_get_timestampentry_def mulle_aba_world_get_timestampstorage_def run_bnd exec Let_def
            not_less)
    qed
  qed
qed

theorem get_timestampentry_spec_witness:
  "run (mulle_aba_world_get_timestampentry sample_ext 0 64 5) (sample_mem\<lparr>worlds := [64 \<mapsto> sample_world]\<rparr>)
      = Ok (Some (32, 1)) (sample_mem\<lparr>worlds := [64 \<mapsto> sample_world]\<rparr>)
    \<and> run (mulle_aba_world_get_timestampentry sample_ext 0 64 9) (sample_mem\<lparr>worlds := [64 \<mapsto> sample_world]\<rparr>)
      = Fault Assert_failed"
proof -
  let ?s = "sample_mem\<lparr>worlds := [64 \<mapsto> sample_world]\<rparr>"
  have pre: "(64 :: uptr) \<noteq> 0" "worlds ?s 64 = Some sample_world" by simp_all
  note spec = conjunct1 [OF get_timestampentry_spec [OF pre sample_world_wf(1)], of 0]
  from spec [of 5] spec [of 9] show ?thesis
    by (simp add: sample_world_def sample_ext_def n_entries_def)
qed

text \<open>What the sanity asserts require, in natural numbers.\<close>

definition sane :: "ext \<Rightarrow> world \<Rightarrow> bool" where
  "sane E w \<longleftrightarrow> 0 < unat (w_size w) \<and> unat (w_n w) \<le> unat (w_size w) \<and>
     (if w_timestamp w = 0 then w_offset w = 0
      else w_n_threads w \<noteq> 0 \<and> unat (w_offset w) \<le> unat (w_timestamp w)
        \<and> unat (w_timestamp w) < unat (w_offset w) + unat (w_n w) * n_entries E
        \<and> w_storage w ! ((unat (w_timestamp w) - unat (w_offset w)) div n_entries E) \<noteq> 0)"

lemma timestamp_range_iff:
  assumes "unat (w_n w) * n_entries E < 2 ^ 32" "unat (w_offset w) + unat (w_n w) * n_entries E < 2 ^ 64"
  shows "timestamp_range_contains_timestamp (mulle_aba_world_get_timestamp_range E w) t \<longleftrightarrow>
    t \<noteq> 0 \<and> unat (w_offset w) \<le> unat t \<and> unat t < unat (w_offset w) + unat (w_n w) * n_entries E"
proof -
  have len: "unat (ucast (w_n w * word_of_nat (n_entries E)) :: uptr) = unat (w_n w) * n_entries E"
    using assms(1) by (simp add: unat_ucast_64 unat_word_ariths)
  then have up: "unat (w_offset w + ucast (w_n w * word_of_nat (n_entries E))) = unat (w_offset w) + unat (w_n w) * n_entries E"
    using assms(2) by (simp add: unat_word_ariths)
  show ?thesis
  proof (cases "w_offset w = 0")
    case True
    have "1 \<le> unat t \<longleftrightarrow> t \<noteq> 0" by (simp add: Suc_le_eq unat_gt_0)
    with True len show ?thesis
      by (auto simp: timestamp_range_contains_timestamp_def mulle_aba_world_get_timestamp_range_def
          Let_def word_less_nat_alt word_le_nat_alt)
  next
    case False
    then have "0 < unat (w_offset w)" by (simp add: unat_gt_0)
    with False up show ?thesis
      by (auto simp: timestamp_range_contains_timestamp_def mulle_aba_world_get_timestamp_range_def
          Let_def word_less_nat_alt word_le_nat_alt)
  qed
qed

lemma run_get_timestampentry_in_window:
  assumes "a \<noteq> 0" "worlds s a = Some w" "unat (w_n w) \<le> length (w_storage w)" "covers E w ts" "\<not> ndebug E"
  shows "run (mulle_aba_world_get_timestampentry E th a ts) s =
    (if w_storage w ! slot_index E w ts \<noteq> 0 then Ok (slot E w ts) s else Fault Assert_failed)"
proof -
  have c: "ts \<noteq> 0" "w_offset w \<le> ts" "slot_index E w ts < unat (w_n w)" using assms(4) by (simp_all add: covers_def)
  then have u: "unat (word_of_nat (slot_index E w ts) :: uint) = slot_index E w ts" by (simp add: slot_index_unat)
  have "(word_of_nat (slot_index E w ts) :: uint) \<noteq> - 1"
  proof
    assume "(word_of_nat (slot_index E w ts) :: uint) = - 1"
    with u have "slot_index E w ts = 2 ^ 32 - 1" by (metis unat_minus_one_32)
    with c(3) unat_lt_32 [of "w_n w"] show False by linarith
  qed
  with c u assms run_get_timestampstorage_index [OF assms(1,2) c(2,3)] show ?thesis
    by (simp add: mulle_aba_world_get_timestampentry_def mulle_aba_world_get_timestampstorage_def
        mulle_aba_world_get_timestampstorage_at_index_def run_bnd run_load_world run_c_assert check_bound_def
        word_less_nat_alt slot_def mulle_aba_timestampstorage_get_timestampentry_def)
qed

text \<open>C30: What the library's sanity assertion checks, for any world whose window does not wrap around and
  whose slots are allocated. A build with asserts goes on with unchanged memory exactly if the size is not 0
  and not below \<open>_n\<close>, and either timestamp and offset are 0, or there are threads and the timestamp
  lies in the window and its slot holds a storage (\<open>sane\<close>); otherwise it stops. The timestamp
  range the assertion uses holds exactly the timestamps of the window, without 0. Without asserts
  nothing happens.\<close>

theorem assert_sanity_exact:
  assumes "a \<noteq> 0" "worlds s a = Some w" "unat (w_size w) \<le> length (w_storage w)"
    and "unat (w_n w) * n_entries E < 2 ^ 32" "unat (w_offset w) + unat (w_n w) * n_entries E < 2 ^ 64"
  shows "run (mulle_aba_world_assert_sanity E th a) s =
      (if ndebug E \<or> sane E w then Ok () s else Fault Assert_failed)
    \<and> (\<forall>t. timestamp_range_contains_timestamp (mulle_aba_world_get_timestamp_range E w) t \<longleftrightarrow>
        t \<noteq> 0 \<and> unat (w_offset w) \<le> unat t \<and> unat t < unat (w_offset w) + unat (w_n w) * n_entries E)"
proof -
  note rng = timestamp_range_iff [OF assms(4,5)]
  have "run (mulle_aba_world_assert_sanity E th a) s = (if sane E w then Ok () s else Fault Assert_failed)"
    if nd: "\<not> ndebug E"
  proof (cases "w_timestamp w \<noteq> 0 \<and> w_n w \<le> w_size w \<and>
      timestamp_range_contains_timestamp (mulle_aba_world_get_timestamp_range E w) (w_timestamp w)")
    case True
    then have cov: "covers E w (w_timestamp w)" by (simp add: rng covers_iff word_le_nat_alt)
    have "unat (w_n w) \<le> length (w_storage w)" using True assms(3) by (simp add: word_le_nat_alt)
    note run_get_timestampentry_in_window [OF assms(1,2) this cov nd, of th]
    with True rng [of "w_timestamp w"] cov nd assms(1,2) show ?thesis
      by (auto simp: mulle_aba_world_assert_sanity_def run_bnd run_load_world run_c_assert sane_def slot_index_def
          slot_def unat_gt_0 word_le_nat_alt)
  next
    case False
    with rng [of "w_timestamp w"] nd assms(1,2) show ?thesis
      by (auto simp: mulle_aba_world_assert_sanity_def run_bnd run_load_world run_c_assert sane_def
          unat_gt_0 word_le_nat_alt)
  qed
  with rng show ?thesis by (auto simp: mulle_aba_world_assert_sanity_def)
qed

theorem assert_sanity_exact_witness:
  "run (mulle_aba_world_assert_sanity sample_ext 0 64) (sample_mem\<lparr>worlds := [64 \<mapsto> sample_world]\<rparr>)
      = Ok () (sample_mem\<lparr>worlds := [64 \<mapsto> sample_world]\<rparr>)
    \<and> run (mulle_aba_world_assert_sanity sample_ext 0 64) (sample_mem\<lparr>worlds := [64 \<mapsto> sample_world\<lparr>w_n := 1\<rparr>]\<rparr>)
      = Fault Assert_failed"
proof -
  have "sane sample_ext sample_world" "\<not> sane sample_ext (sample_world\<lparr>w_n := 1\<rparr>)" "\<not> ndebug sample_ext"
    by (simp_all add: sane_def sample_world_def sample_ext_def n_entries_def)
  then show ?thesis
    using assert_sanity_exact [of 64 "sample_mem\<lparr>worlds := [64 \<mapsto> sample_world]\<rparr>" sample_world sample_ext 0]
      assert_sanity_exact [of 64 "sample_mem\<lparr>worlds := [64 \<mapsto> sample_world\<lparr>w_n := 1\<rparr>]\<rparr>" "sample_world\<lparr>w_n := 1\<rparr>" sample_ext 0]
    by (simp add: sample_world_def n_entries_def sample_ext_def)
qed

text \<open>C29: A copy of a world agrees with the original in everything but the link, which is cleared, and so it covers
  the same timestamps with the same entries; the rest of memory is untouched.\<close>

theorem world_copy_spec:
  assumes "dst \<noteq> 0" "src \<noteq> 0" "worlds s src = Some v" "worlds s dst = Some w" "wf_world E v"
    and "unat (w_size v) \<le> length (w_storage w)"
  shows "\<exists>c. run (mulle_aba_world_copy dst src) s = Ok () (s\<lparr>worlds := (worlds s)(dst \<mapsto> c)\<rparr>)
    \<and> wf_world E c \<and> w_link c = 0 \<and> w_timestamp c = w_timestamp v \<and> w_n_threads c = w_n_threads v
    \<and> w_size c = w_size v \<and> w_n c = w_n v \<and> (\<forall>t. slot E c t = slot E v t)"
proof -
  let ?c = "v\<lparr>w_link := 0,
    w_storage := take (unat (w_size v)) (w_storage v) @ drop (unat (w_size v)) (w_storage w)\<rparr>"
  have len: "unat (w_size v) \<le> length (w_storage v)" using assms(5) by (simp add: wf_world_def wf_shape_def)
  then have "wf_world E ?c" using assms(5,6) by (simp add: wf_world_def wf_shape_def nth_append)
  moreover have "slot E ?c t = slot E v t" for t
    using len assms(5) by (auto simp: slot_def covers_def slot_index_def nth_append wf_world_def wf_shape_def)
  ultimately show ?thesis
    using run_world_copy [OF assms(1-4) len assms(6)] by (intro exI [of _ ?c]) (simp add: fun_upd_def)
qed

theorem world_copy_spec_witness:
  "\<exists>c. run (mulle_aba_world_copy 96 64) (sample_mem\<lparr>worlds := [64 \<mapsto> sample_world, 96 \<mapsto> zero_world 2]\<rparr>)
      = Ok () (sample_mem\<lparr>worlds := [64 \<mapsto> sample_world, 96 \<mapsto> c]\<rparr>)
    \<and> wf_world sample_ext c \<and> (\<forall>t. slot sample_ext c t = slot sample_ext sample_world t)"
proof -
  let ?s = "sample_mem\<lparr>worlds := [64 \<mapsto> sample_world, 96 \<mapsto> zero_world 2]\<rparr>"
  have pre: "worlds ?s 64 = Some sample_world" "worlds ?s 96 = Some (zero_world 2)"
    "unat (w_size sample_world) \<le> length (w_storage (zero_world 2))"
    by (simp_all add: zero_world_def sample_world_def)
  obtain c where "run (mulle_aba_world_copy 96 64) ?s = Ok () (?s\<lparr>worlds := (worlds ?s)(96 \<mapsto> c)\<rparr>)"
    "wf_world sample_ext c" "\<forall>t. slot sample_ext c t = slot sample_ext sample_world t"
    using world_copy_spec [OF _ _ pre(1,2) sample_world_wf(1) pre(3)] by auto
  then show ?thesis by (intro exI [of _ c]) simp
qed

end
