(* ===== verification/Aba_Window.thy ===== *)
theory Aba_Window
  imports Aba_World
begin

text \<open>
  Reuse of storages: rotating a world moves its window of timestamps up by the width of a storage
  and keeps the entries of all timestamps that stay inside. The interface \<open>ts_window\<close> states what a
  rotation promises; rotation as coded provides it. The loop that reuses storages tests the slot at
  an index of the world it is rotating but rotates slot 0; it rotates only unused storages if those come
  first, as in every reachable state (\<open>Aba_Reachable\<close>), but not in general (\<open>reuse_needs_prefix\<close>).
\<close>

section \<open>The interface of a window of timestamps\<close>

locale ts_window =
  fixes rotate :: "'w \<Rightarrow> 'w" and lo :: "'w \<Rightarrow> nat" and hi :: "'w \<Rightarrow> nat"
    and look :: "'w \<Rightarrow> nat \<Rightarrow> 'e option" and invar :: "'w \<Rightarrow> bool"
    and width :: nat and limit :: nat
  assumes rotate_invar: "invar w \<Longrightarrow> hi w + width \<le> limit \<Longrightarrow> invar (rotate w)"
    and rotate_lo: "invar w \<Longrightarrow> hi w + width \<le> limit \<Longrightarrow> lo (rotate w) = lo w + width"
    and rotate_hi: "invar w \<Longrightarrow> hi w + width \<le> limit \<Longrightarrow> hi (rotate w) = hi w + width"
    and rotate_look: "invar w \<Longrightarrow> hi w + width \<le> limit \<Longrightarrow>
      lo w + width \<le> t \<Longrightarrow> t < hi w \<Longrightarrow> look (rotate w) t = look w t"
    and look_Some: "invar w \<Longrightarrow> 0 < t \<Longrightarrow> look w t \<noteq> None \<longleftrightarrow> lo w \<le> t \<and> t < hi w"
begin

lemma rotates:
  assumes "invar w" "hi w + k * width \<le> limit"
  shows "invar ((rotate ^^ k) w) \<and> lo ((rotate ^^ k) w) = lo w + k * width
    \<and> hi ((rotate ^^ k) w) = hi w + k * width"
  using assms(2)
proof (induction k)
  case 0
  with assms(1) show ?case by simp
next
  case (Suc k)
  then have IH: "invar ((rotate ^^ k) w)" "lo ((rotate ^^ k) w) = lo w + k * width"
    "hi ((rotate ^^ k) w) = hi w + k * width" by simp_all
  with Suc.prems have le: "hi ((rotate ^^ k) w) + width \<le> limit" by (simp add: add.commute add.left_commute)
  with IH rotate_invar [OF IH(1) le] rotate_lo [OF IH(1) le] rotate_hi [OF IH(1) le]
  show ?case by simp
qed

text \<open>Every timestamp the window does not leave behind keeps its entry.\<close>

lemma rotates_look:
  assumes "invar w" "hi w + k * width \<le> limit" "lo w + k * width \<le> t" "t < hi w"
  shows "look ((rotate ^^ k) w) t = look w t"
  using assms(2,3)
proof (induction k)
  case 0
  show ?case by simp
next
  case (Suc k)
  then have le: "hi w + k * width \<le> limit" and IH: "look ((rotate ^^ k) w) t = look w t" by simp_all
  from rotates [OF assms(1) le] have r: "invar ((rotate ^^ k) w)"
    "lo ((rotate ^^ k) w) = lo w + k * width" "hi ((rotate ^^ k) w) = hi w + k * width" by simp_all
  from Suc.prems assms(4) r IH show ?case
    using rotate_look [OF r(1)] by (simp add: add.commute add.left_commute)
qed

lemma rotates_covers_next:
  assumes "invar w" "hi w + k * width \<le> limit" "lo w < hi w" "0 < k" "k * width \<le> hi w - lo w" "0 < width"
  shows "look ((rotate ^^ k) w) (hi w) \<noteq> None"
proof -
  from rotates [OF assms(1,2)] have r: "invar ((rotate ^^ k) w)"
    "lo ((rotate ^^ k) w) = lo w + k * width" "hi ((rotate ^^ k) w) = hi w + k * width" by simp_all
  moreover have "hi w < hi w + k * width" using assms(4,6) by simp
  ultimately show ?thesis using look_Some [OF r(1), of "hi w"] assms(3,5) by simp
qed

end

section \<open>Rotation\<close>

definition rotate_world :: "ext \<Rightarrow> world \<Rightarrow> world" where
  "rotate_world E w = w\<lparr>
     w_offset := w_offset w + word_of_nat (n_entries E),
     w_storage := rotate1 (take (unat (w_n w)) (w_storage w)) @ drop (unat (w_n w)) (w_storage w)\<rparr>"

lemma rotate_list:
  assumes "0 < n" "n \<le> length xs"
  shows "((take (n - 1) (drop 1 xs) @ drop (n - 1) xs)[n - 1 := 0])[n - 1 := xs ! 0]
    = rotate1 (take n xs) @ drop n xs"
proof -
  obtain x ys where xs: "xs = x # ys" using assms by (cases xs) auto
  obtain m where n: "n = Suc m" using assms(1) by (cases n) auto
  have m: "m \<le> length ys" using assms(2) xs n by simp
  then have "drop m (x # ys) = (x # ys) ! m # drop m ys"
    by (metis Cons_nth_drop_Suc drop_Suc_Cons length_Cons less_Suc_eq_le)
  with m show ?thesis by (simp add: xs n list_update_append)
qed

lemma unat_minus_1: "0 < unat (k :: uint) \<Longrightarrow> unat (k - 1) = unat k - 1"
  by (metis unat_gt_0 unat_minus_one)

lemma run_rotate_storage [exec]:
  assumes "world \<noteq> 0" "worlds s world = Some w" "wf_shape E w" "0 < unat (w_n w)"
  shows "run (mulle_aba_world_rotate_storage E th world) s
    = Ok () (s\<lparr>worlds := (worlds s)(world \<mapsto> rotate_world E w)\<rparr>)"
proof -
  let ?n = "unat (w_n w)" and ?v = "w\<lparr>w_storage := (take (unat (w_n w) - 1) (drop 1 (w_storage w))
      @ drop (unat (w_n w) - 1) (w_storage w))[unat (w_n w) - 1 := 0],
    w_n := w_n w - 1, w_offset := w_offset w + word_of_nat (n_entries E)\<rparr>"
  have n: "w_n w \<noteq> 0" "?n \<le> length (w_storage w)" "?n \<le> unat (w_size w)"
    using assms(3,4) by (auto simp: wf_shape_def)
  have st0: "w_storage w ! 0 \<noteq> 0" using wf_shape_storage_nonzero [OF assms(3)] assms(4) by blast
  have sz: "w_size w \<noteq> w_n w - 1"
    using n(3) assms(4) by (auto simp: word_unat_eq_iff unat_minus_1)
  have len: "?n - 1 < length (w_storage w)" using n(2) assms(4) by linarith
  have pop: "run (mulle_aba_world_pop_storage E world) s = Ok (w_storage w ! 0) (s\<lparr>worlds := (worlds s)(world \<mapsto> ?v)\<rparr>)"
    using assms(1,2,4) n by (simp add: mulle_aba_world_pop_storage_def exec check_bound_def Let_def unat_minus_1)
  have push: "run (mulle_aba_world_push_storage E th world (w_storage w ! 0)) (s\<lparr>worlds := (worlds s)(world \<mapsto> ?v)\<rparr>)
    = Ok 0 (s\<lparr>worlds := (worlds s)(world \<mapsto> rotate_world E w)\<rparr>)"
    using assms(1,4) st0 sz len rotate_list [OF assms(4) n(2)]
    by (simp add: mulle_aba_world_push_storage_def exec check_bound_def unat_minus_1 rotate_world_def)
  show ?thesis
    using assms(1,2) n(1) pop push by (simp add: mulle_aba_world_rotate_storage_def exec)
qed

lemma rotate_world_sel [simp]:
  "w_n (rotate_world E w) = w_n w" "w_size (rotate_world E w) = w_size w"
  "w_timestamp (rotate_world E w) = w_timestamp w" "w_n_threads (rotate_world E w) = w_n_threads w"
  "w_link (rotate_world E w) = w_link w"
  "w_offset (rotate_world E w) = w_offset w + word_of_nat (n_entries E)"
  by (simp_all add: rotate_world_def)

lemma length_rotate_world [simp]: "length (w_storage (rotate_world E w)) = length (w_storage w)"
  by (simp add: rotate_world_def)

lemma rotate_world_nth:
  assumes "unat (w_n w) \<le> length (w_storage w)" "i < length (w_storage w)"
  shows "w_storage (rotate_world E w) ! i =
    (if Suc i < unat (w_n w) then w_storage w ! Suc i
     else if Suc i = unat (w_n w) then w_storage w ! 0 else w_storage w ! i)"
  using assms by (auto simp: rotate_world_def nth_append nth_rotate1)

lemma funpow_rotate_world_sel [simp]:
  "w_n ((rotate_world E ^^ k) w) = w_n w" "w_size ((rotate_world E ^^ k) w) = w_size w"
  "w_timestamp ((rotate_world E ^^ k) w) = w_timestamp w"
  "w_n_threads ((rotate_world E ^^ k) w) = w_n_threads w"
  "w_link ((rotate_world E ^^ k) w) = w_link w"
  by (induction k) simp_all

text \<open>The slots after \<open>k\<close> rotations, seen from the world before.\<close>

lemma funpow_rotate_world_nth:
  assumes "unat (w_n w) \<le> length (w_storage w)" "i < unat (w_n w)"
  shows "w_storage ((rotate_world E ^^ k) w) ! i = w_storage w ! ((i + k) mod unat (w_n w))
    \<and> length (w_storage ((rotate_world E ^^ k) w)) = length (w_storage w)"
  using assms(2)
proof (induction k arbitrary: i)
  case 0
  then show ?case by simp
next
  case (Suc k)
  let ?n = "unat (w_n w)"
  have len: "length (w_storage ((rotate_world E ^^ k) w)) = length (w_storage w)" using Suc by blast
  show ?case
  proof (cases "Suc i < ?n")
    case True
    with Suc.IH [of "Suc i"] Suc.prems assms(1) len show ?thesis by (simp add: rotate_world_nth)
  next
    case False
    with Suc.prems have "Suc i = ?n" by simp
    moreover from this have "Suc (i + k) = ?n + k" by simp
    then have "Suc (i + k) mod ?n = k mod ?n" by (simp only: mod_add_self1)
    ultimately show ?thesis
      using Suc.IH [of 0] Suc.prems assms(1) len by (simp add: rotate_world_nth)
  qed
qed

section \<open>Rotation provides the interface\<close>

definition window_hi :: "ext \<Rightarrow> world \<Rightarrow> nat" where
  "window_hi E w = unat (w_offset w) + unat (w_n w) * n_entries E"

definition window_invar :: "ext \<Rightarrow> world \<Rightarrow> bool" where
  "window_invar E w \<longleftrightarrow> 0 < unat (w_n w) \<and> wf_shape E w \<and> w_n w = w_size w"

definition window_look :: "ext \<Rightarrow> world \<Rightarrow> nat \<Rightarrow> entryptr option" where
  "window_look E w t = (if t < 2 ^ 63 then slot E w (word_of_nat t) else None)"

lemma unat_of_nat_63: "t < 2 ^ 63 \<Longrightarrow> unat (word_of_nat t :: uptr) = t"
  by (simp add: unat_of_nat)

lemma rotate_offset:
  assumes "wf_shape E w" "window_hi E w + n_entries E < 2 ^ 63"
  shows "unat (w_offset (rotate_world E w)) = unat (w_offset w) + n_entries E"
proof -
  have "unat (w_offset w) + n_entries E < 2 ^ 63" using assms(2) by (simp add: window_hi_def)
  then have "unat (w_offset w) + n_entries E < 2 ^ 64" by (rule less_trans) simp
  then show ?thesis by (simp add: unat_word_ariths)
qed

lemma rotate_window_invar:
  assumes "window_invar E w" "window_hi E w + n_entries E < 2 ^ 63"
  shows "window_invar E (rotate_world E w)"
proof -
  let ?n = "unat (w_n w)"
  have sh: "wf_shape E w" and n: "0 < ?n" "w_n w = w_size w" using assms(1) by (auto simp: window_invar_def)
  note off = rotate_offset [OF sh assms(2)]
  have len: "?n \<le> length (w_storage w)" using sh by (simp add: wf_shape_def)
  have "w_storage (rotate_world E w) ! i \<noteq> 0" if "i < ?n" for i
    using that len wf_shape_storage_nonzero [OF sh] n(1) by (simp add: rotate_world_nth)
  moreover have "(unat (w_offset w) + n_entries E) mod n_entries E = 0"
    using sh by (simp add: wf_shape_def)
  ultimately have "wf_shape E (rotate_world E w)"
    using sh assms(2) n off by (simp add: wf_shape_def window_hi_def)
  with n show ?thesis by (simp add: window_invar_def)
qed

lemma window_look_iff:
  assumes "wf_shape E w" "w_n w = w_size w" "0 < t"
  shows "window_look E w t \<noteq> None \<longleftrightarrow> unat (w_offset w) \<le> t \<and> t < window_hi E w"
proof (cases "t < 2 ^ 63")
  case True
  moreover from this assms(3) have "(word_of_nat t :: uptr) \<noteq> 0"
    by (metis nat_less_le unat_0 unat_of_nat_63)
  ultimately show ?thesis
    using unat_of_nat_63 [OF True]
    by (simp add: window_look_def slot_def covers_iff word_le_nat_alt window_hi_def)
next
  case False
  moreover have "window_hi E w < 2 ^ 63" using assms(1,2) by (simp add: wf_shape_def window_hi_def)
  ultimately show ?thesis by (simp add: window_look_def)
qed

lemma rotate_window_look:
  assumes "window_invar E w" "window_hi E w + n_entries E < 2 ^ 63"
    and "unat (w_offset w) + n_entries E \<le> t" "t < window_hi E w"
  shows "window_look E (rotate_world E w) t = window_look E w t"
proof -
  let ?t = "word_of_nat t :: uptr"
  have sh: "wf_shape E w" and n: "0 < unat (w_n w)" "w_n w = w_size w"
    using assms(1) by (auto simp: window_invar_def)
  have inv': "wf_shape E (rotate_world E w)"
    using rotate_window_invar [OF assms(1,2)] by (simp add: window_invar_def)
  note off = rotate_offset [OF sh assms(2)]
  have t63: "t < 2 ^ 63" using assms(2,4) by linarith
  have t: "0 < t" "unat ?t = t"
    using assms(3) n_entries_pos(1) [of E] unat_of_nat_63 [OF t63] by (linarith, simp)
  have "window_look E w t \<noteq> None" "window_look E (rotate_world E w) t \<noteq> None"
    using window_look_iff [OF sh n(2) t(1)] window_look_iff [OF inv' _ t(1)] assms(3,4) n off
    by (auto simp: window_hi_def)
  then have cov: "covers E w ?t" "covers E (rotate_world E w) ?t"
    by (auto simp: window_look_def slot_def split: if_splits)
  let ?i = "slot_index E w ?t"
  have i: "slot_index E (rotate_world E w) ?t = ?i - 1" "0 < ?i"
  proof -
    have *: "t - unat (w_offset w) = (t - (unat (w_offset w) + n_entries E)) + n_entries E"
      using assms(3) by linarith
    have "?i = Suc ((t - (unat (w_offset w) + n_entries E)) div n_entries E)"
      unfolding slot_index_def t(2) * by (simp only: div_add_self2 [OF n_entries_pos(2)] Suc_eq_plus1)
    then show "slot_index E (rotate_world E w) ?t = ?i - 1" "0 < ?i"
      using off t(2) by (simp_all add: slot_index_def del: rotate_world_sel)
  qed
  have "w_storage (rotate_world E w) ! (?i - 1) = w_storage w ! ?i"
    using cov(1) i(2) sh by (subst rotate_world_nth) (auto simp: covers_def wf_shape_def)
  with cov i t63 show ?thesis by (simp add: window_look_def slot_def)
qed

interpretation win: ts_window "rotate_world E" "\<lambda>w. unat (w_offset w)" "window_hi E" "window_look E"
    "window_invar E" "n_entries E" "2 ^ 63 - 1" for E
proof unfold_locales
  fix w t assume inv: "window_invar E w" and le: "window_hi E w + n_entries E \<le> 2 ^ 63 - 1"
  from le have lt: "window_hi E w + n_entries E < 2 ^ 63" by simp
  from inv have sh: "wf_shape E w" by (simp add: window_invar_def)
  show "window_invar E (rotate_world E w)" by (rule rotate_window_invar [OF inv lt])
  show "unat (w_offset (rotate_world E w)) = unat (w_offset w) + n_entries E"
    by (rule rotate_offset [OF sh lt])
  then show "window_hi E (rotate_world E w) = window_hi E w + n_entries E"
    by (simp add: window_hi_def)
  show "unat (w_offset w) + n_entries E \<le> t \<Longrightarrow> t < window_hi E w \<Longrightarrow>
    window_look E (rotate_world E w) t = window_look E w t"
    by (rule rotate_window_look [OF inv lt])
next
  fix w t assume "window_invar E w" "0 < (t :: nat)"
  then show "window_look E w t \<noteq> None \<longleftrightarrow> unat (w_offset w) \<le> t \<and> t < window_hi E w"
    by (intro window_look_iff) (auto simp: window_invar_def)
qed

section \<open>The loop\<close>

text \<open>
  \<open>free_prefix E s w f\<close>: exactly the first \<open>f\<close> storages are unused. Sequentially this always holds,
  because a thread gives up its references from the oldest timestamp on.
\<close>

definition unused :: "mem \<Rightarrow> uptr \<Rightarrow> bool" where
  "unused s a \<longleftrightarrow> (case stores s a of None \<Rightarrow> False | Some ts \<Rightarrow> usage_bits ts = 0)"

definition stores_mapped :: "mem \<Rightarrow> world \<Rightarrow> bool" where
  "stores_mapped s w \<longleftrightarrow> (\<forall>i < unat (w_n w). stores s (w_storage w ! i) \<noteq> None)"

definition free_prefix :: "mem \<Rightarrow> world \<Rightarrow> nat \<Rightarrow> bool" where
  "free_prefix s w f \<longleftrightarrow> f \<le> unat (w_n w) \<and> (\<forall>i < unat (w_n w). unused s (w_storage w ! i) \<longleftrightarrow> i < f)"

text \<open>
  Where the loop stands at index \<open>i\<close> with \<open>r\<close> rotations done, of \<open>n\<close> storages of which the first \<open>f\<close>
  were unused: it finds every second unused storage, then the used ones, then the ones it has put
  at the end.
\<close>

definition reuse_pos :: "nat \<Rightarrow> nat \<Rightarrow> nat \<Rightarrow> nat \<Rightarrow> bool" where
  "reuse_pos n f i r \<longleftrightarrow> (f = n \<and> r = i) \<or>
     (f < n \<and> ((2 * i < f + 2 \<and> r = i)
       \<or> (r = (f + 1) div 2 \<and> (f + 1) div 2 \<le> i \<and> i + (f + 1) div 2 \<le> n)
       \<or> (n \<le> i + (f + 1) div 2 \<and> r + n = i + 2 * ((f + 1) div 2))))"

lemma reuse_pos_step:
  assumes "reuse_pos n f i r" "i + 1 < n" "f \<le> n"
  shows "if (i + r) mod n < f then r < f \<and> reuse_pos n f (i + 1) (r + 1) else reuse_pos n f (i + 1) r"
proof -
  obtain h where h: "(f + 1) div 2 = h" "f = 2 * h \<or> f + 1 = 2 * h" by (cases "even f") auto
  show ?thesis
  proof (cases "f = n")
    case True
    with assms show ?thesis by (auto simp: reuse_pos_def)
  next
    case False
    then have f: "f < n" using assms(3) by simp
    have lt: "i + r < 2 * n" using assms(1,2) f h by (auto simp: reuse_pos_def)
    have m: "(i + r) mod n = (if i + r < n then i + r else i + r - n)"
      using lt by (simp add: mod_if)
    consider "i \<le> h" "2 * i < f + 2" "r = i" | "r = h" "h \<le> i" "i + h \<le> n" | "n \<le> i + h" "r + n = i + 2 * h"
      using assms(1) f h by (auto simp: reuse_pos_def)
    then show ?thesis
    proof cases
      case 1
      show ?thesis
      proof (cases "i + i < n")
        case True
        with 1 f h assms(2) show ?thesis unfolding reuse_pos_def h(1) m by auto
      next
        case False
        with 1 f h(2) have "f + 1 = 2 * h" "i = h" "n = 2 * h" by linarith+
        with 1 f assms(2) show ?thesis unfolding reuse_pos_def h(1) m by auto
      qed
    next
      case 2
      with f h assms(2) show ?thesis unfolding reuse_pos_def h(1) m by auto
    next
      case 3
      then have "i + r - n = 2 * (i + h - n)" "i + r \<ge> n" by linarith+
      with 3 f h assms(2) show ?thesis unfolding reuse_pos_def h(1) m by auto
    qed
  qed
qed

lemma ucast_index_eq:
  assumes "i < 2 ^ 32" "j < 2 ^ 32"
  shows "(ucast (word_of_nat i :: uint) :: uptr) = ucast (word_of_nat j :: uint) \<longleftrightarrow> i = j"
  using assms by (simp add: word_unat_eq_iff unat_ucast_64 unat_of_nat_32)

lemma window_invar_slot:
  assumes "window_invar E v" "i < unat (w_n v)"
  shows "i < length (w_storage v)" "w_storage v ! i \<noteq> 0"
  using wf_shape_storage_nonzero [of E v i] assms by (auto simp: window_invar_def)

text \<open>One look of the loop at slot \<open>i\<close> of the world as it is then.\<close>

lemma run_reuse_look:
  assumes "a \<noteq> 0" "worlds s a = Some v" "window_invar E v" "i < unat (w_n v)"
    and "stores s (w_storage v ! i) = Some ts" "Suc i \<noteq> unat (w_n v)"
    and "j = unat (w_n v) - 1"
  shows "run (reuse_loop E th a counting (ucast (word_of_nat j :: uint)) (Suc k) (word_of_nat i) r) s =
    (if usage_bits ts \<noteq> 0 then run (reuse_loop E th a counting (ucast (word_of_nat j :: uint)) k (word_of_nat (Suc i)) r) s
     else run (reuse_loop E th a counting (ucast (word_of_nat j :: uint)) k (word_of_nat (Suc i)) (r + 1))
       (if counting then s else s\<lparr>worlds := (worlds s)(a \<mapsto> rotate_world E v)\<rparr>))"
proof -
  have le: "i < unat (w_n v)" "j < unat (w_n v)" "i \<noteq> j" using assms(4,6,7) by linarith+
  have lt: "i < 2 ^ 32" "j < 2 ^ 32"
    using less_trans [OF le(1) unat_lt_32] less_trans [OF le(2) unat_lt_32] by blast+
  have ne: "(ucast (word_of_nat i :: uint) :: uptr) \<noteq> ucast (word_of_nat j :: uint)"
    unfolding ucast_index_eq [OF lt] by (rule le(3))
  have sh: "wf_shape E v" "0 < unat (w_n v)" using assms(3) by (auto simp: window_invar_def)
  have suc: "(word_of_nat i :: uint) + 1 = word_of_nat (Suc i)" by (simp add: add.commute)
  show ?thesis
    using ne assms(1,2,4,5) unat_of_nat_32 [OF lt(1)] window_invar_slot [OF assms(3,4)] suc
    by (simp add: exec sh del: of_nat_Suc)
qed

text \<open>The number of rotations the loop ends with, as a function of which storages are unused.\<close>

fun rotations :: "(nat \<Rightarrow> bool) \<Rightarrow> nat \<Rightarrow> nat \<Rightarrow> nat \<Rightarrow> nat \<Rightarrow> nat" where
  "rotations free n 0 i r = r"
| "rotations free n (Suc k) i r =
     (if Suc i = n then r else rotations free n k (Suc i) (if free ((i + r) mod n) then Suc r else r))"

lemma rotations_bounds:
  "\<lbrakk>k = n - i; i < n; r \<le> i\<rbrakk> \<Longrightarrow> r \<le> rotations free n k i r \<and> rotations free n k i r < n
     \<and> ((\<exists>m. i \<le> m \<and> Suc m < n \<and> free ((m + r) mod n)) \<longrightarrow> r < rotations free n k i r)"
proof (induction k arbitrary: i r)
  case (Suc k)
  let ?r = "if free ((i + r) mod n) then Suc r else r"
  show ?case
  proof (cases "Suc i = n")
    case False
    with Suc.prems have "k = n - Suc i" "Suc i < n" "?r \<le> Suc i" by auto
    note IH = Suc.IH [OF this]
    have "r < rotations free n k (Suc i) ?r" if m: "i \<le> m" "Suc m < n" "free ((m + r) mod n)" for m
    proof (cases "free ((i + r) mod n)")
      case True
      with IH show ?thesis by (simp add: Suc_le_eq)
    next
      case noti: False
      with m have "Suc i \<le> m" by (metis Suc_leI le_neq_implies_less)
      with IH m(2,3) noti show ?thesis by auto
    qed
    with IH False show ?thesis by (auto split: if_splits)
  qed (use Suc.prems in auto)
qed auto

lemma rotations_prefix:
  "\<lbrakk>reuse_pos n f i r; k = n - i; i < n; r \<le> f; f \<le> n\<rbrakk> \<Longrightarrow> rotations (\<lambda>i. i < f) n k i r \<le> f"
proof (induction k arbitrary: i r)
  case (Suc k)
  show ?case
  proof (cases "Suc i = n")
    case True
    then have "rotations (\<lambda>i. i < f) n (Suc k) i r = r" by simp
    with Suc.prems(4) show ?thesis by (simp only:)
  next
    case False
    with Suc.prems have i: "i + 1 < n" "k = n - Suc i" by simp_all
    have "reuse_pos n f (Suc i) (if (i + r) mod n < f then Suc r else r) \<and> (if (i + r) mod n < f then Suc r else r) \<le> f"
      using reuse_pos_step [OF Suc.prems(1) i(1) Suc.prems(5)] Suc.prems(4) by (auto split: if_splits)
    with Suc.IH [OF _ i(2), of "if (i + r) mod n < f then Suc r else r"] i(1) False Suc.prems(5) show ?thesis
      by (auto split: if_splits)
  qed
qed simp

lemma rotations_cong:
  "(\<And>i. i < n \<Longrightarrow> free i = free' i) \<Longrightarrow> i < n \<Longrightarrow> rotations free n k i r = rotations free' n k i r"
proof (induction k arbitrary: i r)
  case (Suc k)
  have "free ((i + r) mod n) = free' ((i + r) mod n)" using Suc.prems by simp
  then show ?case using Suc.IH [OF Suc.prems(1), of "Suc i"] Suc.prems(2) by auto
qed simp

lemma run_reuse_loop:
  assumes a: "a \<noteq> 0" and w: "window_invar E w" and mapped: "stores_mapped s w"
    and n: "n = unat (w_n w)" and j: "j = n - 1" and lim: "window_hi E w + n * n_entries E < 2 ^ 63"
  shows "\<lbrakk>k = n - i; i < n; r \<le> i; r' = rotations (\<lambda>i. unused s (w_storage w ! i)) n k i r\<rbrakk> \<Longrightarrow>
    run (reuse_loop E th a False (ucast (word_of_nat j :: uint)) k (word_of_nat i) (word_of_nat r))
        (s\<lparr>worlds := (worlds s)(a \<mapsto> (rotate_world E ^^ r) w)\<rparr>)
      = Ok (word_of_nat r') (s\<lparr>worlds := (worlds s)(a \<mapsto> (rotate_world E ^^ r') w)\<rparr>)"
proof (induction k arbitrary: i r)
  case 0
  then show ?case by simp
next
  case (Suc k)
  let ?v = "(rotate_world E ^^ r) w" and ?x = "w_storage w ! ((i + r) mod n)"
  have pos: "0 < n" using w n unfolding window_invar_def by blast
  have len: "n \<le> length (w_storage w)"
    using w n unfolding window_invar_def wf_shape_def by (elim conjE) simp
  have m: "(i + r) mod n < n" using pos by simp
  have "r * n_entries E \<le> n * n_entries E" using Suc.prems(2,3) by simp
  with lim have "window_hi E w + r * n_entries E < 2 ^ 63" by linarith
  then have "window_hi E w + r * n_entries E \<le> 2 ^ 63 - 1" by simp
  then have inv: "window_invar E ?v" using win.rotates [OF w] by blast
  have x: "w_storage ?v ! i = ?x"
    using funpow_rotate_world_nth [of w i r E] len Suc.prems(2) n by simp
  obtain ts where ts: "stores s ?x = Some ts" using mapped m n by (auto simp: stores_mapped_def)
  then have use: "usage_bits ts = 0 \<longleftrightarrow> unused s ?x" by (simp add: unused_def)
  show ?case
  proof (cases "Suc i = n")
    case True
    then have "i = j" using j by simp
    with True Suc.prems(4) show ?thesis by simp
  next
    case False
    let ?r = "if unused s ?x then Suc r else r"
    have k: "k = n - Suc i" "Suc i < n" "?r \<le> Suc i" using Suc.prems False by auto
    note look = run_reuse_look [OF a _ inv, of "s\<lparr>worlds := (worlds s)(a \<mapsto> ?v)\<rparr>" i ts j th False k "word_of_nat r"]
    have suc: "(word_of_nat r :: uint) + 1 = word_of_nat (Suc r)" by (simp add: add.commute)
    have "r' = rotations (\<lambda>i. unused s (w_storage w ! i)) n k (Suc i) ?r" using Suc.prems(4) False by simp
    note IH = Suc.IH [OF k this]
    have "run (reuse_loop E th a False (ucast (word_of_nat j :: uint)) (Suc k) (word_of_nat i) (word_of_nat r))
        (s\<lparr>worlds := (worlds s)(a \<mapsto> ?v)\<rparr>)
      = run (reuse_loop E th a False (ucast (word_of_nat j :: uint)) k (word_of_nat (Suc i)) (word_of_nat ?r))
        (s\<lparr>worlds := (worlds s)(a \<mapsto> (rotate_world E ^^ ?r) w)\<rparr>)"
      using look ts use x suc False n j Suc.prems(2)
      by (cases "unused s ?x") (simp_all del: reuse_loop.simps of_nat_Suc)
    with IH show ?thesis by (simp only:)
  qed
qed

section \<open>Reusing and counting storages\<close>

lemma slot_index_last:
  assumes "unat ts + 1 = window_hi E w" "0 < unat (w_n w)"
  shows "w_offset w \<le> ts" "slot_index E w ts = unat (w_n w) - 1"
proof -
  obtain m where m: "unat (w_n w) = Suc m" using assms(2) by (cases "unat (w_n w)") auto
  have ts: "unat ts = unat (w_offset w) + (m * n_entries E + (n_entries E - 1))"
    using assms(1) n_entries_pos(1) [of E] unfolding window_hi_def m mult_Suc by linarith
  then show "w_offset w \<le> ts" by (simp add: word_le_nat_alt)
  have "slot_index E w ts = (m * n_entries E + (n_entries E - 1)) div n_entries E"
    unfolding slot_index_def ts by simp
  also have "\<dots> = m" using n_entries_pos(1) [of E] by simp
  finally show "slot_index E w ts = unat (w_n w) - 1" by (simp add: m)
qed

text \<open>
  The precondition of reuse: a full world whose current timestamp is the last of the window
  (\<open>at_end\<close>), and run alone (\<open>reuse_pre\<close>) its first \<open>f\<close> storages unused and the others in use.
\<close>

definition at_end :: "ext \<Rightarrow> mem \<Rightarrow> world \<Rightarrow> bool" where
  "at_end E s w \<longleftrightarrow> window_invar E w \<and> stores_mapped s w
     \<and> w_timestamp w \<noteq> 0 \<and> unat (w_timestamp w) + 1 = window_hi E w
     \<and> window_hi E w + unat (w_n w) * n_entries E < 2 ^ 63"

definition reuse_pre :: "ext \<Rightarrow> mem \<Rightarrow> world \<Rightarrow> nat \<Rightarrow> bool" where
  "reuse_pre E s w f \<longleftrightarrow> at_end E s w \<and> free_prefix s w f"

lemma run_reuse_or_count:
  assumes "a \<noteq> 0" "worlds s a = Some w" "at_end E s w"
  shows "run (mulle_aba_world_reuse_or_count_storages E th a counting) s =
    run (reuse_loop E th a counting (ucast (word_of_nat (unat (w_n w) - 1) :: uint)) (unat (w_n w)) 0 0) s"
proof -
  have ts: "w_timestamp w \<noteq> 0" "unat (w_timestamp w) + 1 = window_hi E w" and n: "0 < unat (w_n w)"
    using assms(3) unfolding at_end_def window_invar_def by blast+
  note i = slot_index_last [OF ts(2) n]
  have "slot_index E w (w_timestamp w) < unat (w_n w)" using i(2) n by linarith
  with assms(1,2) ts(1) i show ?thesis
    by (simp add: mulle_aba_world_reuse_or_count_storages_def exec del: reuse_loop.simps)
qed

definition turns :: "mem \<Rightarrow> world \<Rightarrow> nat" where
  "turns s w = rotations (\<lambda>i. unused s (w_storage w ! i)) (unat (w_n w)) (unat (w_n w)) 0 0"

lemma run_reuse_at_end:
  assumes "a \<noteq> 0" "worlds s a = Some w" "at_end E s w"
  shows "run (mulle_aba_world_reuse_storages E th a) s
      = Ok (word_of_nat (turns s w)) (s\<lparr>worlds := (worlds s)(a \<mapsto> (rotate_world E ^^ turns s w) w)\<rparr>)"
    "turns s w < unat (w_n w)" "\<exists>i. Suc i < unat (w_n w) \<and> unused s (w_storage w ! i) \<Longrightarrow> 0 < turns s w"
proof -
  let ?n = "unat (w_n w)" and ?r = "turns s w"
  have h: "window_invar E w" "stores_mapped s w" "0 < ?n" "window_hi E w + ?n * n_entries E < 2 ^ 63"
    using assms(3) unfolding at_end_def window_invar_def by blast+
  from assms(2) have upd: "(worlds s)(a \<mapsto> w) = worlds s" by auto
  from run_reuse_loop [OF assms(1) h(1,2) refl refl h(4) _ h(3) order_refl turns_def, of th] upd
  show "run (mulle_aba_world_reuse_storages E th a) s
      = Ok (word_of_nat ?r) (s\<lparr>worlds := (worlds s)(a \<mapsto> (rotate_world E ^^ ?r) w)\<rparr>)"
    using run_reuse_or_count [OF assms(1-3)] by (simp add: mulle_aba_world_reuse_storages_def del: reuse_loop.simps)
  note b = rotations_bounds [where k = ?n and n = ?n and i = 0 and r = 0 and free = "\<lambda>i. unused s (w_storage w ! i)", folded turns_def]
  show "?r < ?n" using b h(3) by simp
  show "0 < ?r" if "\<exists>i. Suc i < ?n \<and> unused s (w_storage w ! i)" using b h(3) that by auto
qed

lemma turns_prefix:
  assumes "free_prefix s w f" "0 < unat (w_n w)"
  shows "turns s w \<le> f"
proof -
  let ?n = "unat (w_n w)"
  have h: "f \<le> ?n" "\<And>i. i < ?n \<Longrightarrow> unused s (w_storage w ! i) \<longleftrightarrow> i < f"
    using assms(1) unfolding free_prefix_def by blast+
  have pos: "reuse_pos ?n f 0 0" using h(1) by (auto simp: reuse_pos_def)
  have "turns s w = rotations (\<lambda>i. i < f) ?n ?n 0 0" unfolding turns_def by (rule rotations_cong [OF h(2) assms(2)])
  then show ?thesis using rotations_prefix [OF pos _ assms(2) _ h(1), of ?n] by simp
qed

lemma run_reuse_storages:
  assumes "a \<noteq> 0" "worlds s a = Some w" "reuse_pre E s w f"
  obtains r where "run (mulle_aba_world_reuse_storages E th a) s
      = Ok (word_of_nat r) (s\<lparr>worlds := (worlds s)(a \<mapsto> (rotate_world E ^^ r) w)\<rparr>)"
    "r \<le> f" "r < unat (w_n w)" "0 < f \<and> 1 < unat (w_n w) \<Longrightarrow> 0 < r"
proof -
  have h: "at_end E s w" "free_prefix s w f" "0 < unat (w_n w)"
    using assms(3) unfolding reuse_pre_def at_end_def window_invar_def by blast+
  note ae = run_reuse_at_end [OF assms(1,2) h(1)]
  have "0 < f \<and> 1 < unat (w_n w) \<Longrightarrow> 0 < turns s w" by (rule ae(3)) (use h(2) in \<open>auto simp: free_prefix_def\<close>)
  with turns_prefix [OF h(2,3)] ae(1,2) show ?thesis by (intro that) simp_all
qed

text \<open>Counting visits the storages before the one of the current timestamp.\<close>

lemma run_count_loop:
  assumes a: "a \<noteq> 0" and w: "worlds s a = Some w" "window_invar E w" and mapped: "stores_mapped s w"
    and n: "n = unat (w_n w)" and j: "j = n - 1"
  shows "\<lbrakk>k = n - i; i < n\<rbrakk> \<Longrightarrow>
    run (reuse_loop E th a True (ucast (word_of_nat j :: uint)) k (word_of_nat i) c) s
      = Ok (c + word_of_nat (length (filter (\<lambda>i. unused s (w_storage w ! i)) [i..<j]))) s"
proof (induction k arbitrary: i c)
  case 0
  then show ?case by simp
next
  case (Suc k)
  obtain ts where ts: "stores s (w_storage w ! i) = Some ts" using mapped Suc.prems(2) n by (auto simp: stores_mapped_def)
  show ?case
  proof (cases "Suc i = n")
    case True
    with j have "i = j" by simp
    then show ?thesis by simp
  next
    case False
    with Suc.prems j have i: "k = n - Suc i" "Suc i < n" "[i..<j] = i # [Suc i..<j]"
      by (simp_all add: upt_conv_Cons)
    from run_reuse_look [OF a w Suc.prems(2) [unfolded n] ts] False n j
    show ?thesis
      using Suc.IH [OF i(1,2)] ts i(3)
      by (simp del: reuse_loop.simps of_nat_Suc add: unused_def add.assoc)
        (simp add: add.commute)
  qed
qed

lemma filter_prefix: "filter (\<lambda>i. i < f) [0..<j] = [0..<min f j]"
  by (induction j) (auto simp: min_def le_Suc_eq)

lemma run_count_at_end:
  assumes "a \<noteq> 0" "worlds s a = Some w" "at_end E s w"
  shows "run (mulle_aba_world_count_available_reusable_storages E th a) s
    = Ok (word_of_nat (length (filter (\<lambda>i. unused s (w_storage w ! i)) [0..<unat (w_n w) - 1]))) s"
proof -
  let ?n = "unat (w_n w)"
  have h: "window_invar E w" "stores_mapped s w" "0 < ?n"
    using assms(3) unfolding at_end_def window_invar_def by blast+
  from run_count_loop [OF assms(1,2) h(1,2) refl refl, of ?n 0 th 0] h(3)
  have "run (reuse_loop E th a True (ucast (word_of_nat (?n - 1) :: uint)) ?n 0 0) s
    = Ok (word_of_nat (length (filter (\<lambda>i. unused s (w_storage w ! i)) [0..<?n - 1]))) s"
    by (simp del: reuse_loop.simps)
  with run_reuse_or_count [OF assms] show ?thesis
    unfolding mulle_aba_world_count_available_reusable_storages_def by simp
qed

lemma count_unused:
  "(word_of_nat (length (filter (\<lambda>i. unused s (w_storage w ! i)) [0..<unat (w_n w) - 1])) :: uint) = 0
    \<longleftrightarrow> \<not> (\<exists>i. Suc i < unat (w_n w) \<and> unused s (w_storage w ! i))"
proof -
  let ?xs = "filter (\<lambda>i. unused s (w_storage w ! i)) [0..<unat (w_n w) - 1]"
  have "length ?xs \<le> unat (w_n w) - 1" using length_filter_le [of _ "[0..<unat (w_n w) - 1]"] by simp
  then have "length ?xs < 2 ^ 32" using unat_lt_32 [of "w_n w"] by linarith
  then have "(word_of_nat (length ?xs) :: uint) = 0 \<longleftrightarrow> length ?xs = 0" using unat_of_nat_32 [of "length ?xs"] by auto
  then show ?thesis by (auto simp: filter_empty_conv less_diff_conv)
qed

lemma run_count_storages [exec]:
  assumes "a \<noteq> 0" "worlds s a = Some w" "reuse_pre E s w f"
  shows "run (mulle_aba_world_count_available_reusable_storages E th a) s
    = Ok (word_of_nat (min f (unat (w_n w) - 1))) s"
proof -
  let ?n = "unat (w_n w)"
  have h: "at_end E s w" "free_prefix s w f" using assms(3) unfolding reuse_pre_def by blast+
  have "filter (\<lambda>i. unused s (w_storage w ! i)) [0..<?n - 1] = filter (\<lambda>i. i < f) [0..<?n - 1]"
    using h(2) by (intro filter_cong) (auto simp: free_prefix_def)
  then show ?thesis using run_count_at_end [OF assms(1,2) h(1), of th] by (simp add: filter_prefix)
qed

text \<open>
  The loop tests the storage in slot \<open>i\<close> but always rotates slot 0. That only goes well because the unused storages
  come first: here the first storage is in use, the second is not, and the one that is rotated is the first.
\<close>

definition sample_gap :: mem where
  "sample_gap = sample_mem\<lparr>worlds := [64 \<mapsto> \<lparr>w_link = 0, w_timestamp = 7, w_n_threads = 2, w_offset = 2, w_size = 3,
       w_n = 3, w_storage = [16, 32, 48]\<rparr>],
     stores := [16 \<mapsto> (fresh_ts sample_ext)\<lparr>usage_bits := 1\<rparr>, 32 \<mapsto> fresh_ts sample_ext,
       48 \<mapsto> (fresh_ts sample_ext)\<lparr>usage_bits := 2\<rparr>]\<rparr>"

lemma reuse_needs_prefix:
  "run (mulle_aba_world_reuse_storages sample_ext 0 64) sample_gap = Ok 1 (sample_gap\<lparr>worlds := (worlds sample_gap)(64 \<mapsto>
     \<lparr>w_link = 0, w_timestamp = 7, w_n_threads = 2, w_offset = 4, w_size = 3, w_n = 3, w_storage = [32, 48, 16]\<rparr>)\<rparr>)"
  "\<not> unused sample_gap 16" "unused sample_gap 32"
proof -
  have E: "n_entries sample_ext = 2" "\<not> ndebug sample_ext" by (simp_all add: sample_ext_def n_entries_def)
  have three: "reuse_loop E th a c x 3 i r = reuse_loop E th a c x (Suc (Suc (Suc 0))) i r" for E th a c x i r
    by (simp only: numeral_3_eq_3)
  show "\<not> unused sample_gap 16" "unused sample_gap 32" by (simp_all add: unused_def sample_gap_def)
  show "run (mulle_aba_world_reuse_storages sample_ext 0 64) sample_gap = Ok 1 (sample_gap\<lparr>worlds := (worlds sample_gap)(64 \<mapsto>
     \<lparr>w_link = 0, w_timestamp = 7, w_n_threads = 2, w_offset = 4, w_size = 3, w_n = 3, w_storage = [32, 48, 16]\<rparr>)\<rparr>)"
    by (simp add: mulle_aba_world_reuse_storages_def mulle_aba_world_reuse_or_count_storages_def sample_gap_def
        mulle_aba_world_get_timestampstorage_index_def mulle_aba_world_get_timestampstorage_at_index_def
        mulle_aba_world_rotate_storage_def mulle_aba_world_pop_storage_def mulle_aba_world_push_storage_def
        check_bound_def run_bnd load_world_def store_world_def load_ts_def check_ptr_def run_c_assert Let_def E three)
qed

section \<open>Properties\<close>

definition sample_reuse :: mem where
  "sample_reuse = sample_mem\<lparr>worlds := [64 \<mapsto> sample_world],
     stores := [16 \<mapsto> fresh_ts sample_ext, 32 \<mapsto> (fresh_ts sample_ext)\<lparr>usage_bits := 3\<rparr>]\<rparr>"

lemma sample_reuse_pre: "reuse_pre sample_ext sample_reuse sample_world 1"
proof -
  have "window_invar sample_ext sample_world"
    using sample_world_wf(2) by (simp add: window_invar_def sample_world_def)
  moreover have "window_hi sample_ext sample_world = 6"
    by (simp add: window_hi_def sample_world_def sample_ext_def n_entries_def)
  ultimately show ?thesis
    by (auto simp: reuse_pre_def at_end_def stores_mapped_def free_prefix_def unused_def sample_reuse_def
        sample_world_def sample_ext_def n_entries_def less_2_cases_iff)
qed

text \<open>C27: Rotating a world moves the window of timestamps up by the width of one storage: the oldest
  timestamps leave, all others keep their entry, and the storage of the oldest serves the new ones.\<close>

theorem rotate_storage_spec:
  assumes "a \<noteq> 0" "worlds s a = Some w" "window_invar E w" "window_hi E w + n_entries E < 2 ^ 63"
  shows "\<exists>v. run (mulle_aba_world_rotate_storage E th a) s = Ok () (s\<lparr>worlds := (worlds s)(a \<mapsto> v)\<rparr>)
    \<and> window_invar E v \<and> unat (w_offset v) = unat (w_offset w) + n_entries E
    \<and> window_hi E v = window_hi E w + n_entries E \<and> w_timestamp v = w_timestamp w
    \<and> (\<forall>t \<ge> unat (w_offset w) + n_entries E. t < window_hi E w \<longrightarrow> window_look E v t = window_look E w t)
    \<and> window_look E v (window_hi E w) = Some (w_storage w ! 0, window_hi E w mod n_entries E)"
proof -
  let ?v = "rotate_world E w"
  have le: "window_hi E w + n_entries E \<le> 2 ^ 63 - 1" using assms(4) by simp
  have sh: "wf_shape E w" "0 < unat (w_n w)" "w_n w = w_size w"
    using assms(3) unfolding window_invar_def by blast+
  note inv = win.rotate_invar [OF assms(3) le] and lo = win.rotate_lo [OF assms(3) le]
    and hi = win.rotate_hi [OF assms(3) le]
  have t63: "window_hi E w < 2 ^ 63" using assms(4) by linarith
  note u = unat_of_nat_63 [OF t63]
  have "0 < window_hi E w" using sh(2) by (simp add: window_hi_def)
  then have look: "window_look E ?v (window_hi E w) \<noteq> None"
    using win.look_Some [OF inv, of "window_hi E w"] lo hi sh(2)
    by (cases "unat (w_n w)") (simp_all add: window_hi_def)
  then have c: "covers E ?v (word_of_nat (window_hi E w))"
    by (auto simp: window_look_def slot_def split: if_splits)
  have i: "slot_index E ?v (word_of_nat (window_hi E w)) = unat (w_n w) - 1"
  proof -
    have "window_hi E w - unat (w_offset ?v) = (unat (w_n w) - 1) * n_entries E"
      using lo sh(2) by (cases "unat (w_n w)") (simp_all add: window_hi_def)
    then show ?thesis unfolding slot_index_def u by simp
  qed
  have len: "unat (w_n w) \<le> length (w_storage w)" using sh(1) unfolding wf_shape_def by linarith
  have "w_storage ?v ! (unat (w_n w) - 1) = w_storage w ! 0"
    using rotate_world_nth [OF len, of "unat (w_n w) - 1"] sh(2) len by simp
  with c i t63 have "window_look E ?v (window_hi E w) = Some (w_storage w ! 0, window_hi E w mod n_entries E)"
    by (simp add: window_look_def slot_def u)
  moreover have "\<forall>t \<ge> unat (w_offset w) + n_entries E. t < window_hi E w \<longrightarrow> window_look E ?v t = window_look E w t"
    using win.rotate_look [OF assms(3) le] by blast
  ultimately show ?thesis
    using run_rotate_storage [OF assms(1,2) sh(1,2)] inv lo hi rotate_world_sel(3) by blast
qed

theorem rotate_storage_spec_witness:
  "\<exists>v. run (mulle_aba_world_rotate_storage sample_ext 0 64) sample_reuse
      = Ok () (sample_reuse\<lparr>worlds := (worlds sample_reuse)(64 \<mapsto> v)\<rparr>) \<and> unat (w_offset v) = 4"
proof -
  have "window_invar sample_ext sample_world" "window_hi sample_ext sample_world + n_entries sample_ext < 2 ^ 63"
    "unat (w_offset sample_world) + n_entries sample_ext = 4"
    using sample_reuse_pre
    by (simp_all add: reuse_pre_def at_end_def window_hi_def sample_world_def sample_ext_def n_entries_def)
  with rotate_storage_spec [of 64 sample_reuse sample_world sample_ext 0] show ?thesis
    by (auto simp: sample_reuse_def)
qed

text \<open>C28: Counting the storages that could be reused gives the number of unused storages before that
  of the current timestamp, and is not zero exactly when reuse would succeed.\<close>

theorem count_reusable_spec:
  assumes "a \<noteq> 0" "worlds s a = Some w" "reuse_pre E s w f"
  shows "\<exists>c. run (mulle_aba_world_count_available_reusable_storages E th a) s = Ok (word_of_nat c) s
    \<and> c = card {i. i < unat (w_n w) - 1 \<and> unused s (w_storage w ! i)}
    \<and> ((word_of_nat c :: uint) \<noteq> 0 \<longleftrightarrow> (\<exists>r u. run (mulle_aba_world_reuse_storages E th a) s = Ok r u \<and> r \<noteq> 0))"
proof -
  let ?n = "unat (w_n w)" and ?c = "min f (unat (w_n w) - 1)"
  have fp: "free_prefix s w f" "0 < ?n" using assms(3) unfolding reuse_pre_def at_end_def window_invar_def by blast+
  then have "{i. i < ?n - 1 \<and> unused s (w_storage w ! i)} = {0..<?c}"
    by (auto simp: free_prefix_def)
  then have card: "?c = card {i. i < ?n - 1 \<and> unused s (w_storage w ! i)}" by simp
  obtain r where r: "run (mulle_aba_world_reuse_storages E th a) s
      = Ok (word_of_nat r) (s\<lparr>worlds := (worlds s)(a \<mapsto> (rotate_world E ^^ r) w)\<rparr>)"
    "r \<le> f" "r < ?n" "0 < f \<and> 1 < ?n \<Longrightarrow> 0 < r"
    using run_reuse_storages [OF assms] by blast
  have nz: "(word_of_nat k :: uint) \<noteq> 0 \<longleftrightarrow> k \<noteq> 0" if "k < ?n" for k
  proof -
    have "unat (word_of_nat k :: uint) = k" using less_trans [OF that unat_lt_32] by (rule unat_of_nat_32)
    then show ?thesis by (metis unat_0 unat_eq_zero)
  qed
  have "?c \<noteq> 0 \<longleftrightarrow> r \<noteq> 0" using r(2-4) fp(2) by (cases "f = 0"; cases "?n = 1") auto
  then have "(word_of_nat ?c :: uint) \<noteq> 0 \<longleftrightarrow> (word_of_nat r :: uint) \<noteq> 0"
    using nz [of ?c] nz [of r] r(3) fp(2) by (simp add: min_less_iff_disj)
  with r(1) run_count_storages [OF assms] card show ?thesis by (intro exI [of _ ?c]) simp
qed

theorem count_reusable_spec_witness:
  "\<exists>c. run (mulle_aba_world_count_available_reusable_storages sample_ext 0 64) sample_reuse = Ok (word_of_nat c) sample_reuse
    \<and> c = card {i. i < unat (w_n sample_world) - 1 \<and> unused sample_reuse (w_storage sample_world ! i)}"
proof -
  have "worlds sample_reuse 64 = Some sample_world" by (simp add: sample_reuse_def)
  then show ?thesis using count_reusable_spec [OF _ _ sample_reuse_pre, of 64 0] by auto
qed

end
