(* ===== verification/Aba_Storage.thy ===== *)
theory Aba_Storage
  imports Aba_Window
begin

text \<open>
  The storage (\<open>struct _mulle_aba_storage\<close>): the world pointer, the caches of free worlds and free
  entries, the list of leaked worlds; how entries and worlds are taken from the caches and put
  back, how a list of delayed pointers is freed, how references to a range of timestamps are given
  up, initialisation and teardown.
\<close>

section \<open>Lock-free lists of the storage\<close>

definition pick :: "ext \<Rightarrow> uptr list \<Rightarrow> uptr" where
  "pick E xs = (case x_remove_one E xs of None \<Rightarrow> 0 | Some (x, ys) \<Rightarrow> x)"

definition rest :: "ext \<Rightarrow> uptr list \<Rightarrow> uptr list" where
  "rest E xs = (case x_remove_one E xs of None \<Rightarrow> xs | Some (x, ys) \<Rightarrow> ys)"

definition upd_free_entries :: "(uptr list \<Rightarrow> uptr list) \<Rightarrow> mem \<Rightarrow> mem" where
  "upd_free_entries f s = s\<lparr>q := (q s)\<lparr>q_free_entries := f (q_free_entries (q s))\<rparr>\<rparr>"

definition upd_free_worlds :: "(uptr list \<Rightarrow> uptr list) \<Rightarrow> mem \<Rightarrow> mem" where
  "upd_free_worlds f s = s\<lparr>q := (q s)\<lparr>q_free_worlds := f (q_free_worlds (q s))\<rparr>\<rparr>"

definition upd_leaks :: "(uptr list \<Rightarrow> uptr list) \<Rightarrow> mem \<Rightarrow> mem" where
  "upd_leaks f s = s\<lparr>q := (q s)\<lparr>q_leaks := f (q_leaks (q s))\<rparr>\<rparr>"

definition free_entries_remove_one :: "ext \<Rightarrow> (mem, uptr) prog" where
  "free_entries_remove_one E =
     Act (upd_free_entries (rest E)) (\<lambda>s. Ret (pick E (q_free_entries (q s))))"

definition free_worlds_remove_one :: "ext \<Rightarrow> (mem, uptr) prog" where
  "free_worlds_remove_one E =
     Act (upd_free_worlds (rest E)) (\<lambda>s. Ret (pick E (q_free_worlds (q s))))"

section \<open>Free entries\<close>

definition mulle_aba_freeentry_set :: "uptr \<Rightarrow> fnptr \<Rightarrow> uptr \<Rightarrow> uptr \<Rightarrow> (mem, unit) prog" where
  "mulle_aba_freeentry_set entry p_free pointer owner =
     store_entry entry (\<lambda>e. e\<lparr>fe_owner := owner, fe_pointer := pointer, fe_free := Some p_free\<rparr>)"

definition assert_entry :: "ext \<Rightarrow> uptr \<Rightarrow> (freeentry \<Rightarrow> bool) \<Rightarrow> (mem, unit) prog" where
  "assert_entry E entry P =
     (if ndebug E then skip else bnd (load_entry entry) (\<lambda>e. c_assert E (P e)))"

definition mulle_aba_storage_alloc_freeentry :: "ext \<Rightarrow> (mem, uptr) prog" where
  "mulle_aba_storage_alloc_freeentry E =
     bnd (free_entries_remove_one E) (\<lambda>entry.
       if entry \<noteq> 0
       then bnd (store_entry entry (\<lambda>e. e\<lparr>fe_link := 0\<rparr>)) (\<lambda>_.
            bnd (assert_entry E entry (\<lambda>e. fe_free e = None \<and> fe_owner e = 0 \<and> fe_pointer e = 0)) (\<lambda>_.
            Ret entry))
       else bnd (calloc_entry E) (\<lambda>entry.
            bnd (c_assert E (entry \<noteq> 0)) (\<lambda>_.
            bnd (assert_entry E entry (\<lambda>e. e = zero_entry)) (\<lambda>_.
            Ret entry))))"

definition mulle_aba_storage_free_freeentry :: "ext \<Rightarrow> uptr \<Rightarrow> (mem, unit) prog" where
  "mulle_aba_storage_free_freeentry E entry =
     bnd (store_entry entry (\<lambda>_. zero_entry)) (\<lambda>_.
     modify (upd_free_entries (x_add E entry)))"

section \<open>Worlds\<close>

fun mulle_aba_storage_alloc_world :: "ext \<Rightarrow> tid \<Rightarrow> nat \<Rightarrow> uint \<Rightarrow> (mem, uptr) prog" where
  "mulle_aba_storage_alloc_world E th 0 sz = Crash Out_of_fuel"
| "mulle_aba_storage_alloc_world E th (Suc fuel) sz =
     bnd (c_assert E (sz \<noteq> 0)) (\<lambda>_.
     bnd (free_worlds_remove_one E) (\<lambda>world.
       if world \<noteq> 0
       then bnd (load_world world) (\<lambda>w.
              if sz \<le> w_size w then Ret world
              else bnd (dealloc_world world) (\<lambda>_.
                   mulle_aba_storage_alloc_world E th fuel sz))
       else bnd (calloc_world E (unat sz)) (\<lambda>world.
            bnd (c_assert E (world \<noteq> 0)) (\<lambda>_.
            bnd (store_world world (\<lambda>w. w\<lparr>w_size := sz\<rparr>)) (\<lambda>_.
            bnd (load_world world) (\<lambda>w.
            bnd (c_assert E (w_link w = 0)) (\<lambda>_.
            bnd (mulle_aba_world_assert_sanity E th world) (\<lambda>_.
            Ret world))))))))"

text \<open>\<open>memset( world, 0, _mulle_aba_world_get_size( world))\<close>: the header, \<open>_size\<close> included, and
  the first \<open>_size\<close> slots are cleared.\<close>

definition clear_world :: "world \<Rightarrow> world" where
  "clear_world w = \<lparr>w_link = 0, w_timestamp = 0, w_n_threads = 0, w_offset = 0, w_size = 0, w_n = 0,
     w_storage = replicate (unat (w_size w)) 0 @ drop (unat (w_size w)) (w_storage w)\<rparr>"

definition mulle_aba_storage_free_world :: "ext \<Rightarrow> uptr \<Rightarrow> (mem, unit) prog" where
  "mulle_aba_storage_free_world E world =
     (if world = 0 then skip
      else bnd (load_world world) (\<lambda>w.
           check_bound (unat (w_size w) \<le> length (w_storage w)) (
           bnd (store_world world clear_world) (\<lambda>_.
           modify (upd_free_worlds (x_add E world))))))"

definition mulle_aba_storage_owned_pointer_free_world :: "ext \<Rightarrow> uptr \<Rightarrow> uptr \<Rightarrow> (mem, unit) prog" where
  "mulle_aba_storage_owned_pointer_free_world E world qp =
     bnd (c_assert E (qp \<noteq> 0)) (\<lambda>_.
     if world = 0 then skip
     else bnd (load_world world) (\<lambda>w.
          check_bound (unat (w_size w) \<le> length (w_storage w)) (
          bnd (store_world world clear_world) (\<lambda>_.
          modify (upd_free_worlds (x_add E world))))))"

definition mulle_aba_storage_add_leak_world :: "ext \<Rightarrow> uptr \<Rightarrow> (mem, unit) prog" where
  "mulle_aba_storage_add_leak_world E orphan = modify (upd_leaks (x_add E orphan))"

text \<open>\<open>remove_all\<close> takes the whole list; \<open>walk\<close> then visits its elements.\<close>

definition mulle_aba_storage_free_leak_worlds :: "(mem, unit) prog" where
  "mulle_aba_storage_free_leak_worlds =
     bnd (Act (upd_leaks (\<lambda>_. [])) (\<lambda>s. Ret (q_leaks (q s)))) (\<lambda>list. each dealloc_world list)"

definition mulle_aba_storage_free_unused_worlds :: "(mem, unit) prog" where
  "mulle_aba_storage_free_unused_worlds =
     bnd (Act (upd_free_worlds (\<lambda>_. [])) (\<lambda>s. Ret (q_free_worlds (q s)))) (\<lambda>list.
     each dealloc_world list)"

definition mulle_aba_storage_free_unused_free_entries :: "(mem, unit) prog" where
  "mulle_aba_storage_free_unused_free_entries =
     bnd (Act (upd_free_entries (\<lambda>_. [])) (\<lambda>s. Ret (q_free_entries (q s)))) (\<lambda>list.
     each dealloc_entry list)"

section \<open>Freeing delayed pointers\<close>

definition mulle_aba_no_owner_free :: "uptr \<Rightarrow> uptr \<Rightarrow> (mem, unit) prog" where
  "mulle_aba_no_owner_free pointer owner =
     (if owner = 0 then Crash Null_deref else modify (\<lambda>s. s\<lparr>trace := trace s @ [Call1 owner pointer]\<rparr>))"

text \<open>The call \<open>(*p_free)( pointer, owner)\<close> through a function pointer; \<open>Fn_client 0\<close> is NULL.\<close>

fun call_free :: "ext \<Rightarrow> fnptr \<Rightarrow> uptr \<Rightarrow> uptr \<Rightarrow> (mem, unit) prog" where
  "call_free E Fn_owned_pointer_free_world pointer owner =
     mulle_aba_storage_owned_pointer_free_world E pointer owner"
| "call_free E Fn_no_owner_free pointer owner = mulle_aba_no_owner_free pointer owner"
| "call_free E (Fn_client f) pointer owner =
     (if f = 0 then Crash Null_deref else modify (\<lambda>s. s\<lparr>trace := trace s @ [Call2 f pointer owner]\<rparr>))"

definition free_pointer_and_entry :: "ext \<Rightarrow> uptr \<Rightarrow> (mem, unit) prog" where
  "free_pointer_and_entry E entry =
     bnd (load_entry entry) (\<lambda>e.
     bnd (case fe_free e of None \<Rightarrow> Crash Null_deref
          | Some p_free \<Rightarrow> call_free E p_free (fe_pointer e) (fe_owner e)) (\<lambda>_.
     mulle_aba_storage_free_freeentry E entry))"

definition mulle_aba_storage_linkedlist_free :: "ext \<Rightarrow> uptr list \<Rightarrow> (mem, unit) prog" where
  "mulle_aba_storage_linkedlist_free E list = each (free_pointer_and_entry E) list"

text \<open>Giving up one reference to every timestamp from \<open>old\<close> to \<open>new\<close>.\<close>

fun check_timerange_loop :: "ext \<Rightarrow> tid \<Rightarrow> nat \<Rightarrow> uptr \<Rightarrow> uptr \<Rightarrow> uptr \<Rightarrow> (mem, unit) prog" where
  "check_timerange_loop E th 0 world timestamp new = Crash Out_of_fuel"
| "check_timerange_loop E th (Suc fuel) world timestamp new =
     (if new < timestamp then skip
      else bnd (mulle_aba_world_get_timestampstorage_index E th world timestamp) (\<lambda>ts_index.
           bnd (mulle_aba_world_get_timestampstorage_at_index E world ts_index) (\<lambda>ts_storage.
           bnd (c_assert E (ts_storage \<noteq> 0)) (\<lambda>_.
           let index = mulle_aba_timestampstorage_get_timestamp_index E timestamp in
           bnd (mulle_aba_timestampstorage_get_timestampentry_at_index E ts_storage index) (\<lambda>ts_entry.
           bnd (entry_decrement_rc ts_entry) (\<lambda>rc.
           if rc \<noteq> 0 then check_timerange_loop E th fuel world (timestamp + 1) new
           else bnd (entry_get_list ts_entry) (\<lambda>free_list.
                bnd (entry_clear_list ts_entry) (\<lambda>_.
                bnd (mulle_aba_timestampstorage_set_usage_bit E (Suc fuel) ts_storage index 0) (\<lambda>_.
                bnd (mulle_aba_storage_linkedlist_free E free_list) (\<lambda>_.
                check_timerange_loop E th fuel world (timestamp + 1) new))))))))))"

definition mulle_aba_world_check_timerange :: "ext \<Rightarrow> tid \<Rightarrow> nat \<Rightarrow> uptr \<Rightarrow> uptr \<Rightarrow> uptr \<Rightarrow> (mem, unit) prog" where
  "mulle_aba_world_check_timerange E th fuel world old new =
     bnd (load_world world) (\<lambda>w.
       if w_timestamp w = 0 then skip
       else bnd (mulle_aba_world_assert_sanity E th world) (\<lambda>_.
            check_timerange_loop E th fuel world old new))"

section \<open>Initialisation and teardown\<close>

definition empty_storage :: storage where
  "empty_storage = \<lparr>q_world = 0, q_allocator = 0, q_leaks = [], q_free_entries = [], q_free_worlds = []\<rparr>"

definition mulle_aba_storage_init :: "ext \<Rightarrow> tid \<Rightarrow> uptr \<Rightarrow> (mem, int) prog" where
  "mulle_aba_storage_init E th allocator =
     bnd (c_assert E (allocator \<noteq> 0)) (\<lambda>_.
     bnd (modify (\<lambda>s. s\<lparr>q := empty_storage\<lparr>q_allocator := allocator\<rparr>\<rparr>)) (\<lambda>_.
     bnd (mulle_aba_storage_alloc_world E th 1 (initial_size E)) (\<lambda>world.
       if world = 0 then bnd (c_assert E False) (\<lambda>_. Ret (- 1))
       else bnd (modify (set_q_world world)) (\<lambda>_. Ret 0))))"

text \<open>In debug builds the storage is overwritten with 0xAF bytes at the end; its lists are empty
  then, so only the world pointer changes.\<close>

definition mulle_aba_storage_done :: "ext \<Rightarrow> (mem, unit) prog" where
  "mulle_aba_storage_done E =
     bnd mulle_aba_storage_get_worldpointer (\<lambda>world_p.
     let world = get_struct world_p in
     bnd mulle_aba_storage_free_leak_worlds (\<lambda>_.
     bnd (mulle_aba_storage_free_world E world) (\<lambda>_.
     bnd mulle_aba_storage_free_unused_worlds (\<lambda>_.
     bnd mulle_aba_storage_free_unused_free_entries (\<lambda>_.
     if ndebug E then skip else modify (set_q_world 0xAFAFAFAFAFAFAFAF))))))"

definition mulle_aba_storage_is_setup :: "(mem, bool) prog" where
  "mulle_aba_storage_is_setup = reads (\<lambda>s. q_world (q s) \<noteq> 0)"

section \<open>Execution: free entries\<close>

lemma upd_simps [simp]:
  "q (upd_free_entries f s) = (q s)\<lparr>q_free_entries := f (q_free_entries (q s))\<rparr>"
  "worlds (upd_free_entries f s) = worlds s" "stores (upd_free_entries f s) = stores s"
  "entries (upd_free_entries f s) = entries s" "nops (upd_free_entries f s) = nops s"
  "tss (upd_free_entries f s) = tss s" "trace (upd_free_entries f s) = trace s"
  "q (upd_free_worlds f s) = (q s)\<lparr>q_free_worlds := f (q_free_worlds (q s))\<rparr>"
  "worlds (upd_free_worlds f s) = worlds s" "stores (upd_free_worlds f s) = stores s"
  "entries (upd_free_worlds f s) = entries s" "nops (upd_free_worlds f s) = nops s"
  "tss (upd_free_worlds f s) = tss s" "trace (upd_free_worlds f s) = trace s"
  "q (upd_leaks f s) = (q s)\<lparr>q_leaks := f (q_leaks (q s))\<rparr>"
  "worlds (upd_leaks f s) = worlds s" "stores (upd_leaks f s) = stores s"
  "entries (upd_leaks f s) = entries s" "nops (upd_leaks f s) = nops s"
  "tss (upd_leaks f s) = tss s" "trace (upd_leaks f s) = trace s"
  by (simp_all add: upd_free_entries_def upd_free_worlds_def upd_leaks_def)

lemma live_upd [simp]:
  "live (upd_free_entries f s) = live s" "live (upd_free_worlds f s) = live s" "live (upd_leaks f s) = live s"
  by (simp_all add: live_def fun_eq_iff)

text \<open>What the list of mulle-linkedlist promises, for lists of non-NULL elements.\<close>

lemma pick_rest:
  assumes "list_ok E" "xs \<noteq> []"
  shows "mset xs = add_mset (pick E xs) (mset (rest E xs))"
proof -
  have "x_remove_one E xs \<noteq> None" using assms by (simp add: list_ok_def)
  then obtain x ys where x: "x_remove_one E xs = Some (x, ys)" by auto
  then have "mset xs = add_mset x (mset ys)" using assms(1) unfolding list_ok_def by blast
  with x show ?thesis by (simp add: pick_def rest_def)
qed

lemma pick_in: "list_ok E \<Longrightarrow> xs \<noteq> [] \<Longrightarrow> pick E xs \<in> set xs"
  by (metis pick_rest set_mset_mset union_single_eq_member)

lemma rest_set: "list_ok E \<Longrightarrow> xs \<noteq> [] \<Longrightarrow> set xs = insert (pick E xs) (set (rest E xs))"
  by (metis pick_rest set_mset_add_mset_insert set_mset_mset)

lemma rest_distinct:
  assumes "list_ok E" "xs \<noteq> []" "distinct xs"
  shows "distinct (rest E xs)" "pick E xs \<notin> set (rest E xs)"
proof -
  have "mset xs = mset (pick E xs # rest E xs)" using pick_rest [OF assms(1,2)] by simp
  with assms(3) have "distinct (pick E xs # rest E xs)" by (metis mset_eq_imp_distinct_iff)
  then show "distinct (rest E xs)" "pick E xs \<notin> set (rest E xs)" by simp_all
qed

lemma rest_length: "list_ok E \<Longrightarrow> xs \<noteq> [] \<Longrightarrow> length xs = Suc (length (rest E xs))"
  by (metis pick_rest size_add_mset size_mset)

lemma pick_Nil: "list_ok E \<Longrightarrow> pick E [] = 0 \<and> rest E [] = []"
proof -
  assume "list_ok E"
  then have "x_remove_one E [] = None" by (simp add: list_ok_def)
  then show ?thesis by (simp add: pick_def rest_def)
qed

lemma x_add_mset: "list_ok E \<Longrightarrow> mset (x_add E x xs) = add_mset x (mset xs)"
  by (simp add: list_ok_def)

lemma x_add_set: "list_ok E \<Longrightarrow> set (x_add E x xs) = insert x (set xs)"
  by (metis x_add_mset set_mset_add_mset_insert set_mset_mset)

lemma ext_ok_parts: "ext_ok E \<Longrightarrow> calloc_ok E" "ext_ok E \<Longrightarrow> list_ok E" "ext_ok E \<Longrightarrow> x_self E \<noteq> 0"
  by (simp_all add: ext_ok_def)

lemma run_freeentry_set [exec]:
  "a \<noteq> 0 \<Longrightarrow> entries s a = Some e \<Longrightarrow> run (mulle_aba_freeentry_set a f p owner) s =
     Ok () (s\<lparr>entries := (entries s)(a \<mapsto> e\<lparr>fe_owner := owner, fe_pointer := p, fe_free := Some f\<rparr>)\<rparr>)"
  by (simp add: mulle_aba_freeentry_set_def exec)

lemma run_assert_entry [exec]:
  "a \<noteq> 0 \<Longrightarrow> entries s a = Some e \<Longrightarrow> P e \<Longrightarrow> run (assert_entry E a P) s = Ok () s"
  by (simp add: assert_entry_def exec)

text \<open>A free entry comes from the cache while there is one, else from the allocator.\<close>

lemma run_alloc_freeentry_cached:
  assumes "list_ok E" "xs \<noteq> []" "q_free_entries (q s) = xs" "pick E xs \<noteq> 0"
    "entries s (pick E xs) = Some zero_entry"
  shows "run (mulle_aba_storage_alloc_freeentry E) s = Ok (pick E xs) (upd_free_entries (rest E) s)"
proof -
  have "zero_entry\<lparr>fe_link := 0\<rparr> = zero_entry" by (simp add: zero_entry_def)
  moreover have "(upd_free_entries (rest E) s)\<lparr>entries := (entries s)(pick E xs \<mapsto> zero_entry)\<rparr> = upd_free_entries (rest E) s"
    using assms(5) by (simp add: upd_free_entries_def fun_upd_idem)
  ultimately show ?thesis
    using assms by (simp add: mulle_aba_storage_alloc_freeentry_def free_entries_remove_one_def exec zero_entry_def)
qed

lemma run_alloc_freeentry_new:
  assumes "list_ok E" "q_free_entries (q s) = []" "calloc_at E s \<noteq> 0"
  shows "run (mulle_aba_storage_alloc_freeentry E) s = Ok (calloc_at E s)
    (s\<lparr>nops := Suc (nops s), entries := (entries s)(calloc_at E s \<mapsto> zero_entry)\<rparr>)"
proof -
  have "upd_free_entries (rest E) s = s"
    using assms(1,2) pick_Nil by (simp add: upd_free_entries_def)
  then show ?thesis
    using assms pick_Nil by (simp add: mulle_aba_storage_alloc_freeentry_def free_entries_remove_one_def exec)
qed

lemma run_free_freeentry [exec]:
  "a \<noteq> 0 \<Longrightarrow> entries s a = Some e \<Longrightarrow> run (mulle_aba_storage_free_freeentry E a) s =
     Ok () (upd_free_entries (x_add E a) (s\<lparr>entries := (entries s)(a \<mapsto> zero_entry)\<rparr>))"
  by (simp add: mulle_aba_storage_free_freeentry_def exec)

text \<open>The cache of free entries holds cleared entries.\<close>

definition entries_cached :: "mem \<Rightarrow> bool" where
  "entries_cached s \<longleftrightarrow> (\<forall>e \<in> set (q_free_entries (q s)). e \<noteq> 0 \<and> entries s e = Some zero_entry)"

lemma run_alloc_freeentry:
  assumes "ext_ok E" "room E s (Suc k)" "entries_cached s"
  obtains e m xs where "run (mulle_aba_storage_alloc_freeentry E) s = Ok e
      (s\<lparr>nops := m, entries := (entries s)(e \<mapsto> zero_entry), q := (q s)\<lparr>q_free_entries := xs\<rparr>\<rparr>)"
    "e \<noteq> 0" "(entries s e = Some zero_entry \<and> mset (q_free_entries (q s)) = add_mset e (mset xs))
      \<or> (entries s e = None \<and> q_free_entries (q s) = [] \<and> xs = [] \<and> \<not> live s e)"
proof (cases "q_free_entries (q s) = []")
  case True
  note fresh = calloc_at_fresh [OF ext_ok_parts(1) [OF assms(1)] assms(2)]
  have "s\<lparr>nops := Suc (nops s), entries := (entries s)(calloc_at E s \<mapsto> zero_entry), q := (q s)\<lparr>q_free_entries := []\<rparr>\<rparr>
    = s\<lparr>nops := Suc (nops s), entries := (entries s)(calloc_at E s \<mapsto> zero_entry)\<rparr>"
    using True by simp
  with run_alloc_freeentry_new [OF ext_ok_parts(2) [OF assms(1)] True fresh(1)] True fresh
  show ?thesis by (intro that [where e = "calloc_at E s" and m = "Suc (nops s)" and xs = "[]"]) (auto simp: live_def)
next
  case False
  note p = pick_in [OF ext_ok_parts(2) [OF assms(1)] False]
  then have e: "pick E (q_free_entries (q s)) \<noteq> 0" "entries s (pick E (q_free_entries (q s))) = Some zero_entry"
    using assms(3) by (simp_all add: entries_cached_def)
  have "s\<lparr>nops := nops s, entries := (entries s)(pick E (q_free_entries (q s)) \<mapsto> zero_entry),
      q := (q s)\<lparr>q_free_entries := rest E (q_free_entries (q s))\<rparr>\<rparr> = upd_free_entries (rest E) s"
    using e(2) by (simp add: upd_free_entries_def fun_upd_idem)
  with run_alloc_freeentry_cached [OF ext_ok_parts(2) [OF assms(1)] False refl e]
    pick_rest [OF ext_ok_parts(2) [OF assms(1)] False] e
  show ?thesis
    by (intro that [where e = "pick E (q_free_entries (q s))" and m = "nops s"
        and xs = "rest E (q_free_entries (q s))"]) simp_all
qed

section \<open>Execution: worlds\<close>

lemma clear_world_sel [simp]:
  "w_size (clear_world w) = 0" "w_n (clear_world w) = 0" "w_link (clear_world w) = 0"
  "w_timestamp (clear_world w) = 0" "w_n_threads (clear_world w) = 0" "w_offset (clear_world w) = 0"
  by (simp_all add: clear_world_def)

lemma run_free_world [exec]:
  assumes "a \<noteq> 0" "worlds s a = Some w" "unat (w_size w) \<le> length (w_storage w)"
  shows "run (mulle_aba_storage_free_world E a) s =
    Ok () (upd_free_worlds (x_add E a) (s\<lparr>worlds := (worlds s)(a \<mapsto> clear_world w)\<rparr>))"
  using assms by (simp add: mulle_aba_storage_free_world_def exec check_bound_def)

lemma run_owned_pointer_free_world [exec]:
  assumes "a \<noteq> 0" "worlds s a = Some w" "unat (w_size w) \<le> length (w_storage w)" "qp \<noteq> 0"
  shows "run (mulle_aba_storage_owned_pointer_free_world E a qp) s =
    Ok () (upd_free_worlds (x_add E a) (s\<lparr>worlds := (worlds s)(a \<mapsto> clear_world w)\<rparr>))"
  using assms by (simp add: mulle_aba_storage_owned_pointer_free_world_def exec check_bound_def)

text \<open>Every world in the cache has size 0: both functions that put worlds there clear the size. So
  no cached world is ever large enough; \<open>alloc_world\<close> frees them all and asks the allocator.\<close>

definition worlds_cached :: "mem \<Rightarrow> bool" where
  "worlds_cached s \<longleftrightarrow> distinct (q_free_worlds (q s)) \<and> (\<forall>a \<in> set (q_free_worlds (q s)).
     a \<noteq> 0 \<and> (\<exists>w. worlds s a = Some w \<and> w_size w = 0))"

definition drained :: "mem \<Rightarrow> mem" where
  "drained s = s\<lparr>worlds := (worlds s) |` (- set (q_free_worlds (q s))), q := (q s)\<lparr>q_free_worlds := []\<rparr>\<rparr>"

lemma drained_sel [simp]:
  "stores (drained s) = stores s" "entries (drained s) = entries s" "nops (drained s) = nops s"
  "tss (drained s) = tss s" "errno (drained s) = errno s" "trace (drained s) = trace s"
  "tss_key (drained s) = tss_key s" "aba_global (drained s) = aba_global s"
  "allocator_aba (drained s) = allocator_aba s"
  "q (drained s) = (q s)\<lparr>q_free_worlds := []\<rparr>"
  "worlds (drained s) = (worlds s) |` (- set (q_free_worlds (q s)))"
  by (simp_all add: drained_def)

lemma drained_Nil: "q_free_worlds (q s) = [] \<Longrightarrow> drained s = s"
proof -
  assume "q_free_worlds (q s) = []"
  moreover from this have "(q s)\<lparr>q_free_worlds := []\<rparr> = q s" by simp
  ultimately show ?thesis by (simp add: drained_def restrict_map_def)
qed

lemma drained_worlds: "worlds_cached s \<Longrightarrow> worlds s a = Some w \<Longrightarrow> w_size w \<noteq> 0 \<Longrightarrow> worlds (drained s) a = Some w"
  by (auto simp: worlds_cached_def restrict_map_def)

lemma run_sanity_zero:
  assumes "a \<noteq> 0" "worlds s a = Some w" "w_timestamp w = 0" "w_offset w = 0" "w_size w \<noteq> 0" "w_n w = 0"
  shows "run (mulle_aba_world_assert_sanity E th a) s = Ok () s"
  using assms by (simp add: mulle_aba_world_assert_sanity_def exec)

definition new_world_of :: "uint \<Rightarrow> world" where
  "new_world_of sz = (zero_world (unat sz))\<lparr>w_size := sz\<rparr>"

lemma new_world_of_sel [simp]:
  "w_size (new_world_of sz) = sz" "w_n (new_world_of sz) = 0" "w_link (new_world_of sz) = 0"
  "w_timestamp (new_world_of sz) = 0" "w_offset (new_world_of sz) = 0" "w_n_threads (new_world_of sz) = 0"
  "w_storage (new_world_of sz) = replicate (unat sz) 0"
  by (simp_all add: new_world_of_def zero_world_def)

lemma run_alloc_drains:
  assumes "list_ok E" "worlds_cached s" "sz \<noteq> 0" "length (q_free_worlds (q s)) < fuel"
  obtains g where "run (mulle_aba_storage_alloc_world E th fuel sz) s = run (mulle_aba_storage_alloc_world E th (Suc g) sz) (drained s)"
proof -
  have "\<exists>g. run (mulle_aba_storage_alloc_world E th fuel sz) s = run (mulle_aba_storage_alloc_world E th (Suc g) sz) (drained s)"
    using assms(2,4)
  proof (induction fuel arbitrary: s)
    case 0
    then show ?case by simp
  next
    case (Suc fuel)
    show ?case
    proof (cases "q_free_worlds (q s) = []")
      case True
      then show ?thesis by (intro exI [of _ fuel]) (simp only: drained_Nil)
    next
      case False
      let ?x = "pick E (q_free_worlds (q s))" and ?t = "upd_free_worlds (rest E) s"
      let ?u = "?t\<lparr>worlds := (worlds s)(?x := None)\<rparr>"
      note x = pick_in [OF assms(1) False] rest_set [OF assms(1) False]
        rest_length [OF assms(1) False]
      have d: "distinct (rest E (q_free_worlds (q s)))" "?x \<notin> set (rest E (q_free_worlds (q s)))"
        using rest_distinct [OF assms(1) False] Suc.prems(1) by (auto simp: worlds_cached_def)
      obtain w where w: "worlds s ?x = Some w" "w_size w = 0" "?x \<noteq> 0"
        using Suc.prems(1) x(1) by (auto simp: worlds_cached_def)
      have c: "worlds_cached ?u"
        using Suc.prems(1) d x(2) unfolding worlds_cached_def by auto
      have *: "worlds s |` (- set (q_free_worlds (q s))) = (worlds s)(?x := None) |` (- set (rest E (q_free_worlds (q s))))"
        unfolding x(2) using d(2) by (auto simp: restrict_map_def fun_eq_iff)
      then have dr: "drained ?u = drained s" by (simp add: drained_def upd_free_worlds_def)
      have len: "length (q_free_worlds (q ?u)) < fuel" using Suc.prems(2) x(3) by simp
      have "\<not> sz \<le> w_size w" using w(2) assms(3) by (simp add: word_le_nat_alt unat_eq_zero)
      with w assms(3) have "run (mulle_aba_storage_alloc_world E th (Suc fuel) sz) s
        = run (mulle_aba_storage_alloc_world E th fuel sz) ?u"
        by (simp add: free_worlds_remove_one_def exec)
      with Suc.IH [OF c len] dr show ?thesis by simp
    qed
  qed
  then show ?thesis using that by blast
qed

lemma run_alloc_world:
  assumes "list_ok E" "worlds_cached s" "sz \<noteq> 0" "length (q_free_worlds (q s)) < fuel"
    and "calloc_at E (drained s) \<noteq> 0"
  shows "run (mulle_aba_storage_alloc_world E th fuel sz) s = Ok (calloc_at E (drained s))
    ((drained s)\<lparr>nops := Suc (nops s), worlds := (worlds (drained s))(calloc_at E (drained s) \<mapsto> new_world_of sz)\<rparr>)"
proof -
  obtain g where g: "run (mulle_aba_storage_alloc_world E th fuel sz) s = run (mulle_aba_storage_alloc_world E th (Suc g) sz) (drained s)"
    by (rule run_alloc_drains [OF assms(1-4)])
  have "q_free_worlds (q (drained s)) = []" by simp
  then have "upd_free_worlds (rest E) (drained s) = drained s" using pick_Nil [OF assms(1)] by (simp add: upd_free_worlds_def)
  moreover have nw: "new_world_of sz = \<lparr>w_link = 0, w_timestamp = 0, w_n_threads = 0, w_offset = 0,
    w_size = sz, w_n = 0, w_storage = replicate (unat sz) 0\<rparr>"
    by (simp add: new_world_of_def zero_world_def)
  ultimately show ?thesis
    unfolding g using assms(3,5) pick_Nil [OF assms(1)]
    by (simp add: free_worlds_remove_one_def exec run_sanity_zero zero_world_def [of "unat sz"] nw)
qed

section \<open>Execution: freeing whole lists\<close>

lemma run_each_dealloc_world:
  "\<lbrakk>distinct xs; \<forall>a \<in> set xs. worlds s a \<noteq> None\<rbrakk> \<Longrightarrow>
   run (each dealloc_world xs) s = Ok () (s\<lparr>worlds := worlds s |` (- set xs)\<rparr>)"
proof (induction xs arbitrary: s)
  case Nil
  have "worlds s |` UNIV = worlds s" by (simp add: restrict_map_def)
  then show ?case by simp
next
  case (Cons x xs)
  let ?t = "s\<lparr>worlds := (worlds s)(x := None)\<rparr>"
  have "worlds ?t |` (- set xs) = worlds s |` (- set (x # xs))" by (auto simp: restrict_map_def)
  moreover have "run (each dealloc_world xs) ?t = Ok () (?t\<lparr>worlds := worlds ?t |` (- set xs)\<rparr>)"
    using Cons.prems by (intro Cons.IH) auto
  ultimately show ?case using Cons.prems by (simp add: exec)
qed

lemma run_each_dealloc_entry:
  "\<lbrakk>distinct xs; \<forall>a \<in> set xs. entries s a \<noteq> None\<rbrakk> \<Longrightarrow>
   run (each dealloc_entry xs) s = Ok () (s\<lparr>entries := entries s |` (- set xs)\<rparr>)"
proof (induction xs arbitrary: s)
  case Nil
  have "entries s |` UNIV = entries s" by (simp add: restrict_map_def)
  then show ?case by simp
next
  case (Cons x xs)
  let ?t = "s\<lparr>entries := (entries s)(x := None)\<rparr>"
  have "entries ?t |` (- set xs) = entries s |` (- set (x # xs))" by (auto simp: restrict_map_def)
  moreover have "run (each dealloc_entry xs) ?t = Ok () (?t\<lparr>entries := entries ?t |` (- set xs)\<rparr>)"
    using Cons.prems by (intro Cons.IH) auto
  ultimately show ?case using Cons.prems by (simp add: exec)
qed

lemma run_free_unchecked [exec]:
  "run (mulle_aba_timestampstorage_free_unchecked 0) s = Ok () s"
  "a \<noteq> 0 \<Longrightarrow> stores s a \<noteq> None \<Longrightarrow>
   run (mulle_aba_timestampstorage_free_unchecked a) s = Ok () (s\<lparr>stores := (stores s)(a := None)\<rparr>)"
  by (simp_all add: mulle_aba_timestampstorage_free_unchecked_def exec)

lemma run_each_dealloc_ts:
  "\<lbrakk>distinct (filter (\<lambda>a. a \<noteq> 0) xs); \<forall>a \<in> set xs. a \<noteq> 0 \<longrightarrow> stores s a \<noteq> None\<rbrakk> \<Longrightarrow>
   run (each mulle_aba_timestampstorage_free_unchecked xs) s = Ok () (s\<lparr>stores := stores s |` (- (set xs - {0}))\<rparr>)"
proof (induction xs arbitrary: s)
  case Nil
  have "stores s |` UNIV = stores s" by (simp add: restrict_map_def)
  then show ?case by simp
next
  case (Cons x xs)
  show ?case
  proof (cases "x = 0")
    case True
    then have "set (x # xs) - {0} = set xs - {0}" by simp
    moreover have "run (each mulle_aba_timestampstorage_free_unchecked xs) s
      = Ok () (s\<lparr>stores := stores s |` (- (set xs - {0}))\<rparr>)" using Cons.prems True by (intro Cons.IH) auto
    ultimately show ?thesis using True by (simp add: exec)
  next
    case False
    let ?t = "s\<lparr>stores := (stores s)(x := None)\<rparr>"
    have "stores ?t |` (- (set xs - {0})) = stores s |` (- (set (x # xs) - {0}))"
      using False by (auto simp: restrict_map_def)
    moreover have "run (each mulle_aba_timestampstorage_free_unchecked xs) ?t
      = Ok () (?t\<lparr>stores := stores ?t |` (- (set xs - {0}))\<rparr>)"
      using Cons.prems False by (intro Cons.IH) auto
    ultimately show ?thesis
      using False Cons.prems by (simp add: exec)
  qed
qed

lemma run_free_leak_worlds:
  assumes "distinct (q_leaks (q s))" "\<forall>a \<in> set (q_leaks (q s)). worlds s a \<noteq> None"
  shows "run mulle_aba_storage_free_leak_worlds s =
    Ok () (upd_leaks (\<lambda>_. []) (s\<lparr>worlds := worlds s |` (- set (q_leaks (q s)))\<rparr>))"
  using assms by (simp add: mulle_aba_storage_free_leak_worlds_def exec run_each_dealloc_world upd_leaks_def)

lemma run_free_unused_worlds:
  assumes "distinct (q_free_worlds (q s))" "\<forall>a \<in> set (q_free_worlds (q s)). worlds s a \<noteq> None"
  shows "run mulle_aba_storage_free_unused_worlds s = Ok () (drained s)"
  using assms
  by (simp add: mulle_aba_storage_free_unused_worlds_def exec run_each_dealloc_world upd_free_worlds_def drained_def)

lemma run_free_unused_free_entries:
  assumes "distinct (q_free_entries (q s))" "\<forall>a \<in> set (q_free_entries (q s)). entries s a \<noteq> None"
  shows "run mulle_aba_storage_free_unused_free_entries s =
    Ok () (upd_free_entries (\<lambda>_. []) (s\<lparr>entries := entries s |` (- set (q_free_entries (q s)))\<rparr>))"
  using assms
  by (simp add: mulle_aba_storage_free_unused_free_entries_def exec run_each_dealloc_entry upd_free_entries_def)

section \<open>Execution: freeing delayed pointers\<close>

text \<open>The calls of client functions and the retired worlds an entry stands for.\<close>

definition client_calls :: "freeentry \<Rightarrow> event list" where
  "client_calls e = (case fe_free e of Some Fn_no_owner_free \<Rightarrow> [Call1 (fe_owner e) (fe_pointer e)]
     | Some (Fn_client f) \<Rightarrow> [Call2 f (fe_pointer e) (fe_owner e)] | _ \<Rightarrow> [])"

definition world_ptrs :: "freeentry \<Rightarrow> uptr list" where
  "world_ptrs e = (if fe_free e = Some Fn_owned_pointer_free_world then [fe_pointer e] else [])"

text \<open>The function and its owner can be called: neither is NULL where it is used.\<close>

primrec fn_ok :: "fnptr \<Rightarrow> uptr \<Rightarrow> bool" where
  "fn_ok Fn_owned_pointer_free_world owner \<longleftrightarrow> owner \<noteq> 0"
| "fn_ok Fn_no_owner_free owner \<longleftrightarrow> owner \<noteq> 0"
| "fn_ok (Fn_client f) owner \<longleftrightarrow> f \<noteq> 0"

lemma fn_ok_not_null: "fn_ok f owner \<Longrightarrow> f \<noteq> Fn_client 0"
  by auto

definition callable :: "mem \<Rightarrow> freeentry \<Rightarrow> bool" where
  "callable s e \<longleftrightarrow> fe_free e \<noteq> None \<and> fn_ok (the (fe_free e)) (fe_owner e) \<and> (fe_free e = Some Fn_owned_pointer_free_world \<longrightarrow>
     fe_pointer e \<noteq> 0 \<and>
     (\<exists>w. worlds s (fe_pointer e) = Some w \<and> unat (w_size w) \<le> length (w_storage w)))"

definition calls_of :: "mem \<Rightarrow> uptr list \<Rightarrow> event list" where
  "calls_of s xs = concat (map (\<lambda>x. client_calls (the (entries s x))) xs)"

definition worlds_of :: "mem \<Rightarrow> uptr list \<Rightarrow> uptr list" where
  "worlds_of s xs = concat (map (\<lambda>x. world_ptrs (the (entries s x))) xs)"

definition cleared :: "uptr list \<Rightarrow> (uptr \<Rightarrow> world option) \<Rightarrow> uptr \<Rightarrow> world option" where
  "cleared ps W = (\<lambda>a. if a \<in> set ps then map_option clear_world (W a) else W a)"

definition zeroed :: "uptr list \<Rightarrow> (uptr \<Rightarrow> freeentry option) \<Rightarrow> uptr \<Rightarrow> freeentry option" where
  "zeroed xs N = (\<lambda>e. if e \<in> set xs then Some zero_entry else N e)"

lemma clear_world_idem [simp]: "clear_world (clear_world w) = clear_world w"
  by (simp add: clear_world_def)

lemma cleared_Nil [simp]: "cleared [] W = W" and zeroed_Nil [simp]: "zeroed [] N = N"
  by (simp_all add: cleared_def zeroed_def)

lemma cleared_append: "cleared ps (cleared ps' W) = cleared (ps' @ ps) W"
  by (auto simp: cleared_def fun_eq_iff option.map_comp comp_def)

lemma cleared_single: "W a = Some w \<Longrightarrow> W(a \<mapsto> clear_world w) = cleared [a] W"
  by (auto simp: cleared_def)

lemma zeroed_Cons: "zeroed xs (N(x \<mapsto> zero_entry)) = zeroed (x # xs) N"
  by (auto simp: zeroed_def)

lemma run_free_pointer_and_entry:
  assumes "ext_ok E" "x \<noteq> 0" "entries s x = Some e" "callable s e"
  obtains X Y where "run (free_pointer_and_entry E x) s = Ok () (s\<lparr>worlds := cleared (world_ptrs e) (worlds s),
      entries := (entries s)(x \<mapsto> zero_entry), q := (q s)\<lparr>q_free_entries := X, q_free_worlds := Y\<rparr>,
      trace := trace s @ client_calls e\<rparr>)"
    "mset X = add_mset x (mset (q_free_entries (q s)))" "mset Y = mset (world_ptrs e) + mset (q_free_worlds (q s))"
proof (cases "fe_free e = Some Fn_owned_pointer_free_world")
  case True
  with assms(4) obtain w where w: "worlds s (fe_pointer e) = Some w" "unat (w_size w) \<le> length (w_storage w)"
    "fe_pointer e \<noteq> 0" "fe_owner e \<noteq> 0" by (auto simp: callable_def)
  have "run (free_pointer_and_entry E x) s = Ok () (s\<lparr>worlds := cleared (world_ptrs e) (worlds s),
      entries := (entries s)(x \<mapsto> zero_entry), q := (q s)\<lparr>q_free_entries := x_add E x (q_free_entries (q s)),
        q_free_worlds := x_add E (fe_pointer e) (q_free_worlds (q s))\<rparr>, trace := trace s @ client_calls e\<rparr>)"
    using assms(2,3) True w cleared_single [of "worlds s", OF w(1)]
    by (simp add: free_pointer_and_entry_def exec client_calls_def world_ptrs_def
        upd_free_entries_def upd_free_worlds_def)
  with True x_add_mset [OF ext_ok_parts(2) [OF assms(1)]] show ?thesis
    by (intro that [where X = "x_add E x (q_free_entries (q s))" and Y = "x_add E (fe_pointer e) (q_free_worlds (q s))"])
      (simp_all add: world_ptrs_def)
next
  case False
  have "run (free_pointer_and_entry E x) s = Ok () (s\<lparr>worlds := cleared (world_ptrs e) (worlds s),
      entries := (entries s)(x \<mapsto> zero_entry), q := (q s)\<lparr>q_free_entries := x_add E x (q_free_entries (q s)),
        q_free_worlds := q_free_worlds (q s)\<rparr>, trace := trace s @ client_calls e\<rparr>)"
    using assms(2-4) False
    by (auto simp: free_pointer_and_entry_def exec client_calls_def world_ptrs_def callable_def
        upd_free_entries_def mulle_aba_no_owner_free_def split: fnptr.splits)
  with False x_add_mset [OF ext_ok_parts(2) [OF assms(1)]] show ?thesis
    by (intro that [where X = "x_add E x (q_free_entries (q s))" and Y = "q_free_worlds (q s)"])
      (simp_all add: world_ptrs_def)
qed

lemma callable_mono:
  "callable s e \<Longrightarrow> worlds t = cleared ps (worlds s) \<Longrightarrow> callable t e"
  by (auto simp: callable_def cleared_def clear_world_def)

lemma run_linkedlist_free:
  assumes "ext_ok E"
  shows "\<lbrakk>distinct xs; \<forall>x \<in> set xs. x \<noteq> 0 \<and> (\<exists>e. entries s x = Some e \<and> callable s e)\<rbrakk> \<Longrightarrow>
    \<exists>X Y. run (mulle_aba_storage_linkedlist_free E xs) s = Ok () (s\<lparr>worlds := cleared (worlds_of s xs) (worlds s),
        entries := zeroed xs (entries s), q := (q s)\<lparr>q_free_entries := X, q_free_worlds := Y\<rparr>,
        trace := trace s @ calls_of s xs\<rparr>)
      \<and> mset X = mset xs + mset (q_free_entries (q s))
      \<and> mset Y = mset (worlds_of s xs) + mset (q_free_worlds (q s))"
proof (induction xs arbitrary: s)
  case Nil
  have "(q s)\<lparr>q_free_entries := q_free_entries (q s), q_free_worlds := q_free_worlds (q s)\<rparr> = q s" by simp
  then have "s = s\<lparr>worlds := cleared [] (worlds s), entries := zeroed [] (entries s),
     q := (q s)\<lparr>q_free_entries := q_free_entries (q s), q_free_worlds := q_free_worlds (q s)\<rparr>, trace := trace s @ []\<rparr>" by simp
  then show ?case
    by (intro exI [of _ "q_free_entries (q s)"] exI [of _ "q_free_worlds (q s)"])
      (simp add: mulle_aba_storage_linkedlist_free_def worlds_of_def calls_of_def)
next
  case (Cons x xs)
  obtain e where e: "x \<noteq> 0" "entries s x = Some e" "callable s e" using Cons.prems by auto
  obtain X Y where r: "run (free_pointer_and_entry E x) s = Ok () (s\<lparr>worlds := cleared (world_ptrs e) (worlds s),
      entries := (entries s)(x \<mapsto> zero_entry), q := (q s)\<lparr>q_free_entries := X, q_free_worlds := Y\<rparr>,
      trace := trace s @ client_calls e\<rparr>)"
    and m: "mset X = add_mset x (mset (q_free_entries (q s)))" "mset Y = mset (world_ptrs e) + mset (q_free_worlds (q s))"
    using run_free_pointer_and_entry [OF assms e] by blast
  define t where "t = s\<lparr>worlds := cleared (world_ptrs e) (worlds s),
      entries := (entries s)(x \<mapsto> zero_entry), q := (q s)\<lparr>q_free_entries := X, q_free_worlds := Y\<rparr>,
      trace := trace s @ client_calls e\<rparr>"
  have same: "entries t y = entries s y" if "y \<in> set xs" for y
    using that Cons.prems(1) by (auto simp: t_def)
  have "\<forall>y \<in> set xs. y \<noteq> 0 \<and> (\<exists>e. entries t y = Some e \<and> callable t e)"
  proof
    fix y assume y: "y \<in> set xs"
    with Cons.prems(2) obtain e' where "y \<noteq> 0" "entries s y = Some e'" "callable s e'" by auto
    moreover have "callable t e'" by (rule callable_mono [OF \<open>callable s e'\<close>]) (simp add: t_def)
    ultimately show "y \<noteq> 0 \<and> (\<exists>e. entries t y = Some e \<and> callable t e)" using same [OF y] by simp
  qed
  moreover have "distinct xs" using Cons.prems(1) by simp
  ultimately obtain X' Y' where
    r': "run (mulle_aba_storage_linkedlist_free E xs) t = Ok () (t\<lparr>worlds := cleared (worlds_of t xs) (worlds t),
        entries := zeroed xs (entries t), q := (q t)\<lparr>q_free_entries := X', q_free_worlds := Y'\<rparr>,
        trace := trace t @ calls_of t xs\<rparr>)"
    and m': "mset X' = mset xs + mset (q_free_entries (q t))"
      "mset Y' = mset (worlds_of t xs) + mset (q_free_worlds (q t))"
    using Cons.IH by blast
  have w: "worlds_of s (x # xs) = world_ptrs e @ worlds_of t xs" "calls_of s (x # xs) = client_calls e @ calls_of t xs"
    using same e(2) by (simp_all add: worlds_of_def calls_of_def cong: map_cong)
  have "run (mulle_aba_storage_linkedlist_free E (x # xs)) s = run (mulle_aba_storage_linkedlist_free E xs) t"
    by (simp add: mulle_aba_storage_linkedlist_free_def exec r t_def [symmetric])
  also have "\<dots> = Ok () (s\<lparr>worlds := cleared (worlds_of s (x # xs)) (worlds s),
        entries := zeroed (x # xs) (entries s), q := (q s)\<lparr>q_free_entries := X', q_free_worlds := Y'\<rparr>,
        trace := trace s @ calls_of s (x # xs)\<rparr>)"
    unfolding r' w by (simp add: t_def cleared_append zeroed_Cons)
  finally show ?case
    using m m' w(1) by (intro exI [of _ X'] exI [of _ Y']) (simp add: t_def)
qed

section \<open>Execution: initialisation and teardown\<close>

lemma initial_size_nonzero [simp]: "initial_size E \<noteq> 0"
  by (simp add: initial_size_def)

lemma live_drained: "live (drained s) a \<Longrightarrow> live s a"
  by (auto simp: live_def restrict_map_def split: if_splits)

definition inited :: "mem \<Rightarrow> uptr \<Rightarrow> mem" where
  "inited s allocator = s\<lparr>q := empty_storage\<lparr>q_allocator := allocator\<rparr>\<rparr>"

lemma live_inited [simp]: "live (inited s al) a = live s a"
  by (simp add: live_def inited_def)

lemma run_storage_init:
  assumes "list_ok E" "allocator \<noteq> 0" "calloc_at E (inited s allocator) \<noteq> 0"
  shows "run (mulle_aba_storage_init E th allocator) s = Ok 0 (s\<lparr>nops := Suc (nops s),
     worlds := (worlds s)(calloc_at E (inited s allocator) \<mapsto> new_world_of (initial_size E)),
     q := empty_storage\<lparr>q_allocator := allocator, q_world := calloc_at E (inited s allocator)\<rparr>\<rparr>)"
proof -
  have e: "q_free_worlds (q (inited s allocator)) = []" by (simp add: inited_def empty_storage_def)
  then have c: "worlds_cached (inited s allocator)" by (simp add: worlds_cached_def)
  have l: "length (q_free_worlds (q (inited s allocator))) < 1" by (simp add: e)
  from run_alloc_world [OF assms(1) c initial_size_nonzero l] assms(3) drained_Nil [OF e]
  have al: "run (mulle_aba_storage_alloc_world E th 1 (initial_size E)) (inited s allocator) =
    Ok (calloc_at E (inited s allocator)) ((inited s allocator)\<lparr>nops := Suc (nops (inited s allocator)),
      worlds := (worlds (inited s allocator))(calloc_at E (inited s allocator) \<mapsto> new_world_of (initial_size E))\<rparr>)"
    by (simp del: mulle_aba_storage_alloc_world.simps)
  have "run (mulle_aba_storage_init E th allocator) s =
    (case run (mulle_aba_storage_alloc_world E th 1 (initial_size E)) (inited s allocator) of
       Fault f \<Rightarrow> Fault f
     | Ok w t \<Rightarrow> run (if w = 0 then bnd (c_assert E False) (\<lambda>_. Ret (- 1))
         else bnd (modify (set_q_world w)) (\<lambda>_. Ret 0)) t)"
    using assms(2) by (simp add: mulle_aba_storage_init_def exec inited_def [symmetric]
        del: mulle_aba_storage_alloc_world.simps split: outcome.split)
  with al assms(3) show ?thesis
    by (simp add: exec set_q_world_def) (simp add: inited_def empty_storage_def)
qed

section \<open>Properties\<close>

text \<open>C23: A freed world is never used again: \<open>_mulle_aba_storage_free_world\<close> clears the world's size
  with the rest before it puts it in the cache, so \<open>_mulle_aba_storage_alloc_world\<close>, which takes a
  cached world only if it is large enough, returns all cached worlds to the allocator and asks it
  for a new block, whatever size is asked for.\<close>

theorem freed_world_is_never_reused:
  assumes "ext_ok E" "a \<noteq> 0" "worlds s a = Some w" "unat (w_size w) \<le> length (w_storage w)"
    and "worlds_cached s" "a \<notin> set (q_free_worlds (q s))" "room E s 1"
    and "sz \<noteq> 0" "Suc (length (q_free_worlds (q s))) < fuel"
  shows "\<exists>t b u. run (mulle_aba_storage_free_world E a) s = Ok () t
    \<and> mset (q_free_worlds (q t)) = add_mset a (mset (q_free_worlds (q s)))
    \<and> run (mulle_aba_storage_alloc_world E th fuel sz) t = Ok b u
    \<and> nops u = Suc (nops t) \<and> q_free_worlds (q u) = []
    \<and> (\<forall>c \<in> set (q_free_worlds (q t)). c \<noteq> b \<longrightarrow> worlds u c = None)
    \<and> worlds u b = Some (new_world_of sz)"
proof -
  define t where "t = upd_free_worlds (x_add E a) (s\<lparr>worlds := (worlds s)(a \<mapsto> clear_world w)\<rparr>)"
  note l = ext_ok_parts(2) [OF assms(1)]
  have t: "run (mulle_aba_storage_free_world E a) s = Ok () t"
    using run_free_world [OF assms(2-4)] by (simp add: t_def)
  have m: "mset (q_free_worlds (q t)) = add_mset a (mset (q_free_worlds (q s)))"
    by (simp add: t_def x_add_mset [OF l])
  then have "mset (q_free_worlds (q t)) = mset (a # q_free_worlds (q s))" by simp
  then have dist: "distinct (q_free_worlds (q t))" and st: "set (q_free_worlds (q t)) = insert a (set (q_free_worlds (q s)))"
    and len: "length (q_free_worlds (q t)) = Suc (length (q_free_worlds (q s)))"
    using assms(5,6) by (metis distinct.simps(2) mset_eq_imp_distinct_iff worlds_cached_def,
      metis list.set(2) set_mset_mset, metis length_Cons size_mset)
  have c: "worlds_cached t"
    using dist assms(2,5,6) unfolding worlds_cached_def st by (auto simp: t_def)
  have "live (drained t) b \<Longrightarrow> live s b" for b
    using live_drained [of t b] assms(3) by (auto simp: t_def live_def split: if_splits)
  then have room: "room E (drained t) (Suc 0)" using assms(7) by (auto intro: room_less_live)
  have al: "calloc_at E (drained t) \<noteq> 0" using calloc_at_fresh(1) [OF ext_ok_parts(1) [OF assms(1)] room] .
  have f: "length (q_free_worlds (q t)) < fuel" using assms(9) len by simp
  have r: "run (mulle_aba_storage_alloc_world E th fuel sz) t = Ok (calloc_at E (drained t))
    ((drained t)\<lparr>nops := Suc (nops t), worlds := (worlds (drained t))(calloc_at E (drained t) \<mapsto> new_world_of sz)\<rparr>)"
    by (rule run_alloc_world [OF l c assms(8) f al])
  show ?thesis
    by (rule exI, rule exI, rule exI, rule conjI [OF t], rule conjI [OF m], rule conjI [OF r])
      (auto simp: restrict_map_def)
qed

theorem freed_world_is_never_reused_witness:
  "\<exists>t b u. run (mulle_aba_storage_free_world sample_ext 64) (sample_mem\<lparr>worlds := [64 \<mapsto> sample_world]\<rparr>) = Ok () t
    \<and> run (mulle_aba_storage_alloc_world sample_ext 0 2 1) t = Ok b u \<and> nops u = Suc (nops t)"
proof -
  let ?s = "sample_mem\<lparr>worlds := [64 \<mapsto> sample_world]\<rparr>"
  have "{a. live ?s a} = {64}" by (auto simp: live_def sample_mem_def split: if_splits)
  then have "room sample_ext ?s 1" by (simp add: room_def blocks_def sample_ext_def)
  moreover have "worlds_cached ?s" by (simp add: worlds_cached_def sample_mem_def)
  moreover have "unat (w_size sample_world) \<le> length (w_storage sample_world)" by (simp add: sample_world_def)
  moreover have "Suc (length (q_free_worlds (q ?s))) < 2" "64 \<notin> set (q_free_worlds (q ?s))"
    by (simp_all add: sample_mem_def)
  ultimately show ?thesis
    using freed_world_is_never_reused [OF ext_ok_sample, of 64 ?s sample_world 1 2 0] by simp blast
qed

text \<open>C24: Running out of memory is not survived: when the allocator has no room for a world, \<open>_mulle_aba_storage_alloc_world\<close> does not
  return NULL, as its callers expect, but stops at an assert, and without asserts writes the size through the NULL
  pointer.\<close>

theorem alloc_world_out_of_memory:
  assumes "list_ok E" "worlds_cached s" "sz \<noteq> 0" "length (q_free_worlds (q s)) < fuel" "calloc_at E (drained s) = 0"
  shows "run (mulle_aba_storage_alloc_world E th fuel sz) s = Fault (if ndebug E then Null_deref else Assert_failed)"
proof -
  obtain g where g: "run (mulle_aba_storage_alloc_world E th fuel sz) s = run (mulle_aba_storage_alloc_world E th (Suc g) sz) (drained s)"
    by (rule run_alloc_drains [OF assms(1-4)])
  have "upd_free_worlds (rest E) (drained s) = drained s" using pick_Nil [OF assms(1)] by (simp add: upd_free_worlds_def)
  then show ?thesis
    unfolding g using assms(3,5) pick_Nil [OF assms(1)]
    by (simp add: free_worlds_remove_one_def calloc_world_def store_world_def check_ptr_def run_c_assert exec)
qed

theorem alloc_world_out_of_memory_witness:
  "run (mulle_aba_storage_alloc_world (sample_ext\<lparr>x_calloc := \<lambda>_ _. 0\<rparr>) 0 1 4) sample_mem = Fault Assert_failed"
proof -
  let ?E = "sample_ext\<lparr>x_calloc := \<lambda>_ _. 0\<rparr>"
  have "list_ok ?E" using ext_ok_parts(2) [OF ext_ok_sample] by (simp add: list_ok_def pick_def rest_def)
  moreover have "worlds_cached sample_mem" "length (q_free_worlds (q sample_mem)) < 1" by (simp_all add: worlds_cached_def sample_mem_def)
  moreover have "calloc_at ?E (drained sample_mem) = 0" by (simp add: calloc_at_def)
  ultimately have "run (mulle_aba_storage_alloc_world ?E 0 1 4) sample_mem = Fault (if ndebug ?E then Null_deref else Assert_failed)"
    by (intro alloc_world_out_of_memory) simp_all
  then show ?thesis by (simp add: sample_ext_def)
qed

text \<open>C39: Free entries are recycled: after an entry was given back, the next request is served from
  the cache, without the allocator, by an entry in which every field is cleared.\<close>

theorem freeentry_recycled:
  assumes "ext_ok E" "a \<noteq> 0" "entries s a = Some e" "entries_cached s"
  shows "\<exists>t b u. run (mulle_aba_storage_free_freeentry E a) s = Ok () t
    \<and> run (mulle_aba_storage_alloc_freeentry E) t = Ok b u \<and> nops u = nops s
    \<and> b \<in> insert a (set (q_free_entries (q s))) \<and> entries u b = Some zero_entry
    \<and> add_mset b (mset (q_free_entries (q u))) = add_mset a (mset (q_free_entries (q s)))"
proof -
  define t where "t = upd_free_entries (x_add E a) (s\<lparr>entries := (entries s)(a \<mapsto> zero_entry)\<rparr>)"
  note l = ext_ok_parts(2) [OF assms(1)]
  have t: "run (mulle_aba_storage_free_freeentry E a) s = Ok () t"
    using run_free_freeentry [OF assms(2,3)] by (simp add: t_def)
  let ?xs = "q_free_entries (q t)"
  have m: "mset ?xs = add_mset a (mset (q_free_entries (q s)))" by (simp add: t_def x_add_mset [OF l])
  then have st: "set ?xs = insert a (set (q_free_entries (q s)))" and ne: "?xs \<noteq> []"
    by (metis set_mset_add_mset_insert set_mset_mset, auto)
  have c: "x \<noteq> 0 \<and> entries t x = Some zero_entry" if "x \<in> set ?xs" for x
    using that assms(2,4) unfolding st by (auto simp: t_def entries_cached_def)
  note b = c [OF pick_in [OF l ne]]
  have "run (mulle_aba_storage_alloc_freeentry E) t = Ok (pick E ?xs) (upd_free_entries (rest E) t)"
    using run_alloc_freeentry_cached [OF l ne refl] b by simp
  moreover have "nops t = nops s" by (simp add: t_def)
  moreover have "add_mset (pick E ?xs) (mset (rest E ?xs)) = add_mset a (mset (q_free_entries (q s)))"
    using pick_rest [OF l ne] m by simp
  ultimately show ?thesis
    using t b pick_in [OF l ne] st by (intro exI [of _ t] exI [of _ "pick E ?xs"] exI [of _ "upd_free_entries (rest E) t"]) simp
qed

theorem freeentry_recycled_witness:
  "\<exists>t b u. run (mulle_aba_storage_free_freeentry sample_ext 48)
      (sample_mem\<lparr>entries := [48 \<mapsto> \<lparr>fe_link = 0, fe_free = Some (Fn_client 7), fe_pointer = 5, fe_owner = 6\<rparr>]\<rparr>) = Ok () t
    \<and> run (mulle_aba_storage_alloc_freeentry sample_ext) t = Ok b u \<and> b = 48"
  using freeentry_recycled [OF ext_ok_sample, of 48
      "sample_mem\<lparr>entries := [48 \<mapsto> \<lparr>fe_link = 0, fe_free = Some (Fn_client 7), fe_pointer = 5, fe_owner = 6\<rparr>]\<rparr>"
      "\<lparr>fe_link = 0, fe_free = Some (Fn_client 7), fe_pointer = 5, fe_owner = 6\<rparr>"]
  by (auto simp: entries_cached_def sample_mem_def)

text \<open>C22: Freeing a list of delayed pointers calls every pointer's free function exactly once, in
  the order of the list, with its pointer and owner; retired worlds among them go to the cache of worlds,
  cleared; every entry goes back to the cache of entries, cleared; nothing else changes.\<close>

theorem linkedlist_free_spec:
  assumes "ext_ok E" "distinct xs" "\<forall>x \<in> set xs. x \<noteq> 0 \<and> (\<exists>e. entries s x = Some e \<and> callable s e)"
  shows "\<exists>X Y. run (mulle_aba_storage_linkedlist_free E xs) s = Ok () (s\<lparr>worlds := cleared (worlds_of s xs) (worlds s),
        entries := zeroed xs (entries s), q := (q s)\<lparr>q_free_entries := X, q_free_worlds := Y\<rparr>,
        trace := trace s @ concat (map (\<lambda>x. client_calls (the (entries s x))) xs)\<rparr>)
    \<and> mset X = mset xs + mset (q_free_entries (q s))
    \<and> mset Y = mset (worlds_of s xs) + mset (q_free_worlds (q s))"
  using run_linkedlist_free [OF assms] by (simp add: calls_of_def)

theorem linkedlist_free_spec_witness:
  "\<exists>X Y. run (mulle_aba_storage_linkedlist_free sample_ext [48])
      (sample_mem\<lparr>entries := [48 \<mapsto> \<lparr>fe_link = 0, fe_free = Some (Fn_client 7), fe_pointer = 5, fe_owner = 6\<rparr>]\<rparr>)
    = Ok () (sample_mem\<lparr>entries := [48 \<mapsto> zero_entry], q := (q sample_mem)\<lparr>q_free_entries := X, q_free_worlds := Y\<rparr>,
        trace := [Call2 7 5 6]\<rparr>)"
proof -
  let ?e = "\<lparr>fe_link = 0, fe_free = Some (Fn_client 7), fe_pointer = 5, fe_owner = 6\<rparr>"
  let ?s = "sample_mem\<lparr>entries := [48 \<mapsto> ?e]\<rparr>"
  have "\<forall>x \<in> set [48 :: uptr]. x \<noteq> 0 \<and> (\<exists>e. entries ?s x = Some e \<and> callable ?s e)"
    by (simp add: callable_def)
  moreover have "distinct [48 :: uptr]" by simp
  moreover have "worlds_of ?s [48] = []" "concat (map (\<lambda>x. client_calls (the (entries ?s x))) [48]) = [Call2 7 5 6]"
    by (simp_all add: worlds_of_def world_ptrs_def client_calls_def)
  moreover have "zeroed [48] (entries ?s) = [48 \<mapsto> zero_entry]" by (auto simp: zeroed_def fun_eq_iff)
  moreover have "trace ?s = []" by (simp add: sample_mem_def)
  ultimately show ?thesis
    using linkedlist_free_spec [OF ext_ok_sample, of "[48]" ?s] by auto
qed

text \<open>C40: Initialising the storage installs a world of the initial size with no threads, timestamp 0 and
  no storages, well-formed, with empty lists; it asks the allocator for one block.\<close>

theorem storage_init_spec:
  assumes "ext_ok E" "allocator \<noteq> 0" "room E s 1"
  shows "\<exists>a t. run (mulle_aba_storage_init E th allocator) s = Ok 0 t \<and> a \<noteq> 0 \<and> \<not> live s a
    \<and> q (t) = \<lparr>q_world = a, q_allocator = allocator, q_leaks = [], q_free_entries = [], q_free_worlds = []\<rparr>
    \<and> worlds t = (worlds s)(a \<mapsto> new_world_of (initial_size E)) \<and> wf_world E (new_world_of (initial_size E))
    \<and> get_lock a = 0 \<and> get_bit' a = 0 \<and> get_struct a = a \<and> nops t = Suc (nops s)"
proof -
  let ?a = "calloc_at E (inited s allocator)"
  have "room E (inited s allocator) (Suc 0)" using assms(3) by (auto intro: room_less_live)
  note a = calloc_at_fresh [OF ext_ok_parts(1) [OF assms(1)] this]
  have b: "get_struct ?a = ?a" "get_lock ?a = 0" "get_bit' ?a = 0"
    using get_struct_aligned [OF a(2)] a(2) by (simp_all add: get_lock_iff get_bit_iff aligned_iff_bits)
  have "wf_world E (new_world_of (initial_size E))"
    by (simp add: wf_world_def wf_shape_def initial_size_def n_entries_def)
  then show ?thesis
    using run_storage_init [OF ext_ok_parts(2) [OF assms(1)] assms(2) a(1), of th] a b
    by (intro exI [of _ ?a]) (simp add: empty_storage_def)
qed

theorem storage_init_spec_witness:
  "\<exists>a t. run (mulle_aba_storage_init sample_ext 0 4) sample_mem = Ok 0 t \<and> q_world (q t) = a \<and> a \<noteq> 0"
proof -
  have "room sample_ext sample_mem 1" by (simp add: room_def blocks_def sample_ext_def live_def sample_mem_def)
  then obtain a t where "run (mulle_aba_storage_init sample_ext 0 4) sample_mem = Ok 0 t" "a \<noteq> 0"
    "q t = \<lparr>q_world = a, q_allocator = 4, q_leaks = [], q_free_entries = [], q_free_worlds = []\<rparr>"
    using storage_init_spec [OF ext_ok_sample, of 4 sample_mem 0] by auto
  then show ?thesis by simp
qed

end
