(* ===== verification/Aba_Swap.thy ===== *)
theory Aba_Swap
  imports Aba_Storage
begin

text \<open>
  The world changing code of \<open>src/mulle-aba-storage.c\<close>: compare-and-swap of the world pointer with
  the asserts about it, locking and unlocking, and the four loops that install a changed world
  (in place, by copying after locking, by copying, by copying into a larger world). The change
  itself is a callback; it gets the command, the callback info and the caller's user info and gives
  an error number (0 for success) with both as it left them.
\<close>

section \<open>Swapping the world pointer\<close>

definition assert_valid_transition :: "ext \<Rightarrow> uptr \<Rightarrow> uptr \<Rightarrow> swap_intent \<Rightarrow> (mem, unit) prog" where
  "assert_valid_transition E new_p old_p intention =
     (if intention = Swap_lock
      then c_assert E (valid_transition (unat (new_p AND 3)) (unat (old_p AND 3)) intention)
      else bnd (load_world (get_struct new_p)) (\<lambda>new.
           bnd (load_world (get_struct old_p)) (\<lambda>old.
           c_assert E (valid_transition (mulle_aba_worldpointer_state new_p new)
             (mulle_aba_worldpointer_state old_p old) intention))))"

text \<open>What \<open>assert_swap_worlds\<close> demands of the two worlds when the intent is not to lock.\<close>

definition swap_worlds_ok :: "ext \<Rightarrow> swap_intent \<Rightarrow> uptr \<Rightarrow> uptr \<Rightarrow> world \<Rightarrow> world \<Rightarrow> bool" where
  "swap_worlds_ok E intention new_p old_p new old \<longleftrightarrow>
     (let same = (get_struct new_p = get_struct old_p);
          new_ts = w_timestamp new; old_ts = w_timestamp old
      in (debug E \<longrightarrow> (w_link new = 0 \<or> (same \<and> intention = Swap_checkin))
            \<and> w_n_threads new <s 10000 \<and> w_n_threads old <s 10000)
       \<and> (get_lock old_p \<noteq> 0 \<and> intention \<noteq> Swap_unlock \<longrightarrow> \<not> same)
       \<and> (get_bit' old_p \<noteq> 0 \<and> \<not> same \<longrightarrow>
            ((old_ts \<noteq> new_ts \<or> new_ts = 0) \<noteq> (new_ts \<noteq> 0 \<and> w_n_threads old \<noteq> w_n_threads new))
            \<or> intention = Swap_checkin)
       \<and> (get_bit' old_p = 0 \<longrightarrow> old_ts = new_ts \<or> new_ts = 0 \<or> old_ts = 0)
       \<and> (new_ts = 0 \<or> old_ts \<le> new_ts))"

definition assert_swap_worlds :: "ext \<Rightarrow> swap_intent \<Rightarrow> uptr \<Rightarrow> uptr \<Rightarrow> (mem, unit) prog" where
  "assert_swap_worlds E intention new_p old_p =
     (if ndebug E then skip
      else bnd (c_assert E (new_p \<noteq> 0 \<and> old_p \<noteq> 0 \<and> new_p \<noteq> old_p)) (\<lambda>_.
           bnd (assert_valid_transition E new_p old_p intention) (\<lambda>_.
           if intention = Swap_lock then skip
           else bnd (load_world (get_struct new_p)) (\<lambda>new.
                bnd (load_world (get_struct old_p)) (\<lambda>old.
                c_assert E (swap_worlds_ok E intention new_p old_p new old))))))"

definition mulle_aba_storage_swap_worlds :: "ext \<Rightarrow> swap_intent \<Rightarrow> uptr \<Rightarrow> uptr \<Rightarrow> (mem, int) prog" where
  "mulle_aba_storage_swap_worlds E intention new_p old_p =
     bnd (assert_swap_worlds E intention new_p old_p) (\<lambda>_.
     bnd (cas_world new_p old_p) (\<lambda>actual.
     Ret (if actual = old_p then 0 else - 1)))"

section \<open>Locking\<close>

fun try_set_lock_loop :: "ext \<Rightarrow> nat \<Rightarrow> uptr \<Rightarrow> uptr \<Rightarrow> uptr \<Rightarrow> (mem, uptr) prog" where
  "try_set_lock_loop E 0 old_world old_p b = Crash Out_of_fuel"
| "try_set_lock_loop E (Suc fuel) old_world old_p b =
     (let intention = (if b \<noteq> 0 then Swap_lock else Swap_unlock);
          new_p = set_lock old_p b
      in if get_lock old_p = b then Ret 0
         else bnd (assert_swap_worlds E intention new_p old_p) (\<lambda>_.
              bnd (cas_world new_p old_p) (\<lambda>last_p.
              if last_p = old_p then Ret new_p
              else if get_struct last_p \<noteq> old_world then Ret 0
              else try_set_lock_loop E fuel old_world last_p b)))"

definition mulle_aba_storage_try_set_lock_worldpointer :: "ext \<Rightarrow> nat \<Rightarrow> uptr \<Rightarrow> uptr \<Rightarrow> (mem, uptr) prog" where
  "mulle_aba_storage_try_set_lock_worldpointer E fuel old_p b =
     try_set_lock_loop E fuel (get_struct old_p) old_p b"

definition mulle_aba_storage_try_lock_worldpointer :: "ext \<Rightarrow> nat \<Rightarrow> uptr \<Rightarrow> (mem, uptr) prog" where
  "mulle_aba_storage_try_lock_worldpointer E fuel old_p =
     mulle_aba_storage_try_set_lock_worldpointer E fuel old_p 1"

definition mulle_aba_storage_try_unlock_worldpointer :: "ext \<Rightarrow> nat \<Rightarrow> uptr \<Rightarrow> (mem, uptr) prog" where
  "mulle_aba_storage_try_unlock_worldpointer E fuel old_p =
     mulle_aba_storage_try_set_lock_worldpointer E fuel old_p 0"

fun mulle_aba_storage_lock_worldpointer :: "ext \<Rightarrow> nat \<Rightarrow> (mem, worldpointers) prog" where
  "mulle_aba_storage_lock_worldpointer E 0 = Crash Out_of_fuel"
| "mulle_aba_storage_lock_worldpointer E (Suc fuel) =
     bnd mulle_aba_storage_get_worldpointer (\<lambda>old_p.
     bnd (mulle_aba_storage_try_lock_worldpointer E (Suc fuel) old_p) (\<lambda>new_p.
     if new_p \<noteq> 0 then mulle_aba_worldpointers_make E new_p old_p
     else mulle_aba_storage_lock_worldpointer E fuel))"

section \<open>Callbacks\<close>

datatype world_cmd = World_modify | World_reuse | World_discard

record callback_info =
  new_world :: uptr
  old_world :: uptr
  old_bit :: uptr
  new_bit :: uptr
  old_locked :: uptr
  new_locked :: uptr

type_synonym 'u callback = "world_cmd \<Rightarrow> callback_info \<Rightarrow> 'u \<Rightarrow> (mem, int \<times> callback_info \<times> 'u) prog"

definition null_worldpointers :: "ext \<Rightarrow> 'u \<Rightarrow> (mem, worldpointers \<times> 'u) prog" where
  "null_worldpointers E u = bnd (mulle_aba_worldpointers_make E 0 0) (\<lambda>r. Ret (r, u))"

definition done_worldpointers :: "ext \<Rightarrow> uptr \<Rightarrow> uptr \<Rightarrow> 'u \<Rightarrow> (mem, worldpointers \<times> 'u) prog" where
  "done_worldpointers E new_p old_p u = bnd (mulle_aba_worldpointers_make E new_p old_p) (\<lambda>r. Ret (r, u))"

section \<open>Change in place\<close>

fun mulle_aba_storage_change_worldpointer ::
  "ext \<Rightarrow> tid \<Rightarrow> nat \<Rightarrow> swap_intent \<Rightarrow> uptr \<Rightarrow> 'u callback \<Rightarrow> 'u \<Rightarrow> (mem, worldpointers \<times> 'u) prog" where
  "mulle_aba_storage_change_worldpointer E th 0 intention old_p callback u = Crash Out_of_fuel"
| "mulle_aba_storage_change_worldpointer E th (Suc fuel) intention old_p callback u =
     (if get_lock old_p \<noteq> 0 \<and> intention \<noteq> Swap_unlock
      then bnd (set_errno th EWOULDBLOCK) (\<lambda>_. null_worldpointers E u)
      else bnd (callback World_modify
             \<lparr>new_world = get_struct old_p, old_world = get_struct old_p, old_bit = get_bit' old_p,
              new_bit = get_bit' old_p, old_locked = get_lock old_p, new_locked = 0\<rparr> u)
           (\<lambda>(rval, ctxt, u).
           if rval \<noteq> 0 then bnd (set_errno th rval) (\<lambda>_. null_worldpointers E u)
           else bnd (mulle_aba_worldpointer_make E (new_world ctxt) (new_bit ctxt)) (\<lambda>new_p.
             if new_p = old_p then done_worldpointers E new_p old_p u
             else bnd (mulle_aba_world_assert_sanity E th (get_struct new_p)) (\<lambda>_.
               bnd (mulle_aba_storage_swap_worlds E intention new_p old_p) (\<lambda>failed.
               if failed = 0 then done_worldpointers E new_p old_p u
               else bnd mulle_aba_storage_get_worldpointer (\<lambda>old_p.
                 mulle_aba_storage_change_worldpointer E th fuel intention old_p callback u))))))"

section \<open>Change of a copy\<close>

fun copy_change_loop ::
  "ext \<Rightarrow> tid \<Rightarrow> nat \<Rightarrow> swap_intent \<Rightarrow> world_cmd \<Rightarrow> callback_info \<Rightarrow> uptr \<Rightarrow> 'u callback \<Rightarrow> 'u
     \<Rightarrow> (mem, worldpointers \<times> 'u) prog" where
  "copy_change_loop E th 0 intention cmd ctxt old_p callback u = Crash Out_of_fuel"
| "copy_change_loop E th (Suc fuel) intention cmd ctxt old_p callback u =
     (let ctxt = ctxt\<lparr>old_world := get_struct old_p, old_bit := get_bit' old_p, old_locked := get_lock old_p\<rparr>
      in bnd (mulle_aba_world_assert_sanity E th (get_struct old_p)) (\<lambda>_.
         bnd (load_world (old_world ctxt)) (\<lambda>old.
         bnd (if new_world ctxt = 0 then Ret True
              else bnd (load_world (new_world ctxt)) (\<lambda>new. Ret (w_size new \<noteq> w_size old))) (\<lambda>realloc.
         bnd (if \<not> realloc then Ret (cmd, ctxt, u)
              else bnd (if new_world ctxt = 0 then Ret (ctxt, u)
                        else bnd (callback World_discard ctxt u) (\<lambda>(_, ctxt, u).
                             bnd (mulle_aba_storage_free_world E (new_world ctxt)) (\<lambda>_. Ret (ctxt, u))))
                   (\<lambda>(ctxt, u).
                   bnd (mulle_aba_storage_alloc_world E th (Suc fuel) (w_size old)) (\<lambda>a.
                   Ret (World_modify, ctxt\<lparr>new_world := a\<rparr>, u)))) (\<lambda>(cmd, ctxt, u).
         if new_world ctxt = 0 then null_worldpointers E u
         else bnd (mulle_aba_world_copy (new_world ctxt) (old_world ctxt)) (\<lambda>_.
           let ctxt = ctxt\<lparr>new_bit := old_bit ctxt, new_locked := 0\<rparr> in
           bnd (mulle_aba_world_assert_sanity E th (old_world ctxt)) (\<lambda>_.
           bnd (mulle_aba_world_assert_sanity E th (new_world ctxt)) (\<lambda>_.
           bnd (callback cmd ctxt u) (\<lambda>(rval, ctxt, u).
           if rval \<noteq> 0
           then bnd (callback World_discard ctxt u) (\<lambda>(_, ctxt, u).
                bnd (mulle_aba_storage_free_world E (new_world ctxt)) (\<lambda>_.
                bnd (set_errno th rval) (\<lambda>_. null_worldpointers E u)))
           else bnd (mulle_aba_worldpointer_make E (new_world ctxt) (new_bit ctxt)) (\<lambda>made_p.
             let new_p = (if new_locked ctxt \<noteq> 0 then set_lock made_p 1 else made_p) in
             if new_p = old_p then done_worldpointers E new_p old_p u
             else bnd (mulle_aba_world_assert_sanity E th (get_struct new_p)) (\<lambda>_.
               bnd (mulle_aba_storage_swap_worlds E intention new_p old_p) (\<lambda>failed.
               if failed = 0 then done_worldpointers E new_p old_p u
               else bnd mulle_aba_storage_get_worldpointer (\<lambda>old_p.
                 copy_change_loop E th fuel intention World_reuse ctxt old_p callback u)))))))))))))"

definition null_info :: callback_info where
  "null_info = \<lparr>new_world = 0, old_world = 0, old_bit = 0, new_bit = 0, old_locked = 0, new_locked = 0\<rparr>"

definition mulle_aba_storage_copy_change_worldpointer ::
  "ext \<Rightarrow> tid \<Rightarrow> nat \<Rightarrow> swap_intent \<Rightarrow> uptr \<Rightarrow> 'u callback \<Rightarrow> 'u \<Rightarrow> (mem, worldpointers \<times> 'u) prog" where
  "mulle_aba_storage_copy_change_worldpointer E th fuel intention old_p callback u =
     bnd (c_assert E (old_p \<noteq> 0)) (\<lambda>_.
     copy_change_loop E th fuel intention World_modify null_info old_p callback u)"

definition mulle_aba_storage_change_worldpointer_2 ::
  "ext \<Rightarrow> tid \<Rightarrow> nat \<Rightarrow> swap_intent \<Rightarrow> uptr \<Rightarrow> 'u callback \<Rightarrow> 'u \<Rightarrow> (mem, worldpointers \<times> 'u) prog" where
  "mulle_aba_storage_change_worldpointer_2 E th fuel intention old_p callback u =
     bnd (mulle_aba_storage_change_worldpointer E th fuel intention old_p callback u) (\<lambda>(ps, u).
     if new_world_p ps \<noteq> 0 then Ret (ps, u)
     else bnd (get_errno th) (\<lambda>e.
       if e \<noteq> EWOULDBLOCK then Ret (ps, u)
       else mulle_aba_storage_copy_change_worldpointer E th fuel intention old_p callback u))"

section \<open>Change of a copy of a locked world\<close>

text \<open>The worlds that were locked in vain are chained through their links for the caller to free.\<close>

fun copy_lock_loop ::
  "ext \<Rightarrow> tid \<Rightarrow> nat \<Rightarrow> callback_info \<Rightarrow> 'u callback \<Rightarrow> 'u \<Rightarrow> uptr
     \<Rightarrow> (mem, worldpointers \<times> 'u \<times> uptr) prog" where
  "copy_lock_loop E th 0 ctxt callback u dealloced = Crash Out_of_fuel"
| "copy_lock_loop E th (Suc fuel) ctxt callback u dealloced =
     bnd (mulle_aba_storage_lock_worldpointer E (Suc fuel)) (\<lambda>ps.
     let locked_p = new_world_p ps;
         ctxt = ctxt\<lparr>old_world := get_struct locked_p, old_bit := get_bit' locked_p,
                     old_locked := get_lock locked_p\<rparr>
     in bnd (c_assert E (old_locked ctxt \<noteq> 0)) (\<lambda>_.
        bnd (mulle_aba_world_assert_sanity E th (get_struct locked_p)) (\<lambda>_.
        bnd (load_world (old_world ctxt)) (\<lambda>old.
        bnd (if new_world ctxt = 0 then Ret True
             else bnd (load_world (new_world ctxt)) (\<lambda>new. Ret (w_size new \<noteq> w_size old))) (\<lambda>realloc.
        bnd (if \<not> realloc then Ret (ctxt, u)
             else bnd (if new_world ctxt = 0 then Ret (ctxt, u)
                       else bnd (callback World_discard ctxt u) (\<lambda>(_, ctxt, u).
                            bnd (mulle_aba_storage_free_world E (new_world ctxt)) (\<lambda>_. Ret (ctxt, u))))
                  (\<lambda>(ctxt, u).
                  bnd (mulle_aba_storage_alloc_world E th (Suc fuel) (w_size old)) (\<lambda>a.
                  Ret (ctxt\<lparr>new_world := a\<rparr>, u)))) (\<lambda>(ctxt, u).
        if new_world ctxt = 0 then bnd (null_worldpointers E u) (\<lambda>(r, u). Ret (r, u, dealloced))
        else bnd (mulle_aba_world_copy (new_world ctxt) (old_world ctxt)) (\<lambda>_.
          let ctxt = ctxt\<lparr>new_bit := old_bit ctxt\<rparr> in
          bnd (if ndebug E then skip else bnd (load_world (new_world ctxt)) (\<lambda>w. c_assert E (w_link w = 0))) (\<lambda>_.
          bnd (mulle_aba_world_assert_sanity E th (new_world ctxt)) (\<lambda>_.
          bnd (mulle_aba_world_assert_sanity E th (old_world ctxt)) (\<lambda>_.
          bnd (callback World_modify ctxt u) (\<lambda>(rval, ctxt, u).
          if rval \<noteq> 0
          then bnd (mulle_aba_storage_free_world E (new_world ctxt)) (\<lambda>_.
               bnd (set_errno th rval) (\<lambda>_.
               bnd (null_worldpointers E u) (\<lambda>(r, u). Ret (r, u, dealloced))))
          else bnd (mulle_aba_worldpointer_make E (new_world ctxt) (new_bit ctxt)) (\<lambda>new_p.
            if new_p = locked_p
            then bnd (done_worldpointers E new_p locked_p u) (\<lambda>(r, u). Ret (r, u, dealloced))
            else bnd (mulle_aba_world_assert_sanity E th (get_struct new_p)) (\<lambda>_.
              bnd (mulle_aba_storage_swap_worlds E Swap_register new_p locked_p) (\<lambda>failed.
              let tofree = get_struct locked_p in
              bnd (if tofree = dealloced then Ret dealloced
                   else bnd (if ndebug E then skip
                             else bnd (load_world tofree) (\<lambda>w. c_assert E (w_link w = 0))) (\<lambda>_.
                        bnd (c_assert E (new_p = 0 \<or> get_struct new_p \<noteq> tofree)) (\<lambda>_.
                        bnd (store_world tofree (\<lambda>w. w\<lparr>w_link := dealloced\<rparr>)) (\<lambda>_. Ret tofree)))) (\<lambda>dealloced.
              if failed = 0
              then bnd (done_worldpointers E new_p locked_p u) (\<lambda>(r, u). Ret (r, u, dealloced))
              else copy_lock_loop E th fuel ctxt callback u dealloced)))))))))))))))"

definition mulle_aba_storage_copy_lock_worldpointer ::
  "ext \<Rightarrow> tid \<Rightarrow> nat \<Rightarrow> 'u callback \<Rightarrow> 'u \<Rightarrow> (mem, worldpointers \<times> 'u \<times> uptr) prog" where
  "mulle_aba_storage_copy_lock_worldpointer E th fuel callback u =
     copy_lock_loop E th fuel null_info callback u 0"

section \<open>Change of a larger copy\<close>

fun grow_loop ::
  "ext \<Rightarrow> tid \<Rightarrow> nat \<Rightarrow> uint \<Rightarrow> callback_info \<Rightarrow> 'u callback \<Rightarrow> 'u \<Rightarrow> (mem, worldpointers \<times> 'u) prog" where
  "grow_loop E th 0 target ctxt callback u = Crash Out_of_fuel"
| "grow_loop E th (Suc fuel) target ctxt callback u =
     bnd mulle_aba_storage_get_worldpointer (\<lambda>old_p.
     let ctxt = ctxt\<lparr>old_world := get_struct old_p\<rparr> in
     bnd (load_world (old_world ctxt)) (\<lambda>old.
     if target \<le> w_size old
     then bnd (callback World_discard ctxt u) (\<lambda>(_, ctxt, u).
          bnd (mulle_aba_storage_free_world E (new_world ctxt)) (\<lambda>_.
          bnd (set_errno th EBUSY) (\<lambda>_. null_worldpointers E u)))
     else let ctxt = ctxt\<lparr>old_bit := get_bit' old_p, old_locked := get_lock old_p\<rparr> in
       bnd (if new_world ctxt = 0
            then bnd (mulle_aba_storage_alloc_world E th (Suc fuel) target) (\<lambda>a.
                 Ret (World_modify, ctxt\<lparr>new_world := a\<rparr>))
            else Ret (World_reuse, ctxt)) (\<lambda>(cmd, ctxt).
       if new_world ctxt = 0 then null_worldpointers E u
       else bnd (load_world (new_world ctxt)) (\<lambda>new.
         bnd (mulle_aba_world_copy (new_world ctxt) (old_world ctxt)) (\<lambda>_.
         bnd (store_world (new_world ctxt) (\<lambda>w. w\<lparr>w_size := w_size new\<rparr>)) (\<lambda>_.
         let ctxt = ctxt\<lparr>new_bit := old_bit ctxt\<rparr> in
         bnd (callback cmd ctxt u) (\<lambda>(rval, ctxt, u).
         if rval \<noteq> 0
         then bnd (mulle_aba_storage_free_world E (new_world ctxt)) (\<lambda>_.
              bnd (set_errno th rval) (\<lambda>_. null_worldpointers E u))
         else bnd (mulle_aba_worldpointer_make E (new_world ctxt) (new_bit ctxt)) (\<lambda>new_p.
           if new_p = old_p then done_worldpointers E new_p old_p u
           else bnd (mulle_aba_world_assert_sanity E th (get_struct new_p)) (\<lambda>_.
             bnd (mulle_aba_storage_swap_worlds E Swap_free new_p old_p) (\<lambda>failed.
             if failed = 0 then done_worldpointers E new_p old_p u
             else grow_loop E th fuel target ctxt callback u))))))))))"

definition mulle_aba_storage_grow_worldpointer ::
  "ext \<Rightarrow> tid \<Rightarrow> nat \<Rightarrow> uint \<Rightarrow> 'u callback \<Rightarrow> 'u \<Rightarrow> (mem, worldpointers \<times> 'u) prog" where
  "mulle_aba_storage_grow_worldpointer E th fuel target callback u =
     grow_loop E th fuel target null_info callback u"

section \<open>Execution: swapping and locking\<close>

lemma worldpointer_state:
  "mulle_aba_worldpointer_state p w = unat (get_bit' p) + 2 * unat (get_lock p)
     + (if w_timestamp w \<noteq> 0 then 4 else 0) + (if 1 <s w_n_threads w then 8 else 0)"
  by (simp add: mulle_aba_worldpointer_state_def worldpointer_and_3)

text \<open>What the asserts of \<open>_mulle_aba_storage_swap_worlds\<close> ask of memory.\<close>

definition swap_ready :: "ext \<Rightarrow> swap_intent \<Rightarrow> mem \<Rightarrow> uptr \<Rightarrow> uptr \<Rightarrow> bool" where
  "swap_ready E intention s new_p old_p \<longleftrightarrow> (\<exists>v w. worlds s (get_struct new_p) = Some v
     \<and> worlds s (get_struct old_p) = Some w \<and> get_struct new_p \<noteq> 0 \<and> get_struct old_p \<noteq> 0 \<and> new_p \<noteq> old_p
     \<and> valid_transition (mulle_aba_worldpointer_state new_p v) (mulle_aba_worldpointer_state old_p w) intention
     \<and> swap_worlds_ok E intention new_p old_p v w)"

lemma get_struct_nonzero: "get_struct p \<noteq> 0 \<Longrightarrow> p \<noteq> 0"
  by auto

lemma run_assert_swap_worlds:
  assumes "swap_ready E intention s new_p old_p" "intention \<noteq> Swap_lock"
  shows "run (assert_swap_worlds E intention new_p old_p) s = Ok () s"
proof -
  obtain v w where "worlds s (get_struct new_p) = Some v" "worlds s (get_struct old_p) = Some w"
    "get_struct new_p \<noteq> 0" "get_struct old_p \<noteq> 0" "new_p \<noteq> old_p"
    "valid_transition (mulle_aba_worldpointer_state new_p v) (mulle_aba_worldpointer_state old_p w) intention"
    "swap_worlds_ok E intention new_p old_p v w"
    using assms(1) unfolding swap_ready_def by blast
  moreover from this have "new_p \<noteq> 0" "old_p \<noteq> 0" by auto
  ultimately show ?thesis
    using assms(2) by (simp add: assert_swap_worlds_def assert_valid_transition_def exec)
qed

lemma run_swap_worlds [exec]:
  assumes "swap_ready E intention s new_p old_p" "intention \<noteq> Swap_lock" "q_world (q s) = old_p"
  shows "run (mulle_aba_storage_swap_worlds E intention new_p old_p) s = Ok 0 (set_q_world new_p s)"
  using run_assert_swap_worlds [OF assms(1,2)] assms(3) by (simp add: mulle_aba_storage_swap_worlds_def exec)

lemma lock_transition:
  assumes "get_lock p = 0"
  shows "valid_transition (unat (set_lock p 1 AND 3)) (unat (p AND 3)) Swap_lock"
  using assms get_bit_cases [of p] unfolding worldpointer_and_3
  by (auto simp: valid_transition_def)

lemma set_lock_1_nonzero [simp]: "set_lock p 1 \<noteq> 0"
  by (metis get_bits_const(1) get_lock_set_lock zero_neq_one)

text \<open>The asserts before locking only look at the pointers.\<close>

lemma assert_swap_lock:
  assumes "p \<noteq> 0" "get_lock p = 0"
  shows "assert_swap_worlds E Swap_lock (set_lock p 1) p = skip"
  using assms lock_transition [OF assms(2)] set_lock_neq [OF assms(2)]
  by (simp add: assert_swap_worlds_def assert_valid_transition_def c_assert_def skip_def)

lemma q_set_q_world [simp]:
  "q (set_q_world p s) = (q s)\<lparr>q_world := p\<rparr>" "worlds (set_q_world p s) = worlds s"
  "stores (set_q_world p s) = stores s" "entries (set_q_world p s) = entries s"
  "tss (set_q_world p s) = tss s" "nops (set_q_world p s) = nops s" "trace (set_q_world p s) = trace s"
  "errno (set_q_world p s) = errno s" "aba_global (set_q_world p s) = aba_global s"
  "tss_key (set_q_world p s) = tss_key s" "allocator_aba (set_q_world p s) = allocator_aba s"
  by (simp_all add: set_q_world_def)

lemma set_q_world_twice [simp]: "set_q_world p (set_q_world r s) = set_q_world p s"
  by (simp add: set_q_world_def)

lemma live_set_q_world [simp]: "live (set_q_world p s) = live s"
  by (simp add: live_def fun_eq_iff)

lemma run_try_lock:
  assumes "p \<noteq> 0" "get_lock p = 0" "q_world (q s) = p" "0 < fuel"
  shows "run (mulle_aba_storage_try_lock_worldpointer E fuel p) s = Ok (set_lock p 1) (set_q_world (set_lock p 1) s)"
proof -
  obtain f where "fuel = Suc f" using assms(4) by (cases fuel) auto
  with assms show ?thesis
    by (simp add: mulle_aba_storage_try_lock_worldpointer_def mulle_aba_storage_try_set_lock_worldpointer_def
        Let_def exec assert_swap_lock)
qed

lemma run_try_lock_locked:
  assumes "get_lock p = 1" "0 < fuel"
  shows "run (mulle_aba_storage_try_lock_worldpointer E fuel p) s = Ok 0 s"
proof -
  obtain f where "fuel = Suc f" using assms(2) by (cases fuel) auto
  with assms show ?thesis
    by (simp add: mulle_aba_storage_try_lock_worldpointer_def mulle_aba_storage_try_set_lock_worldpointer_def exec)
qed

lemma run_try_unlock:
  assumes "get_lock p = 1" "q_world (q s) = p" "0 < fuel" "swap_ready E Swap_unlock s (set_lock p 0) p"
  shows "run (mulle_aba_storage_try_unlock_worldpointer E fuel p) s = Ok (set_lock p 0) (set_q_world (set_lock p 0) s)"
proof -
  obtain f where "fuel = Suc f" using assms(3) by (cases fuel) auto
  with assms run_assert_swap_worlds [OF assms(4)] show ?thesis
    by (simp add: mulle_aba_storage_try_unlock_worldpointer_def mulle_aba_storage_try_set_lock_worldpointer_def
        Let_def exec)
qed

lemma run_worldpointers_make [exec]:
  "get_struct n \<noteq> 0 \<Longrightarrow> get_struct p \<noteq> 0 \<Longrightarrow>
   run (mulle_aba_worldpointers_make E n p) s = Ok \<lparr>new_world_p = n, old_world_p = p\<rparr> s"
  "run (mulle_aba_worldpointers_make E 0 0) s = Ok \<lparr>new_world_p = 0, old_world_p = 0\<rparr> s"
  by (simp_all add: mulle_aba_worldpointers_make_def exec)

lemma run_done_worldpointers [exec]:
  "get_struct n \<noteq> 0 \<Longrightarrow> get_struct p \<noteq> 0 \<Longrightarrow>
   run (done_worldpointers E n p u) s = Ok (\<lparr>new_world_p = n, old_world_p = p\<rparr>, u) s"
  by (simp add: done_worldpointers_def exec)

lemma run_null_worldpointers [exec]:
  "run (null_worldpointers E u) s = Ok (\<lparr>new_world_p = 0, old_world_p = 0\<rparr>, u) s"
  by (simp add: null_worldpointers_def exec)

lemma run_lock_worldpointer:
  assumes "get_struct p \<noteq> 0" "get_lock p = 0" "q_world (q s) = p" "0 < fuel"
  shows "run (mulle_aba_storage_lock_worldpointer E fuel) s =
    Ok \<lparr>new_world_p = set_lock p 1, old_world_p = p\<rparr> (set_q_world (set_lock p 1) s)"
proof -
  obtain f where f: "fuel = Suc f" using assms(4) by (cases fuel) auto
  have "p \<noteq> 0" using assms(1) by auto
  then show ?thesis
    using assms f run_try_lock [of p s fuel E]
    by (simp add: exec del: try_set_lock_loop.simps)
qed

section \<open>Execution: changes\<close>

lemma run_change_locked:
  assumes "get_lock p = 1" "intention \<noteq> Swap_unlock" "0 < fuel"
  shows "run (mulle_aba_storage_change_worldpointer E th fuel intention p cb u) s =
    Ok (\<lparr>new_world_p = 0, old_world_p = 0\<rparr>, u) (s\<lparr>errno := (errno s)(th := EWOULDBLOCK)\<rparr>)"
proof -
  obtain f where "fuel = Suc f" using assms(3) by (cases fuel) auto
  with assms show ?thesis by (simp add: exec)
qed

text \<open>The contents of a copied world and memory when the callback sees the copy.\<close>

definition copy_of :: "world \<Rightarrow> world" where
  "copy_of w = w\<lparr>w_link := 0, w_storage := take (unat (w_size w)) (w_storage w)\<rparr>"

definition grown :: "uint \<Rightarrow> world \<Rightarrow> world" where
  "grown sz w = w\<lparr>w_link := 0,
     w_storage := take (unat (w_size w)) (w_storage w) @ replicate (unat sz - unat (w_size w)) 0, w_size := sz\<rparr>"

definition placed :: "mem \<Rightarrow> uptr \<Rightarrow> world \<Rightarrow> mem" where
  "placed s a w = (drained s)\<lparr>nops := Suc (nops s), worlds := (worlds (drained s))(a \<mapsto> w)\<rparr>"

definition info_of :: "uptr \<Rightarrow> uptr \<Rightarrow> callback_info" where
  "info_of a p = \<lparr>new_world = a, old_world = get_struct p, old_bit = get_bit' p, new_bit = get_bit' p,
     old_locked = get_lock p, new_locked = 0\<rparr>"

lemma info_of_sel [simp]:
  "new_world (info_of a p) = a" "old_world (info_of a p) = get_struct p" "old_bit (info_of a p) = get_bit' p"
  "new_bit (info_of a p) = get_bit' p" "old_locked (info_of a p) = get_lock p" "new_locked (info_of a p) = 0"
  by (simp_all add: info_of_def)

lemma copy_of_sel [simp]:
  "w_link (copy_of w) = 0" "w_timestamp (copy_of w) = w_timestamp w" "w_n_threads (copy_of w) = w_n_threads w"
  "w_offset (copy_of w) = w_offset w" "w_size (copy_of w) = w_size w" "w_n (copy_of w) = w_n w"
  "w_storage (copy_of w) = take (unat (w_size w)) (w_storage w)"
  by (simp_all add: copy_of_def)

lemma grown_sel [simp]:
  "w_link (grown sz w) = 0" "w_timestamp (grown sz w) = w_timestamp w" "w_n_threads (grown sz w) = w_n_threads w"
  "w_offset (grown sz w) = w_offset w" "w_size (grown sz w) = sz" "w_n (grown sz w) = w_n w"
  "w_storage (grown sz w) = take (unat (w_size w)) (w_storage w) @ replicate (unat sz - unat (w_size w)) 0"
  by (simp_all add: grown_def)

lemma placed_sel [simp]:
  "worlds (placed s a w) = (worlds (drained s))(a \<mapsto> w)" "stores (placed s a w) = stores s"
  "entries (placed s a w) = entries s" "q (placed s a w) = (q s)\<lparr>q_free_worlds := []\<rparr>"
  "tss (placed s a w) = tss s" "nops (placed s a w) = Suc (nops s)" "trace (placed s a w) = trace s"
  "errno (placed s a w) = errno s" "aba_global (placed s a w) = aba_global s"
  "tss_key (placed s a w) = tss_key s" "allocator_aba (placed s a w) = allocator_aba s"
  by (simp_all add: placed_def)

lemma placed_upd: "(placed s a w)\<lparr>worlds := (worlds (drained s))(a \<mapsto> v)\<rparr> = placed s a v"
  by (simp add: placed_def)

lemma placed_eq: "(drained s)\<lparr>nops := Suc (nops s), worlds := (worlds (drained s))(a \<mapsto> w)\<rparr> = placed s a w"
  by (simp add: placed_def)

lemma run_alloc_placed:
  assumes "list_ok E" "worlds_cached s" "sz \<noteq> 0" "length (q_free_worlds (q s)) < fuel"
    and "calloc_at E (drained s) \<noteq> 0"
  shows "run (mulle_aba_storage_alloc_world E th fuel sz) s =
    Ok (calloc_at E (drained s)) (placed s (calloc_at E (drained s)) (new_world_of sz))"
  unfolding placed_def by (rule run_alloc_world [OF assms])

lemma wf_copy_of: "wf_world E w \<Longrightarrow> wf_world E (copy_of w)"
  by (simp add: wf_world_def wf_shape_def)

lemma wf_world_size: "wf_world E w \<Longrightarrow> w_size w \<noteq> 0" "wf_world E w \<Longrightarrow> unat (w_size w) \<le> length (w_storage w)"
  by (auto simp: wf_world_def wf_shape_def)

section \<open>The interface between the loops and their callbacks\<close>

text \<open>
  What a loop relies on when it calls a callback to modify a copy (\<open>pre\<close>) and what it then finds
  (\<open>post\<close>): the callback succeeds, leaves the world pointer and the old world alone, and makes a
  well-formed world whose installation the asserts accept.
\<close>

definition result_p :: "callback_info \<Rightarrow> uptr" where
  "result_p i = (if new_locked i \<noteq> 0 then set_lock (new_world i OR new_bit i) 1 else new_world i OR new_bit i)"

definition installable :: "ext \<Rightarrow> swap_intent \<Rightarrow> mem \<Rightarrow> mem \<Rightarrow> callback_info \<Rightarrow> callback_info \<Rightarrow> bool" where
  "installable E intention s t i i' \<longleftrightarrow> new_world i' = new_world i \<and> new_bit i' \<le> 1
     \<and> (new_locked i' \<noteq> 0 \<longrightarrow> intention = Swap_unregister)
     \<and> q_world (q t) = q_world (q s) \<and> worlds t (old_world i) = worlds s (old_world i)
     \<and> (\<exists>v. worlds t (new_world i) = Some v \<and> wf_world E v)
     \<and> swap_ready E intention t (result_p i') (q_world (q s))"

lemma installableI:
  assumes "new_world i' = new_world i" "new_bit i' \<le> 1" "new_locked i' \<noteq> 0 \<longrightarrow> intention = Swap_unregister"
    and "q_world (q t) = q_world (q s)" "worlds t (old_world i) = worlds s (old_world i)"
    and "worlds t (new_world i) = Some v" "wf_world E v" "swap_ready E intention t (result_p i') (q_world (q s))"
  shows "installable E intention s t i i'"
  using assms unfolding installable_def by blast

locale world_callback =
  fixes E :: ext and intention :: swap_intent and cb :: "'u callback"
    and pre :: "callback_info \<Rightarrow> 'u \<Rightarrow> mem \<Rightarrow> bool"
    and post :: "callback_info \<Rightarrow> 'u \<Rightarrow> mem \<Rightarrow> callback_info \<Rightarrow> 'u \<Rightarrow> mem \<Rightarrow> bool"
  assumes succeeds: "pre i u s \<Longrightarrow> \<exists>i' u' t. run (cb World_modify i u) s = Ok (0, i', u') t \<and> post i u s i' u' t"
    and installs: "pre i u s \<Longrightarrow> post i u s i' u' t \<Longrightarrow> installable E intention s t i i'"
    and no_lock: "intention \<noteq> Swap_lock"

text \<open>A world pointer the loops can start from: its world is well-formed, the cache of worlds is as
  it always is, and the allocator has a block.\<close>

definition changeable :: "ext \<Rightarrow> mem \<Rightarrow> uptr \<Rightarrow> world \<Rightarrow> nat \<Rightarrow> bool" where
  "changeable E s p w fuel \<longleftrightarrow> ext_ok E \<and> worlds_cached s \<and> q_world (q s) = p \<and> get_struct p \<noteq> 0
     \<and> worlds s (get_struct p) = Some w \<and> wf_world E w \<and> length (q_free_worlds (q s)) < fuel \<and> room E s 1"

lemma changeable_new:
  assumes "changeable E s p w fuel"
  shows "calloc_at E (drained s) \<noteq> 0" "aligned (calloc_at E (drained s))" "\<not> live (drained s) (calloc_at E (drained s))"
    "worlds (drained s) (get_struct p) = Some w" "calloc_at E (drained s) \<noteq> get_struct p"
proof -
  have c: "ext_ok E" "worlds_cached s" "room E s 1" "worlds s (get_struct p) = Some w" "wf_world E w"
    using assms by (simp_all add: changeable_def)
  have "room E (drained s) (Suc 0)" using c(3) live_drained by (auto intro: room_less_live)
  note a = calloc_at_fresh [OF ext_ok_parts(1) [OF c(1)] this]
  then show "calloc_at E (drained s) \<noteq> 0" "aligned (calloc_at E (drained s))"
    "\<not> live (drained s) (calloc_at E (drained s))" by simp_all
  show o: "worlds (drained s) (get_struct p) = Some w"
    by (rule drained_worlds [OF c(2,4) wf_world_size(1) [OF c(5)]])
  then show "calloc_at E (drained s) \<noteq> get_struct p" using a(3) by (auto simp: live_def)
qed

lemma new_pointer:
  assumes "aligned a" "b \<le> 1"
  shows "get_struct (a OR b) = a" "get_bit' (a OR b) = b" "get_lock (a OR b) = 0"
proof -
  have "b = 0 \<or> b = 1"
  proof -
    have "unat b \<le> 1" using assms(2) by (simp add: word_le_nat_alt)
    then have "unat b = 0 \<or> unat b = 1" by linarith
    then show ?thesis by (auto simp: word_unat_eq_iff)
  qed
  then show "get_struct (a OR b) = a" "get_bit' (a OR b) = b" "get_lock (a OR b) = 0"
    using get_struct_or [OF assms(1), of b] get_bit_or [OF assms(1), of b] get_lock_or [OF assms(1), of b]
    by (auto simp: word_le_3_cases)
qed

lemma get_struct_result:
  assumes "aligned a" "new_world i = a" "new_bit i \<le> 1"
  shows "get_struct (result_p i) = a"
  using new_pointer [OF assms(1,3)] assms(2) by (simp add: result_p_def)

context world_callback begin

lemma run_copy_change:
  assumes "changeable E s p w fuel" "a = calloc_at E (drained s)" "pre (info_of a p) u (placed s a (copy_of w))"
  obtains i' u' t where
    "run (mulle_aba_storage_copy_change_worldpointer E th fuel intention p cb u) s =
       Ok (\<lparr>new_world_p = result_p i', old_world_p = p\<rparr>, u') (set_q_world (result_p i') t)"
    "post (info_of a p) u (placed s a (copy_of w)) i' u' t" "get_struct (result_p i') = a"
proof -
  let ?b = "placed s a (copy_of w)" and ?i = "info_of a p"
  have c: "ext_ok E" "worlds_cached s" "q_world (q s) = p" "get_struct p \<noteq> 0" "worlds s (get_struct p) = Some w"
    "wf_world E w" "length (q_free_worlds (q s)) < fuel"
    using assms(1) unfolding changeable_def by blast+
  note n = changeable_new [OF assms(1), folded assms(2)]
  obtain f where f: "fuel = Suc f" using c(7) by (cases fuel) auto
  have p: "p \<noteq> 0" using c(4) by auto
  note sz = wf_world_size [OF c(6)]
  have al: "run (mulle_aba_storage_alloc_world E th (Suc f) (w_size w)) s = Ok a (placed s a (new_world_of (w_size w)))"
    using run_alloc_placed [OF ext_ok_parts(2) [OF c(1)] c(2) sz(1) c(7)] n(1) assms(2) f by blast
  have cp: "run (mulle_aba_world_copy a (get_struct p)) (placed s a (new_world_of (w_size w))) = Ok () ?b"
    using run_world_copy [of a "get_struct p" "placed s a (new_world_of (w_size w))" w "new_world_of (w_size w)"]
      n c(4) sz(2) by (simp add: placed_def copy_of_def)
  obtain i' u' t where r: "run (cb World_modify ?i u) ?b = Ok (0, i', u') t" and post: "post ?i u ?b i' u' t"
    using succeeds [OF assms(3)] by blast
  note ins = installs [OF assms(3) post]
  have i': "new_world i' = a" "new_bit i' \<le> 1" "q_world (q t) = p" "swap_ready E intention t (result_p i') p"
    using ins c(3) by (simp_all add: installable_def)
  obtain v where v: "worlds t a = Some v" "wf_world E v" using ins by (auto simp: installable_def)
  have b3: "new_bit i' \<le> 3" using i'(2) by (rule order_trans) simp
  have mk: "run (mulle_aba_worldpointer_make E (new_world i') (new_bit i')) t = Ok (new_world i' OR new_bit i') t"
    using run_make [OF b3] n(2) i'(1) by simp
  have gs: "get_struct (result_p i') = a" by (rule get_struct_result [OF n(2) i'(1,2)])
  have np: "result_p i' \<noteq> p" using i'(4) by (auto simp: swap_ready_def)
  have io: "null_info\<lparr>old_world := get_struct p, old_bit := get_bit' p, old_locked := get_lock p, new_world := a,
      new_bit := get_bit' p, new_locked := 0\<rparr> = ?i"
    by (simp add: null_info_def info_of_def)
  have wb: "worlds ?b (get_struct p) = Some w" "worlds ?b a = Some (copy_of w)" using n(4,5) by simp_all
  have sa: "run (mulle_aba_world_assert_sanity E th (get_struct p)) s = Ok () s"
    "run (mulle_aba_world_assert_sanity E th (get_struct p)) ?b = Ok () ?b"
    "run (mulle_aba_world_assert_sanity E th a) ?b = Ok () ?b"
    "run (mulle_aba_world_assert_sanity E th a) t = Ok () t"
    using run_assert_sanity [OF c(4,5,6)] run_assert_sanity [OF c(4) wb(1) c(6)]
      run_assert_sanity [OF n(1) wb(2) wf_copy_of [OF c(6)]] run_assert_sanity [OF n(1) v] by blast+
  have sw: "run (mulle_aba_storage_swap_worlds E intention (result_p i') p) t = Ok 0 (set_q_world (result_p i') t)"
    by (rule run_swap_worlds [OF i'(4) no_lock i'(3)])
  have "run (mulle_aba_storage_copy_change_worldpointer E th fuel intention p cb u) s =
       Ok (\<lparr>new_world_p = result_p i', old_world_p = p\<rparr>, u') (set_q_world (result_p i') t)"
    using p n(1) c(4,5) al cp r mk gs np sa sw
    by (simp add: mulle_aba_storage_copy_change_worldpointer_def f exec null_info_def Let_def info_of_def
        result_p_def del: mulle_aba_storage_alloc_world.simps)
  from this post gs show ?thesis by (rule that)
qed

lemma run_grow:
  assumes "changeable E s p w fuel" "a = calloc_at E (drained s)" "intention = Swap_free" "get_lock p = 0"
    and "w_size w < target" "pre (info_of a p) u (placed s a (grown target w))"
  obtains i' u' t where
    "run (mulle_aba_storage_grow_worldpointer E th fuel target cb u) s =
       Ok (\<lparr>new_world_p = result_p i', old_world_p = p\<rparr>, u') (set_q_world (result_p i') t)"
    "post (info_of a p) u (placed s a (grown target w)) i' u' t" "get_struct (result_p i') = a"
proof -
  let ?b = "placed s a (grown target w)" and ?i = "info_of a p"
  have c: "ext_ok E" "worlds_cached s" "q_world (q s) = p" "get_struct p \<noteq> 0" "worlds s (get_struct p) = Some w"
    "wf_world E w" "length (q_free_worlds (q s)) < fuel"
    using assms(1) unfolding changeable_def by blast+
  note n = changeable_new [OF assms(1), folded assms(2)]
  obtain f where f: "fuel = Suc f" using c(7) by (cases fuel) auto
  have p: "p \<noteq> 0" using c(4) by auto
  note sz = wf_world_size [OF c(6)]
  have "target \<noteq> 0" using assms(5) by (metis word_not_simps(1))
  then have tg: "target \<noteq> 0" "\<not> target \<le> w_size w" "unat (w_size w) \<le> unat target"
    using assms(5) by (simp_all add: word_less_nat_alt word_le_nat_alt)
  have al: "run (mulle_aba_storage_alloc_world E th (Suc f) target) s = Ok a (placed s a (new_world_of target))"
    using run_alloc_placed [OF ext_ok_parts(2) [OF c(1)] c(2) tg(1) c(7)] n(1) assms(2) f by blast
  let ?c = "w\<lparr>w_link := 0, w_storage := take (unat (w_size w)) (w_storage w) @ replicate (unat target - unat (w_size w)) 0\<rparr>"
  have cp: "run (mulle_aba_world_copy a (get_struct p)) (placed s a (new_world_of target)) = Ok () (placed s a ?c)"
    using run_world_copy [of a "get_struct p" "placed s a (new_world_of target)" w "new_world_of target"]
      n c(4) sz(2) tg(3) by (simp add: placed_def)
  have st: "run (store_world a (\<lambda>w. w\<lparr>w_size := target\<rparr>)) (placed s a ?c) = Ok () ?b"
    using run_store_world [of a "placed s a ?c" ?c] n(1) by (simp add: placed_def grown_def)
  have ld: "run (load_world a) (placed s a (new_world_of target)) = Ok (new_world_of target) (placed s a (new_world_of target))"
    using n(1) by (simp add: exec)
  obtain i' u' t where r: "run (cb World_modify ?i u) ?b = Ok (0, i', u') t" and post: "post ?i u ?b i' u' t"
    using succeeds [OF assms(6)] by blast
  note ins = installs [OF assms(6) post]
  then have nl: "new_locked i' = 0" using assms(3) by (auto simp: installable_def)
  have i': "new_world i' = a" "new_bit i' \<le> 1" "q_world (q t) = p" "swap_ready E intention t (result_p i') p"
    using ins c(3) by (simp_all add: installable_def)
  obtain v where v: "worlds t a = Some v" "wf_world E v" using ins by (auto simp: installable_def)
  have b3: "new_bit i' \<le> 3" using i'(2) by (rule order_trans) simp
  have mk: "run (mulle_aba_worldpointer_make E (new_world i') (new_bit i')) t = Ok (new_world i' OR new_bit i') t"
    using run_make [OF b3] n(2) i'(1) by simp
  have gs: "get_struct (result_p i') = a" by (rule get_struct_result [OF n(2) i'(1,2)])
  have np: "result_p i' \<noteq> p" using i'(4) by (auto simp: swap_ready_def)
  have sa: "run (mulle_aba_world_assert_sanity E th a) t = Ok () t" by (rule run_assert_sanity [OF n(1) v])
  have sw: "run (mulle_aba_storage_swap_worlds E intention (result_p i') p) t = Ok 0 (set_q_world (result_p i') t)"
    by (rule run_swap_worlds [OF i'(4) no_lock i'(3)])
  have "run (mulle_aba_storage_grow_worldpointer E th fuel target cb u) s =
       Ok (\<lparr>new_world_p = result_p i', old_world_p = p\<rparr>, u') (set_q_world (result_p i') t)"
    using p n(1) c(3-5) al ld cp st r mk gs np sa sw nl tg(2) assms(3)
    by (simp add: mulle_aba_storage_grow_worldpointer_def f exec null_info_def Let_def info_of_def
        result_p_def del: mulle_aba_storage_alloc_world.simps)
  from this post gs show ?thesis by (rule that)
qed

lemma run_copy_lock:
  assumes "changeable E s p w fuel" "a = calloc_at E (drained s)" "intention = Swap_register"
    and "get_lock p = 0" "w_link w = 0"
    and "pre (info_of a (set_lock p 1)) u (placed (set_q_world (set_lock p 1) s) a (copy_of w))"
  obtains i' u' t where
    "run (mulle_aba_storage_copy_lock_worldpointer E th fuel cb u) s =
       Ok (\<lparr>new_world_p = result_p i', old_world_p = set_lock p 1\<rparr>, u', get_struct p) (set_q_world (result_p i') t)"
    "post (info_of a (set_lock p 1)) u (placed (set_q_world (set_lock p 1) s) a (copy_of w)) i' u' t"
    "get_struct (result_p i') = a"
proof -
  let ?p = "set_lock p 1"
  let ?s = "set_q_world ?p s"
  let ?b = "placed ?s a (copy_of w)" and ?i = "info_of a ?p"
  have c: "ext_ok E" "worlds_cached s" "q_world (q s) = p" "get_struct p \<noteq> 0" "worlds s (get_struct p) = Some w"
    "wf_world E w" "length (q_free_worlds (q s)) < fuel" "room E s 1"
    using assms(1) unfolding changeable_def by blast+
  have wc: "worlds_cached ?s" using c(2) by (simp add: worlds_cached_def)
  have ch: "changeable E ?s ?p w fuel"
    using c wc room_cong [of ?s s E 1] by (simp add: changeable_def)
  have dr: "calloc_at E (drained ?s) = a"
  proof -
    have "live (drained ?s) = live (drained s)" by (simp add: live_def fun_eq_iff)
    then show ?thesis using assms(2) by (simp add: calloc_at_def)
  qed
  note n = changeable_new [OF ch, unfolded dr]
  obtain f where f: "fuel = Suc f" using c(7) by (cases fuel) auto
  note sz = wf_world_size [OF c(6)]
  have lk: "run (mulle_aba_storage_lock_worldpointer E (Suc f)) s = Ok \<lparr>new_world_p = ?p, old_world_p = p\<rparr> ?s"
    by (rule run_lock_worldpointer [OF c(4) assms(4) c(3)]) simp
  have al: "run (mulle_aba_storage_alloc_world E th (Suc f) (w_size w)) ?s = Ok a (placed ?s a (new_world_of (w_size w)))"
    using run_alloc_placed [OF ext_ok_parts(2) [OF c(1)] wc sz(1), of "Suc f" th] n(1) c(7) f dr
    by (simp del: mulle_aba_storage_alloc_world.simps)
  have cp: "run (mulle_aba_world_copy a (get_struct p)) (placed ?s a (new_world_of (w_size w))) = Ok () ?b"
    using run_world_copy [of a "get_struct p" "placed ?s a (new_world_of (w_size w))" w "new_world_of (w_size w)"]
      n c(4) sz(2) by (simp add: placed_def copy_of_def)
  obtain i' u' t where r: "run (cb World_modify ?i u) ?b = Ok (0, i', u') t" and post: "post ?i u ?b i' u' t"
    using succeeds [OF assms(6)] by blast
  note ins = installs [OF assms(6) post]
  then have nl: "new_locked i' = 0" using assms(3) by (auto simp: installable_def)
  have i': "new_world i' = a" "new_bit i' \<le> 1" "q_world (q t) = ?p" "swap_ready E Swap_register t (result_p i') ?p"
    "worlds t (get_struct p) = Some w"
    using ins assms(3) n(4,5) by (simp_all add: installable_def)
  obtain v where v: "worlds t a = Some v" "wf_world E v" using ins by (auto simp: installable_def)
  have b3: "new_bit i' \<le> 3" using i'(2) by (rule order_trans) simp
  have mk: "run (mulle_aba_worldpointer_make E (new_world i') (new_bit i')) t = Ok (new_world i' OR new_bit i') t"
    using run_make [OF b3] n(2) i'(1) by simp
  have gs: "get_struct (result_p i') = a" by (rule get_struct_result [OF n(2) i'(1,2)])
  have np: "result_p i' \<noteq> ?p" using i'(4) by (auto simp: swap_ready_def)
  have wb: "worlds ?b (get_struct p) = Some w" "worlds ?b a = Some (copy_of w)" using n(4,5) by simp_all
  have sa: "run (mulle_aba_world_assert_sanity E th (get_struct p)) ?s = Ok () ?s"
    "run (mulle_aba_world_assert_sanity E th (get_struct p)) ?b = Ok () ?b"
    "run (mulle_aba_world_assert_sanity E th a) ?b = Ok () ?b"
    "run (mulle_aba_world_assert_sanity E th a) t = Ok () t"
    using run_assert_sanity [OF c(4) _ c(6)] c(5) run_assert_sanity [OF c(4) wb(1) c(6)]
      run_assert_sanity [OF n(1) wb(2) wf_copy_of [OF c(6)]] run_assert_sanity [OF n(1) v] by simp_all
  have sw: "run (mulle_aba_storage_swap_worlds E Swap_register (result_p i') ?p) t = Ok 0 (set_q_world (result_p i') t)"
    by (rule run_swap_worlds [OF i'(4) _ i'(3)]) simp
  have lw: "worlds s (get_struct p) = Some w" "run (load_world (get_struct p)) ?s = Ok w ?s"
    using c(4,5) by (simp_all add: exec)
  have "(set_q_world (result_p i') t)\<lparr>worlds := (worlds t)(get_struct p \<mapsto> w\<lparr>w_link := 0\<rparr>)\<rparr> = set_q_world (result_p i') t"
  proof -
    have "w\<lparr>w_link := 0\<rparr> = w" using assms(5) by simp
    then have "(worlds t)(get_struct p \<mapsto> w\<lparr>w_link := 0\<rparr>) = worlds t" using i'(5) by (simp add: fun_upd_idem)
    then show ?thesis by (simp add: set_q_world_def)
  qed
  then have ln: "run (store_world (get_struct p) (\<lambda>w. w\<lparr>w_link := 0\<rparr>)) (set_q_world (result_p i') t)
      = Ok () (set_q_world (result_p i') t)"
    using run_store_world [of "get_struct p" "set_q_world (result_p i') t" w "\<lambda>w. w\<lparr>w_link := 0\<rparr>"] c(4) i'(5) by simp
  have lw': "run (load_world (get_struct p)) (set_q_world (result_p i') t) = Ok w (set_q_world (result_p i') t)"
    using c(4) i'(5) by (simp add: exec)
  have la: "run (load_world a) ?b = Ok (copy_of w) ?b" using n(1) wb(2) by (simp add: exec)
  have "run (mulle_aba_storage_copy_lock_worldpointer E th fuel cb u) s =
       Ok (\<lparr>new_world_p = result_p i', old_world_p = ?p\<rparr>, u', get_struct p) (set_q_world (result_p i') t)"
    using n(1,5) c(4) lk lw al cp la r mk gs np sa sw nl ln lw' assms(5)
    by (simp add: mulle_aba_storage_copy_lock_worldpointer_def f run_bnd run_if run_c_assert
        null_info_def Let_def info_of_def result_p_def run_done_worldpointers
        del: mulle_aba_storage_alloc_world.simps mulle_aba_storage_lock_worldpointer.simps)
  from this post gs show ?thesis by (rule that)
qed

end

section \<open>Locking while other threads change the pointer\<close>

text \<open>Other threads install the values \<open>ps\<close>, one before each access; \<open>seen\<close> is the value that is
  in memory after the first \<open>n\<close> of them.\<close>

definition seen :: "mem \<Rightarrow> uptr list \<Rightarrow> nat \<Rightarrow> uptr" where
  "seen s ps n = last (q_world (q s) # take n ps)"

lemma set_q_world_same: "set_q_world (q_world (q s)) s = s"
  by (simp add: set_q_world_def)

lemma runi_cas_world:
  "runi (cas_world new expect) (map set_q_world ps) s =
     (let v = seen s ps 1 in Ok v (set_q_world (if v = expect then new else v) s, map set_q_world (drop 1 ps)))"
  by (cases ps) (simp_all add: cas_world_def seen_def Let_def set_q_world_same)

lemma seen_drop:
  "seen (set_q_world (seen s ps 1) s) (drop 1 ps) n = seen s ps (if ps = [] then 0 else Suc n)"
  by (cases ps) (simp_all add: seen_def)

lemma runi_try_lock:
  "\<lbrakk>p \<noteq> 0; 0 \<notin> set (q_world (q s) # ps); get_struct p = old;
    length ps + (if p = q_world (q s) then 0 else 1) < fuel\<rbrakk> \<Longrightarrow>
   \<exists>r n t. runi (try_set_lock_loop E fuel old p 1) (map set_q_world ps) s = Ok r (t, map set_q_world (drop n ps))
     \<and> n \<le> length ps
     \<and> (r \<noteq> 0 \<longrightarrow> get_lock r = 1 \<and> get_struct r = old \<and> t = set_q_world r s \<and> seen s ps n = set_lock r 0)
     \<and> (r = 0 \<longrightarrow> t = set_q_world (seen s ps n) s
          \<and> (get_lock p = 1 \<and> n = 0 \<or> get_lock (seen s ps n) = 1 \<or> get_struct (seen s ps n) \<noteq> old))"
proof (induction fuel arbitrary: p s ps)
  case (Suc fuel)
  let ?v = "seen s ps 1" and ?ps = "drop 1 ps" and ?k = "if ps = [] then 0 else 1 :: nat"
  have v: "?v \<in> set (q_world (q s) # ps)" by (cases ps) (simp_all add: seen_def)
  have k: "seen s ps ?k = ?v" "drop ?k ps = ?ps" by (cases ps; simp add: seen_def)+
  note cas = runi_cas_world [of "set_lock p 1" p ps s]
  show ?case
  proof (cases "get_lock p = 1")
    case True
    then show ?thesis
      by (intro exI [of _ 0] exI [of _ s]) (simp add: seen_def set_q_world_same)
  next
    case False
    then have l: "get_lock p = 0" using get_lock_cases by blast
    note asw = assert_swap_lock [OF Suc.prems(1) l, of E]
    consider "?v = p" | "?v \<noteq> p" "get_struct ?v \<noteq> old" | "?v \<noteq> p" "get_struct ?v = old" by blast
    then show ?thesis
    proof cases
      case 1
      then have "seen s ps ?k = set_lock (set_lock p 1) 0" using k l set_lock_same [of p] by simp
      with 1 l asw cas k Suc.prems(3) show ?thesis
        by (intro exI [of _ "set_lock p 1"] exI [of _ ?k] exI [of _ "set_q_world (set_lock p 1) s"])
          (simp add: runi_bnd Let_def skip_def Suc_le_eq)
    next
      case 2
      with l asw cas k show ?thesis
        by (intro exI [of _ 0] exI [of _ ?k] exI [of _ "set_q_world ?v s"])
          (simp add: runi_bnd Let_def skip_def Suc_le_eq)
    next
      case 3
      have "length ?ps + 0 < fuel" using Suc.prems(4) 3(1) by (cases ps) (auto simp: seen_def split: if_splits)
      moreover have "?v \<noteq> 0" "0 \<notin> set (q_world (q (set_q_world ?v s)) # ?ps)"
        using v Suc.prems(2) by (auto dest: in_set_dropD)
      ultimately obtain r n t where IH:
        "runi (try_set_lock_loop E fuel old ?v 1) (map set_q_world ?ps) (set_q_world ?v s) = Ok r (t, map set_q_world (drop n ?ps))"
        "n \<le> length ?ps"
        "r \<noteq> 0 \<longrightarrow> get_lock r = 1 \<and> get_struct r = old \<and> t = set_q_world r (set_q_world ?v s)
          \<and> seen (set_q_world ?v s) ?ps n = set_lock r 0"
        "r = 0 \<longrightarrow> t = set_q_world (seen (set_q_world ?v s) ?ps n) (set_q_world ?v s)
          \<and> (get_lock ?v = 1 \<and> n = 0 \<or> get_lock (seen (set_q_world ?v s) ?ps n) = 1
             \<or> get_struct (seen (set_q_world ?v s) ?ps n) \<noteq> old)"
        using Suc.IH [of ?v "set_q_world ?v s" ?ps] 3(2) by auto
      let ?m = "if ps = [] then 0 else Suc n"
      have m: "drop n ?ps = drop ?m ps" "?m \<le> length ps" using IH(2) by (cases ps; simp)+
      have sn: "seen (set_q_world ?v s) ?ps n = seen s ps ?m" by (rule seen_drop)
      have n0: "seen s ps ?m = ?v" if "n = 0" using that by (cases ps) (simp_all add: seen_def)
      have "runi (try_set_lock_loop E (Suc fuel) old p 1) (map set_q_world ps) s =
        runi (try_set_lock_loop E fuel old ?v 1) (map set_q_world ?ps) (set_q_world ?v s)"
        using 3 l asw cas by (simp add: runi_bnd Let_def skip_def)
      then have r: "runi (try_set_lock_loop E (Suc fuel) old p 1) (map set_q_world ps) s
        = Ok r (t, map set_q_world (drop ?m ps))"
        using IH(1) m(1) by (simp only: )
      have "r = 0 \<longrightarrow> t = set_q_world (seen s ps ?m) s
        \<and> (get_lock p = 1 \<and> ?m = 0 \<or> get_lock (seen s ps ?m) = 1 \<or> get_struct (seen s ps ?m) \<noteq> old)"
        using IH(4) n0 unfolding sn set_q_world_twice by metis
      moreover have "r \<noteq> 0 \<longrightarrow> get_lock r = 1 \<and> get_struct r = old \<and> t = set_q_world r s \<and> seen s ps ?m = set_lock r 0"
        using IH(3) unfolding sn set_q_world_twice .
      ultimately show ?thesis using r m(2) by blast
    qed
  qed
qed simp

section \<open>Properties\<close>

text \<open>C21: Locking the world pointer is linearizable and lock-free: whatever world pointers other
  threads install meanwhile, the attempt ends after at most one round per change and two more. If it
  returns a pointer, then at one instant the pointer in memory was that world's, unlocked, and was
  replaced by exactly the locked one returned. If it returns NULL it has changed nothing, and
  the pointer was locked or belonged to another world.\<close>

theorem try_lock_linearizable:
  assumes "p \<noteq> 0" "0 \<notin> set (q_world (q s) # ps)" "length ps + 1 < fuel"
  shows "\<exists>r n t. runi (mulle_aba_storage_try_lock_worldpointer E fuel p) (map set_q_world ps) s
        = Ok r (t, map set_q_world (drop n ps)) \<and> n \<le> length ps
    \<and> (r \<noteq> 0 \<longrightarrow> get_lock r = 1 \<and> get_struct r = get_struct p \<and> t = set_q_world r s \<and> seen s ps n = set_lock r 0)
    \<and> (r = 0 \<longrightarrow> t = set_q_world (seen s ps n) s \<and> (get_lock p = 1 \<and> n = 0 \<or> get_lock (seen s ps n) = 1
         \<or> get_struct (seen s ps n) \<noteq> get_struct p))"
proof -
  have "length ps + (if p = q_world (q s) then 0 else 1) < fuel" using assms(3) by simp
  from runi_try_lock [OF assms(1,2) refl this] show ?thesis
    unfolding mulle_aba_storage_try_lock_worldpointer_def mulle_aba_storage_try_set_lock_worldpointer_def .
qed

theorem try_lock_linearizable_witness:
  "\<exists>r n t. runi (mulle_aba_storage_try_lock_worldpointer sample_ext 3 64) (map set_q_world [65]) (set_q_world 64 sample_mem)
    = Ok r (t, map set_q_world (drop n [65])) \<and> n \<le> 1"
proof -
  have "(64 :: uptr) \<noteq> 0" "0 \<notin> set (q_world (q (set_q_world 64 sample_mem)) # [65])" "length [65 :: uptr] + 1 < 3"
    by (simp_all add: sample_mem_def)
  from try_lock_linearizable [OF this, of sample_ext] show ?thesis by simp blast
qed

text \<open>C31: A change in place refuses a locked world pointer: \<open>errno\<close> is \<open>EWOULDBLOCK\<close>, no pointers are
  returned, the callback is not called and memory is untouched.\<close>

theorem change_refuses_locked:
  assumes "get_lock p = 1" "intention \<noteq> Swap_unlock"
  shows "run (mulle_aba_storage_change_worldpointer E th (Suc fuel) intention p cb u) s =
    Ok (\<lparr>new_world_p = 0, old_world_p = 0\<rparr>, u) (s\<lparr>errno := (errno s)(th := EWOULDBLOCK)\<rparr>)"
  using assms by (intro run_change_locked) simp_all

theorem change_refuses_locked_witness:
  "run (mulle_aba_storage_change_worldpointer sample_ext 0 1 Swap_checkin 66 (\<lambda>c i u. Crash Abort) ()) sample_mem =
    Ok (\<lparr>new_world_p = 0, old_world_p = 0\<rparr>, ()) (sample_mem\<lparr>errno := (errno sample_mem)(0 := EWOULDBLOCK)\<rparr>)"
  using change_refuses_locked [of 66 Swap_checkin sample_ext 0 0 "\<lambda>c i u. Crash Abort" "()" sample_mem]
  by (simp add: mulle_aba_worldpointer_get_lock_def del: mulle_aba_storage_change_worldpointer.simps)

end
