(* ===== verification/Aba_Callbacks.thy ===== *)
theory Aba_Callbacks
  imports Aba_Swap
begin

text \<open>
  The callbacks of \<open>src/mulle-aba.c\<close>: how a world changes when a thread registers, checks in or
  unregisters and when a pointer is freed (next timestamp in the present storages, in a storage
  that is added, in a storage that is reused).
\<close>

section \<open>Registering and checking in\<close>

definition assert_info :: "ext \<Rightarrow> callback_info \<Rightarrow> (mem, unit) prog" where
  "assert_info E info = c_assert E (old_world info \<noteq> new_world info)"

definition add_thread :: "ext \<Rightarrow> unit callback" where
  "add_thread E mode info u =
     bnd (assert_info E info) (\<lambda>_.
     if mode \<noteq> World_modify then Ret (0, info, u)
     else bnd (if ndebug E then skip
               else bnd (load_world (new_world info)) (\<lambda>new.
                    bnd (load_world (old_world info)) (\<lambda>old.
                    c_assert E (w_timestamp new = w_timestamp old)))) (\<lambda>_.
          bnd (store_world (new_world info) (\<lambda>w. w\<lparr>w_n_threads := w_n_threads w + 1\<rparr>)) (\<lambda>_.
          Ret (0, info\<lparr>new_bit := 1\<rparr>, u))))"

definition set_bit :: "unit callback" where
  "set_bit mode info u =
     (if mode = World_discard then Ret (0, info, u) else Ret (0, info\<lparr>new_bit := 1\<rparr>, u))"

section \<open>Unregistering\<close>

record remove_context =
  rc_timestamp :: uptr
  rc_locked_world :: uptr

text \<open>The last thread resets the world to its initial conditions: everything from \<open>_timestamp\<close> on
  is cleared, then \<open>_size\<close> is restored.\<close>

definition reset_world :: "world \<Rightarrow> world" where
  "reset_world w = w\<lparr>w_timestamp := 0, w_n_threads := 0, w_offset := 0, w_n := 0,
     w_storage := replicate (unat (w_size w)) 0 @ drop (unat (w_size w)) (w_storage w)\<rparr>"

definition remove_thread :: "ext \<Rightarrow> remove_context callback" where
  "remove_thread E mode info context =
     bnd (assert_info E info) (\<lambda>_.
     if mode = World_discard then Ret (0, info, context)
     else if old_locked info = 0 then Ret (EAGAIN, info, context)
     else bnd (load_world (new_world info)) (\<lambda>w.
       if w_timestamp w \<noteq> rc_timestamp context then Ret (EAGAIN, info, context)
       else if old_world info \<noteq> rc_locked_world context then Ret (EAGAIN, info, context)
       else bnd (store_world (new_world info) (\<lambda>w. w\<lparr>w_n_threads := w_n_threads w - 1\<rparr>)) (\<lambda>_.
         if w_n_threads w - 1 \<noteq> 0
         then bnd (c_assert E (0 <s w_n_threads w - 1)) (\<lambda>_.
              Ret (0, info\<lparr>new_bit := 1\<rparr>, context))
         else bnd (c_assert E (\<forall>a \<in> set (take (unat (w_n w)) (w_storage w)). a \<noteq> 0)) (\<lambda>_.
              check_bound (unat (w_size w) \<le> length (w_storage w)) (
              bnd (store_world (new_world info) reset_world) (\<lambda>_.
              bnd (c_assert E (w_link w = 0)) (\<lambda>_.
              Ret (0, info\<lparr>new_bit := 0, new_locked := 1\<rparr>, context))))))))"

section \<open>Freeing a pointer\<close>

record add_context =
  ac_ts_storage :: uptr

definition handle_callback_mode_for_add_context :: "ext \<Rightarrow> tid \<Rightarrow> world_cmd \<Rightarrow> callback_info \<Rightarrow> add_context
    \<Rightarrow> (mem, int \<times> add_context) prog" where
  "handle_callback_mode_for_add_context E th mode info context =
     bnd (assert_info E info) (\<lambda>_.
     if mode = World_discard
     then bnd (mulle_aba_timestampstorage_free E (ac_ts_storage context)) (\<lambda>_.
          Ret (0, context\<lparr>ac_ts_storage := 0\<rparr>))
     else bnd (if mode = World_modify
               then bnd (mulle_aba_timestampstorage_alloc E) (\<lambda>a. Ret (context\<lparr>ac_ts_storage := a\<rparr>))
               else Ret context) (\<lambda>context.
       if mode = World_modify \<and> ac_ts_storage context = 0
       then bnd (get_errno th) (\<lambda>e. Ret (e, context))
       else bnd (load_world (new_world info)) (\<lambda>w.
         bnd (c_assert E (w_n w < w_size w)) (\<lambda>_.
         check_bound (unat (w_n w) < length (w_storage w)) (
         bnd (c_assert E (w_storage w ! unat (w_n w) = 0
                \<or> w_storage w ! unat (w_n w) = ac_ts_storage context)) (\<lambda>_.
         bnd (c_assert E (w_n w = 0 \<or> w_storage w ! unat (w_n w - 1) \<noteq> ac_ts_storage context)) (\<lambda>_.
         bnd (store_world (new_world info) (\<lambda>w. w\<lparr>
                w_storage := (w_storage w)[unat (w_n w) := ac_ts_storage context],
                w_n := w_n w + 1\<rparr>)) (\<lambda>_.
         Ret (0, context)))))))))"

definition pre_check_world_for_timestamp_increment ::
  "ext \<Rightarrow> tid \<Rightarrow> callback_info \<Rightarrow> add_context \<Rightarrow> (mem, int \<times> add_context) prog" where
  "pre_check_world_for_timestamp_increment E th info context =
     bnd (assert_info E info) (\<lambda>_.
     bnd (load_world (new_world info)) (\<lambda>w.
       if w_n_threads w \<le>s 1
       then bnd (handle_callback_mode_for_add_context E th World_discard info context) (\<lambda>(_, context).
            Ret (EAGAIN, context))
       else if old_bit info = 0 then Ret (EBUSY, context)
       else Ret (0, context)))"

definition size_check_world_for_timestamp_increment :: "ext \<Rightarrow> callback_info \<Rightarrow> (mem, int) prog" where
  "size_check_world_for_timestamp_increment E info =
     bnd (assert_info E info) (\<lambda>_.
     bnd (load_world (new_world info)) (\<lambda>w.
       Ret (if (ucast (w_n w * word_of_nat (n_entries E)) :: uptr) \<le> w_timestamp w - w_offset w + 1
            then EBUSY else 0)))"

definition increment_world_timestamp :: "ext \<Rightarrow> tid \<Rightarrow> nat \<Rightarrow> callback_info \<Rightarrow> (mem, callback_info) prog" where
  "increment_world_timestamp E th fuel info =
     bnd (assert_info E info) (\<lambda>_.
     bnd (store_world (new_world info) (\<lambda>w. w\<lparr>w_timestamp :=
            (if w_timestamp w + 1 = 0 then 1 else w_timestamp w + 1)\<rparr>)) (\<lambda>_.
     bnd (load_world (new_world info)) (\<lambda>w.
     bnd (mulle_aba_world_get_timestampstorage E th (new_world info) (w_timestamp w)) (\<lambda>ts_storage.
     bnd (mulle_aba_timestampstorage_set_usage_bit E fuel ts_storage
            (mulle_aba_timestampstorage_get_timestamp_index E (w_timestamp w)) 1) (\<lambda>_.
     Ret (info\<lparr>new_bit := 0\<rparr>))))))"

definition increment_timestamp :: "ext \<Rightarrow> tid \<Rightarrow> nat \<Rightarrow> add_context callback" where
  "increment_timestamp E th fuel mode info context =
     bnd (assert_info E info) (\<lambda>_.
     if mode = World_discard
     then bnd (handle_callback_mode_for_add_context E th mode info context) (\<lambda>(_, context).
          Ret (0, info, context))
     else bnd (pre_check_world_for_timestamp_increment E th info context) (\<lambda>(rval, context).
       if rval \<noteq> 0 then Ret (rval, info, context)
       else bnd (size_check_world_for_timestamp_increment E info) (\<lambda>rval.
         if rval \<noteq> 0 then Ret (rval, info, context)
         else bnd (increment_world_timestamp E th fuel info) (\<lambda>info. Ret (0, info, context)))))"

definition add_storage_and_increment_timestamp :: "ext \<Rightarrow> tid \<Rightarrow> nat \<Rightarrow> add_context callback" where
  "add_storage_and_increment_timestamp E th fuel mode info context =
     bnd (assert_info E info) (\<lambda>_.
     if mode = World_discard
     then bnd (mulle_aba_timestampstorage_free E (ac_ts_storage context)) (\<lambda>_.
          Ret (0, info, context\<lparr>ac_ts_storage := 0\<rparr>))
     else bnd (pre_check_world_for_timestamp_increment E th info context) (\<lambda>(rval, context).
       if rval \<noteq> 0
       then (if mode = World_reuse
             then bnd (mulle_aba_timestampstorage_free E (ac_ts_storage context)) (\<lambda>_.
                  Ret (rval, info, context\<lparr>ac_ts_storage := 0\<rparr>))
             else Ret (rval, info, context))
       else bnd (load_world (new_world info)) (\<lambda>w.
         if w_size w \<le> w_n w then Ret (EBUSY, info, context)
         else bnd (handle_callback_mode_for_add_context E th mode info context) (\<lambda>(rval, context).
           if rval \<noteq> 0 then Ret (rval, info, context)
           else bnd (size_check_world_for_timestamp_increment E info) (\<lambda>rval.
             if rval \<noteq> 0 then Ret (rval, info, context)
             else bnd (increment_world_timestamp E th fuel info) (\<lambda>info. Ret (0, info, context)))))))"

definition reorganize_storage_and_increment_timestamp :: "ext \<Rightarrow> tid \<Rightarrow> nat \<Rightarrow> add_context callback" where
  "reorganize_storage_and_increment_timestamp E th fuel mode info context =
     bnd (assert_info E info) (\<lambda>_.
     if mode = World_discard
     then bnd (handle_callback_mode_for_add_context E th mode info context) (\<lambda>(_, context).
          Ret (0, info, context))
     else bnd (pre_check_world_for_timestamp_increment E th info context) (\<lambda>(rval, context).
       if rval \<noteq> 0 then Ret (rval, info, context)
       else bnd (mulle_aba_world_reuse_storages E th (new_world info)) (\<lambda>reused.
         if reused = 0 then Ret (EBUSY, info, context)
         else bnd (size_check_world_for_timestamp_increment E info) (\<lambda>rval.
           if rval \<noteq> 0 then Ret (rval, info, context)
           else bnd (increment_world_timestamp E th fuel info) (\<lambda>info. Ret (0, info, context))))))"

section \<open>What a callback sees\<close>

text \<open>Comparisons of thread counts and timestamps are signed in the code; in range they are those of the naturals.\<close>

lemma sint_small: "unat (a :: uptr) < 2 ^ 63 \<Longrightarrow> sint a = int (unat a)"
proof -
  assume "unat a < 2 ^ 63"
  then have "int (unat a) < int (2 ^ 63)" by (simp only: of_nat_less_iff)
  moreover have "int (unat a) = uint a" by simp
  ultimately have "uint a < 2 ^ 63" by simp
  moreover have "- (2 ^ 63) \<le> uint a" by (rule order_trans [of _ 0]) simp_all
  ultimately show ?thesis
    using signed_take_bit_int_eq_self [of 63 "uint a"] by (simp add: sint_uint)
qed

lemma sless_unat: "unat a < 2 ^ 63 \<Longrightarrow> unat b < 2 ^ 63 \<Longrightarrow> (a :: uptr) <s b \<longleftrightarrow> unat a < unat b"
  by (simp only: word_sless_alt sint_small of_nat_less_iff)

text \<open>
  The world \<open>v\<close> a callback may change is a copy of the world \<open>w\<close> behind the world pointer \<open>p\<close>;
  both are well-formed and agree in timestamp and threads; there are fewer than 10000 threads (what debug builds
  assert).
\<close>

definition sees :: "ext \<Rightarrow> callback_info \<Rightarrow> mem \<Rightarrow> world \<Rightarrow> world \<Rightarrow> bool" where
  "sees E i s v w \<longleftrightarrow> new_world i \<noteq> 0 \<and> aligned (new_world i) \<and> old_world i \<noteq> 0 \<and> new_world i \<noteq> old_world i
     \<and> worlds s (new_world i) = Some v \<and> worlds s (old_world i) = Some w \<and> wf_world E v \<and> wf_world E w
     \<and> old_world i = get_struct (q_world (q s)) \<and> old_bit i = get_bit' (q_world (q s))
     \<and> old_locked i = get_lock (q_world (q s)) \<and> new_bit i = old_bit i \<and> new_locked i = 0
     \<and> w_link v = 0 \<and> w_timestamp v = w_timestamp w \<and> w_n_threads v = w_n_threads w
     \<and> unat (w_n_threads w) < 10000"

lemma seesD:
  assumes "sees E i s v w"
  shows "new_world i \<noteq> 0" "aligned (new_world i)" "old_world i \<noteq> 0" "new_world i \<noteq> old_world i"
    "worlds s (new_world i) = Some v" "worlds s (old_world i) = Some w" "wf_world E v" "wf_world E w"
    "get_struct (q_world (q s)) = old_world i" "get_bit' (q_world (q s)) = old_bit i"
    "get_lock (q_world (q s)) = old_locked i" "new_bit i = old_bit i" "new_locked i = 0" "w_link v = 0"
    "w_timestamp v = w_timestamp w" "w_n_threads v = w_n_threads w" "unat (w_n_threads w) < 10000"
  using assms unfolding sees_def by (elim conjE; simp only:)+

text \<open>The unlocked states of the world pointer that occur: no thread, one thread with the bit set,
  or more threads, with the bit set if the timestamp is 0.\<close>

definition good_state :: "uptr \<Rightarrow> world \<Rightarrow> bool" where
  "good_state p w \<longleftrightarrow> (w_n_threads w = 0 \<longrightarrow> get_bit' p = 0 \<and> w_timestamp w = 0)
     \<and> (w_n_threads w \<noteq> 0 \<and> get_bit' p = 0 \<longrightarrow> 1 < unat (w_n_threads w) \<and> w_timestamp w \<noteq> 0)"

lemma state_alt:
  "unat (w_n_threads w) < 2 ^ 63 \<Longrightarrow> mulle_aba_worldpointer_state p w = unat (get_bit' p) + 2 * unat (get_lock p)
     + (if w_timestamp w \<noteq> 0 then 4 else 0) + (if 1 < unat (w_n_threads w) then 8 else 0)"
  by (simp add: worldpointer_state sless_unat)

lemma less_10000: "unat a < 10000 \<Longrightarrow> unat (a :: uptr) < 2 ^ 63" "unat a < 10000 \<Longrightarrow> a <s 10000"
proof -
  assume a: "unat a < 10000"
  then show b: "unat a < 2 ^ 63" by (rule less_trans) simp
  show "a <s 10000" using a sless_unat [OF b, of 10000] by simp
qed

section \<open>Registering\<close>

definition one_more :: "world \<Rightarrow> world" where
  "one_more w = w\<lparr>w_n_threads := w_n_threads w + 1\<rparr>"

lemma unat_plus_1: "unat (a :: uptr) < 2 ^ 63 \<Longrightarrow> unat (a + 1) = unat a + 1"
proof -
  assume "unat a < 2 ^ 63"
  then have "unat a + 1 < 2 ^ 64" by simp
  then show ?thesis by (simp add: unat_word_ariths)
qed

definition add_pre :: "ext \<Rightarrow> callback_info \<Rightarrow> unit \<Rightarrow> mem \<Rightarrow> bool" where
  "add_pre E i u s \<longleftrightarrow> (\<exists>v w. sees E i s v w \<and> old_locked i = 1 \<and> good_state (q_world (q s)) w
     \<and> unat (w_n_threads w) + 1 < 10000)"

definition add_post :: "callback_info \<Rightarrow> unit \<Rightarrow> mem \<Rightarrow> callback_info \<Rightarrow> unit \<Rightarrow> mem \<Rightarrow> bool" where
  "add_post i u s i' u' t \<longleftrightarrow> i' = i\<lparr>new_bit := 1\<rparr>
     \<and> t = s\<lparr>worlds := (worlds s)(new_world i := map_option one_more (worlds s (new_world i)))\<rparr>"

interpretation add_thread_change: world_callback E Swap_register "add_thread E" "add_pre E" add_post for E
proof unfold_locales
  fix i s and u :: unit assume "add_pre E i u s"
  then obtain v w where "sees E i s v w" unfolding add_pre_def by blast
  then show "\<exists>i' u' t. run (add_thread E World_modify i u) s = Ok (0, i', u') t \<and> add_post i u s i' u' t"
    by (auto simp: add_thread_def assert_info_def exec sees_def add_post_def one_more_def)
next
  fix i s i' t and u u' :: unit assume pre: "add_pre E i u s" and post: "add_post i u s i' u' t"
  then obtain v w where sees: "sees E i s v w" and l: "old_locked i = 1" and g: "good_state (q_world (q s)) w"
    and n: "unat (w_n_threads w) + 1 < 10000" unfolding add_pre_def by blast
  let ?p = "q_world (q s)" and ?v = "one_more v"
  note f = seesD [OF sees]
  have t: "worlds t (new_world i) = Some ?v" "worlds t (old_world i) = Some w" "q t = q s"
    and i': "i' = i\<lparr>new_bit := 1\<rparr>" using f(4-6) post by (auto simp: add_post_def)
  have b: "unat (w_n_threads w) < 2 ^ 63" "unat (w_n_threads w) < 10000" using n by simp_all
  have n': "unat (w_n_threads ?v) = unat (w_n_threads w) + 1" "unat (w_n_threads ?v) < 10000"
    using unat_plus_1 [OF b(1)] f(16) n by (simp_all add: one_more_def)
  have nz: "w_n_threads ?v \<noteq> 0" "w_n_threads ?v \<noteq> w_n_threads w"
    using n'(1) by (auto simp: word_unat_eq_iff)
  have wf: "wf_world E ?v" using f(7) nz(1) by (simp add: wf_world_def wf_shape_def one_more_def)
  have r: "result_p i' = new_world i OR 1" using f(13) i' by (simp add: result_p_def)
  note np = new_pointer [OF f(2) order_refl]
  have ts: "w_timestamp ?v = w_timestamp w" "w_link ?v = 0" using f(14,15) by (simp_all add: one_more_def)
  have st: "valid_transition (mulle_aba_worldpointer_state (new_world i OR 1) ?v) (mulle_aba_worldpointer_state ?p w) Swap_register"
    unfolding state_alt [OF b(1)] state_alt [OF less_10000(1) [OF n'(2)]] np f(11) l ts n'(1)
    using g get_bit_cases [of ?p] by (auto simp: valid_transition_def good_state_def unat_gt_0)
  have ok: "swap_worlds_ok E Swap_register (new_world i OR 1) ?p ?v w"
    using np ts nz less_10000(2) [OF n'(2)] less_10000(2) [OF b(2)] f(4,9)
    by (auto simp: swap_worlds_ok_def Let_def)
  have "new_world i OR 1 \<noteq> ?p" using np(3) f(11) l by auto
  then have "swap_ready E Swap_register t (result_p i') ?p"
    unfolding swap_ready_def r np f(9) using t st ok f(1,3) by blast
  then show "installable E Swap_register s t i i'"
    using t wf i' f(6,13) by (intro installableI [of _ _ _ _ _ ?v]) simp_all
qed simp

section \<open>Checking in on a copy\<close>

definition bit_pre :: "ext \<Rightarrow> callback_info \<Rightarrow> unit \<Rightarrow> mem \<Rightarrow> bool" where
  "bit_pre E i u s \<longleftrightarrow> (\<exists>v w. sees E i s v w \<and> old_locked i = 1 \<and> good_state (q_world (q s)) w
     \<and> w_timestamp w \<noteq> 0)"

definition bit_post :: "callback_info \<Rightarrow> unit \<Rightarrow> mem \<Rightarrow> callback_info \<Rightarrow> unit \<Rightarrow> mem \<Rightarrow> bool" where
  "bit_post i u s i' u' t \<longleftrightarrow> i' = i\<lparr>new_bit := 1\<rparr> \<and> t = s"

interpretation set_bit_change: world_callback E Swap_checkin "set_bit" "bit_pre E" bit_post for E
proof unfold_locales
  fix i s and u :: unit
  show "\<exists>i' u' t. run (set_bit World_modify i u) s = Ok (0, i', u') t \<and> bit_post i u s i' u' t"
    by (simp add: set_bit_def bit_post_def)
next
  fix i s i' t and u u' :: unit assume "bit_pre E i u s" and post: "bit_post i u s i' u' t"
  then obtain v w where sees: "sees E i s v w" and l: "old_locked i = 1" and g: "good_state (q_world (q s)) w"
    and ts: "w_timestamp w \<noteq> 0" unfolding bit_pre_def by blast
  let ?p = "q_world (q s)"
  note f = seesD [OF sees]
  have i': "i' = i\<lparr>new_bit := 1\<rparr>" "t = s" using post by (simp_all add: bit_post_def)
  note b = less_10000 [OF f(17)]
  have r: "result_p i' = new_world i OR 1" using f(13) i' by (simp add: result_p_def)
  note np = new_pointer [OF f(2) order_refl]
  have bv: "unat (w_n_threads v) < 2 ^ 63" using b(1) f(16) by simp
  have st: "valid_transition (mulle_aba_worldpointer_state (new_world i OR 1) v) (mulle_aba_worldpointer_state ?p w) Swap_checkin"
    unfolding state_alt [OF b(1)] state_alt [OF bv] np f(11) l f(15,16)
    using g ts get_bit_cases [of ?p] by (auto simp: valid_transition_def good_state_def unat_gt_0)
  have ok: "swap_worlds_ok E Swap_checkin (new_world i OR 1) ?p v w"
    using np f(4,9,14,15,16) b by (auto simp: swap_worlds_ok_def Let_def)
  have "new_world i OR 1 \<noteq> ?p" using np(3) f(11) l by auto
  then have "swap_ready E Swap_checkin t (result_p i') ?p"
    unfolding swap_ready_def r np f(9) i'(2) using st ok f(1,3,5,6) by blast
  then show "installable E Swap_checkin s t i i'"
    using f(5,7,13) i' by (intro installableI [of _ _ _ _ _ v]) simp_all
qed simp

section \<open>Unregistering\<close>

definition one_less :: "world \<Rightarrow> world" where
  "one_less w = w\<lparr>w_n_threads := w_n_threads w - 1\<rparr>"

definition removed :: "world \<Rightarrow> world" where
  "removed w = (if w_n_threads w = 1 then reset_world (one_less w) else one_less w)"

definition remove_pre :: "ext \<Rightarrow> callback_info \<Rightarrow> remove_context \<Rightarrow> mem \<Rightarrow> bool" where
  "remove_pre E i c s \<longleftrightarrow> (\<exists>v w. sees E i s v w \<and> old_locked i = 1 \<and> good_state (q_world (q s)) w
     \<and> w_n_threads w \<noteq> 0 \<and> rc_timestamp c = w_timestamp w \<and> rc_locked_world c = old_world i)"

definition remove_post :: "callback_info \<Rightarrow> remove_context \<Rightarrow> mem \<Rightarrow> callback_info \<Rightarrow> remove_context \<Rightarrow> mem \<Rightarrow> bool" where
  "remove_post i c s i' c' t \<longleftrightarrow> c' = c
     \<and> i' = (if map_option w_n_threads (worlds s (new_world i)) = Some 1
             then i\<lparr>new_bit := 0, new_locked := 1\<rparr> else i\<lparr>new_bit := 1\<rparr>)
     \<and> t = s\<lparr>worlds := (worlds s)(new_world i := map_option removed (worlds s (new_world i)))\<rparr>"

lemma reset_world_sel [simp]:
  "w_link (reset_world w) = w_link w" "w_timestamp (reset_world w) = 0" "w_n_threads (reset_world w) = 0"
  "w_offset (reset_world w) = 0" "w_size (reset_world w) = w_size w" "w_n (reset_world w) = 0"
  "w_storage (reset_world w) = replicate (unat (w_size w)) 0 @ drop (unat (w_size w)) (w_storage w)"
  by (simp_all add: reset_world_def)

lemma wf_reset_world:
  assumes "wf_shape E w" shows "wf_world E (reset_world w)"
proof -
  have "unat (w_size w) * n_entries E < 2 ^ 32" "unat (w_offset w) + unat (w_size w) * n_entries E < 2 ^ 63"
    using assms by (simp_all add: wf_shape_def)
  with assms show ?thesis by (simp add: wf_world_def wf_shape_def nth_append)
qed

lemma one_less_sel [simp]:
  "w_link (one_less w) = w_link w" "w_timestamp (one_less w) = w_timestamp w" "w_n_threads (one_less w) = w_n_threads w - 1"
  "w_offset (one_less w) = w_offset w" "w_size (one_less w) = w_size w" "w_n (one_less w) = w_n w"
  "w_storage (one_less w) = w_storage w"
  by (simp_all add: one_less_def)

lemma wf_one_less: "wf_world E w \<Longrightarrow> w_n_threads w \<noteq> 1 \<Longrightarrow> wf_world E (one_less w)"
  by (simp add: wf_world_def wf_shape_def)

lemma unat_minus_1_64: "(k :: uptr) \<noteq> 0 \<Longrightarrow> unat (k - 1) = unat k - 1"
  by (rule unat_minus_one)

lemma run_remove_thread:
  assumes "sees E i s v w" "old_locked i = 1" "w_n_threads w \<noteq> 0" "rc_timestamp c = w_timestamp w"
    and "rc_locked_world c = old_world i"
  shows "\<exists>i' c' t. run (remove_thread E World_modify i c) s = Ok (0, i', c') t \<and> remove_post i c s i' c' t"
proof -
  note f = seesD [OF assms(1)]
  have sh: "wf_shape E v" using f(7) by (rule wf_world_shape)
  have len: "unat (w_size v) \<le> length (w_storage v)" "unat (w_n v) \<le> unat (w_size v)"
    using sh by (simp_all add: wf_shape_def)
  have nz: "\<forall>a \<in> set (take (unat (w_n v)) (w_storage v)). a \<noteq> 0"
    using wf_shape_storage_nonzero [OF sh] by (auto simp: in_set_conv_nth)
  have nn: "unat (w_n_threads v - 1) < 2 ^ 63"
    using f(16,17) assms(3) by (simp add: unat_minus_1_64)
  have pos: "w_n_threads v - 1 \<noteq> 0 \<Longrightarrow> 0 <s w_n_threads v - 1"
    using sless_unat [of 0 "w_n_threads v - 1"] nn by (simp add: unat_gt_0)
  show ?thesis
  proof (cases "w_n_threads v = 1")
    case True
    then have "map_option removed (worlds s (new_world i)) = Some (reset_world (one_less v))"
      using f(5) by (simp add: removed_def)
    with True f(1,4,5) assms nz len show ?thesis
      by (simp add: remove_thread_def assert_info_def exec remove_post_def check_bound_def f(14,15) one_less_def
          split del: if_split)
  next
    case False
    then have "w_n_threads v - 1 \<noteq> 0" by simp
    moreover have "map_option removed (worlds s (new_world i)) = Some (one_less v)"
      using f(5) False by (simp add: removed_def)
    ultimately show ?thesis
      using False f(1,4,5) assms pos
      by (simp add: remove_thread_def assert_info_def exec remove_post_def f(15) one_less_def)
  qed
qed

interpretation remove_thread_change: world_callback E Swap_unregister "remove_thread E" "remove_pre E" remove_post for E
proof unfold_locales
  fix i c s assume "remove_pre E i c s"
  then show "\<exists>i' c' t. run (remove_thread E World_modify i c) s = Ok (0, i', c') t \<and> remove_post i c s i' c' t"
    unfolding remove_pre_def using run_remove_thread by blast
next
  fix i s i' t c c' assume "remove_pre E i c s" and post: "remove_post i c s i' c' t"
  then obtain v w where sees: "sees E i s v w" and l: "old_locked i = 1" and g: "good_state (q_world (q s)) w"
    and n: "w_n_threads w \<noteq> 0" unfolding remove_pre_def by blast
  let ?p = "q_world (q s)" and ?v = "removed v"
  note f = seesD [OF sees]
  have t: "worlds t (new_world i) = Some ?v" "worlds t (old_world i) = Some w" "q t = q s"
    using f(4-6) post by (auto simp: remove_post_def)
  note b = less_10000 [OF f(17)]
  have n1: "unat (w_n_threads v - 1) = unat (w_n_threads w) - 1" "unat (w_n_threads v - 1) < 10000"
    using n f(16,17) by (simp_all add: unat_minus_1_64)
  show "installable E Swap_unregister s t i i'"
  proof (cases "w_n_threads w = 1")
    case True
    then have v: "?v = reset_world (one_less v)" and i': "i' = i\<lparr>new_bit := 0, new_locked := 1\<rparr>"
      using f(5,16) post by (simp_all add: removed_def remove_post_def)
    have al0: "(0 :: uptr) \<le> 1" by simp
    note np = new_pointer [OF f(2) al0]
    have r: "result_p i' = set_lock (new_world i) 1" using i' by (simp add: result_p_def)
    have nl: "get_struct (result_p i') = new_world i" "get_bit' (result_p i') = 0" "get_lock (result_p i') = 1"
      unfolding r using np by simp_all
    have "wf_shape E (one_less v)" using wf_world_shape [OF f(7)] by (simp add: wf_shape_def)
    then have wf: "wf_world E ?v" unfolding v by (rule wf_reset_world)
    have st: "valid_transition (mulle_aba_worldpointer_state (result_p i') ?v) (mulle_aba_worldpointer_state ?p w) Swap_unregister"
      unfolding worldpointer_state nl f(11) l v
      using g True get_bit_cases [of ?p] by (auto simp: valid_transition_def good_state_def word_sless_alt)
    have ok: "swap_worlds_ok E Swap_unregister (result_p i') ?p ?v w"
      unfolding swap_worlds_ok_def nl v using f(4,9,14) b by (auto simp: Let_def word_sless_alt)
    have "result_p i' \<noteq> ?p" using nl(1) f(4,9) by auto
    then have "swap_ready E Swap_unregister t (result_p i') ?p"
      unfolding swap_ready_def nl(1) f(9) using t st ok f(1,3) by blast
    then show ?thesis
      using t wf i' f(6) by (intro installableI [of _ _ _ _ _ ?v]) simp_all
  next
    case False
    then have v: "?v = one_less v" and i': "i' = i\<lparr>new_bit := 1\<rparr>"
      using f(5,16) post by (simp_all add: removed_def remove_post_def)
    have r: "result_p i' = new_world i OR 1" using f(13) i' by (simp add: result_p_def)
    note np = new_pointer [OF f(2) order_refl]
    have "w_n_threads v \<noteq> 1" using False f(16) by simp
    then have wf: "wf_world E ?v" unfolding v by (rule wf_one_less [OF f(7)])
    have n2: "unat (w_n_threads w) \<noteq> 1" "0 < unat (w_n_threads w)"
      using False n by (simp add: word_unat_eq_iff, simp add: unat_gt_0)
    have e: "w_n_threads ?v = w_n_threads v - 1" by (simp only: v one_less_sel)
    have bv: "unat (w_n_threads ?v) < 2 ^ 63" "unat (w_n_threads ?v) = unat (w_n_threads w) - 1"
      "w_n_threads ?v <s 10000"
      unfolding e using n1 less_10000 [OF n1(2)] by blast+
    have bw: "w_timestamp ?v = w_timestamp w" "w_link ?v = 0" using v f(14,15) by simp_all
    have ne: "w_n_threads w \<noteq> w_n_threads ?v" using bv(2) n2 by (metis diff_less less_irrefl zero_less_one)
    have st: "valid_transition (mulle_aba_worldpointer_state (new_world i OR 1) ?v) (mulle_aba_worldpointer_state ?p w) Swap_unregister"
      unfolding state_alt [OF b(1)] state_alt [OF bv(1)] np f(11) l bv(2) bw(1)
      using g n2 get_bit_cases [of ?p] by (auto simp: valid_transition_def good_state_def)
    have ok: "swap_worlds_ok E Swap_unregister (new_world i OR 1) ?p ?v w"
      using np f(4,9) b bv bw ne by (auto simp: swap_worlds_ok_def Let_def)
    have "new_world i OR 1 \<noteq> ?p" using np(3) f(11) l by auto
    then have "swap_ready E Swap_unregister t (result_p i') ?p"
      unfolding swap_ready_def r np f(9) using t st ok f(1,3) by blast
    then show ?thesis
      using t wf i' f(6,13) by (intro installableI [of _ _ _ _ _ ?v]) simp_all
  qed
qed simp

section \<open>The next timestamp\<close>

definition bumped :: "world \<Rightarrow> world" where
  "bumped v = v\<lparr>w_timestamp := w_timestamp v + 1\<rparr>"

lemma bumped_sel [simp]:
  "w_link (bumped w) = w_link w" "w_timestamp (bumped w) = w_timestamp w + 1" "w_n_threads (bumped w) = w_n_threads w"
  "w_offset (bumped w) = w_offset w" "w_size (bumped w) = w_size w" "w_n (bumped w) = w_n w"
  "w_storage (bumped w) = w_storage w"
  by (simp_all add: bumped_def)

lemma bumped_slot [simp]: "covers E (bumped v) t = covers E v t" "slot_index E (bumped v) t = slot_index E v t"
  "slot E (bumped v) t = slot E v t"
  by (simp_all add: covers_def slot_index_def slot_def)

definition mark_used :: "ext \<Rightarrow> world \<Rightarrow> uptr \<Rightarrow> (uptr \<Rightarrow> timestampstorage option) \<Rightarrow> uptr \<Rightarrow> timestampstorage option" where
  "mark_used E v t S = (case slot E v t of None \<Rightarrow> S
     | Some (x, j) \<Rightarrow> S(x := map_option (\<lambda>ts. ts\<lparr>usage_bits := set_mask (usage_bits ts) (word_of_nat j) 1\<rparr>) (S x)))"

text \<open>World \<open>v\<close>, placed at \<open>b\<close>, advances to its next timestamp.\<close>

definition advanced :: "ext \<Rightarrow> uptr \<Rightarrow> nat \<Rightarrow> world \<Rightarrow> mem \<Rightarrow> mem" where
  "advanced E b m v s = s\<lparr>nops := m, worlds := (worlds s)(b \<mapsto> bumped v),
     stores := mark_used E v (w_timestamp v + 1) (stores s)\<rparr>"

definition next_covered :: "ext \<Rightarrow> world \<Rightarrow> mem \<Rightarrow> bool" where
  "next_covered E v s \<longleftrightarrow> covers E v (w_timestamp v + 1)
     \<and> stores s (w_storage v ! slot_index E v (w_timestamp v + 1)) \<noteq> None"

lemma timestamp_index_word:
  "mulle_aba_timestampstorage_get_timestamp_index E t = word_of_nat (unat t mod n_entries E)"
proof -
  have "unat t mod n_entries E < 64"
    using mod_less_divisor [OF n_entries_pos(1)] n_entries_le by (rule less_le_trans)
  then have "unat t mod n_entries E < 2 ^ 32" by simp
  then show ?thesis by (simp add: word_unat_eq_iff unat_of_nat_32)
qed

lemma run_increment_world_timestamp:
  assumes "new_world i \<noteq> 0" "old_world i \<noteq> new_world i" "worlds s (new_world i) = Some v" "wf_shape E v"
    and "next_covered E v s" "weak_bound E fuel"
  obtains m where "run (increment_world_timestamp E th fuel i) s = Ok (i\<lparr>new_bit := 0\<rparr>) (advanced E (new_world i) m v s)"
proof -
  let ?t = "w_timestamp v + 1" and ?b = "new_world i"
  let ?x = "w_storage v ! slot_index E v ?t"
  have c: "covers E v ?t" using assms(5) by (simp add: next_covered_def)
  then have c': "?t \<noteq> 0" "w_offset v \<le> ?t" "slot_index E v ?t < unat (w_n v)" by (auto simp: covers_def)
  obtain ts where ts: "stores s ?x = Some ts" using assms(5) by (auto simp: next_covered_def)
  have x: "?x \<noteq> 0" using wf_shape_storage_nonzero [OF assms(4) c'(3)] by blast
  let ?s = "s\<lparr>worlds := (worlds s)(?b \<mapsto> bumped v)\<rparr>"
  have sh: "wf_shape E (bumped v)" using assms(4) by (simp add: wf_shape_def)
  have gt: "run (mulle_aba_world_get_timestampstorage E th ?b ?t) ?s = Ok ?x ?s"
    using run_get_timestampstorage [of ?b ?s "bumped v" E ?t th] assms(1) sh c' by simp
  obtain m where m: "run (mulle_aba_timestampstorage_set_usage_bit E fuel ?x (word_of_nat (unat ?t mod n_entries E)) 1) ?s =
    Ok (usage_result (set_mask (usage_bits ts) (word_of_nat (unat ?t mod n_entries E)) 1))
      (?s\<lparr>nops := m, stores := (stores ?s)(?x \<mapsto> ts\<lparr>usage_bits := set_mask (usage_bits ts) (word_of_nat (unat ?t mod n_entries E)) 1\<rparr>)\<rparr>)"
    using run_set_usage_bit [OF x _ assms(6), of ?s ts] ts by auto
  have "run (increment_world_timestamp E th fuel i) s = Ok (i\<lparr>new_bit := 0\<rparr>) (advanced E ?b m v s)"
    using assms(1-3) c'(1) gt m ts c
    by (simp add: increment_world_timestamp_def assert_info_def exec timestamp_index_word bumped_def [symmetric]
        advanced_def mark_used_def slot_def)
  then show ?thesis by (rule that)
qed

lemma size_check_passes:
  assumes "wf_world E v" "covers E v (w_timestamp v + 1)" "unat (w_timestamp v) < 2 ^ 62"
  shows "\<not> (ucast (w_n v * word_of_nat (n_entries E)) :: uptr) \<le> w_timestamp v - w_offset v + 1"
proof -
  have "w_offset v \<le> w_timestamp v" using assms(1) by (auto simp: wf_world_def)
  then have "unat (w_timestamp v - w_offset v) = unat (w_timestamp v) - unat (w_offset v)"
    "unat (w_offset v) \<le> unat (w_timestamp v)"
    by (simp_all add: unat_sub word_le_nat_alt)
  moreover from this have "unat (w_timestamp v - w_offset v) < 2 ^ 63" using assms(3) by simp
  moreover have "unat (w_timestamp v + 1) = unat (w_timestamp v) + 1"
    by (rule unat_plus_1) (use assms(3) in simp)
  moreover have "unat (w_timestamp v + 1) < unat (w_offset v) + unat (w_n v) * n_entries E"
    using assms(2) by (simp add: covers_iff)
  ultimately have "unat (w_timestamp v - w_offset v + 1) < unat (w_n v) * n_entries E"
    using unat_plus_1 [of "w_timestamp v - w_offset v"] by linarith
  then show ?thesis
    using window_width(1) [OF wf_world_shape [OF assms(1)]] by (simp add: word_le_nat_alt)
qed

text \<open>When a pointer can be freed by a new timestamp: more than one thread, and some thread has
  already checked in to the present one.\<close>

definition free_ready :: "ext \<Rightarrow> nat \<Rightarrow> callback_info \<Rightarrow> mem \<Rightarrow> world \<Rightarrow> world \<Rightarrow> bool" where
  "free_ready E fuel i s v w \<longleftrightarrow> sees E i s v w \<and> old_locked i = 0 \<and> old_bit i = 1
     \<and> 1 < unat (w_n_threads w) \<and> unat (w_timestamp w) < 2 ^ 62 \<and> weak_bound E fuel"

lemma run_pre_check:
  assumes "free_ready E fuel i s v w"
  shows "run (pre_check_world_for_timestamp_increment E th i c) s = Ok (0, c) s"
proof -
  have "sees E i s v w" "1 < unat (w_n_threads w)" "old_bit i = 1" using assms by (auto simp: free_ready_def)
  note f = seesD [OF this(1)] and n = this(2,3)
  have "unat (w_n_threads v) < 2 ^ 63" using less_10000(1) [OF f(17)] f(16) by simp
  then have "1 <s w_n_threads v" using n(1) f(16) by (simp add: sless_unat)
  then have "\<not> w_n_threads v \<le>s 1" by (simp add: word_sless_alt word_sle_eq)
  with f n show ?thesis
    by (simp add: pre_check_world_for_timestamp_increment_def assert_info_def exec)
qed

lemma run_size_check:
  assumes "new_world i \<noteq> 0" "old_world i \<noteq> new_world i" "worlds s (new_world i) = Some v" "wf_world E v"
    and "covers E v (w_timestamp v + 1)" "unat (w_timestamp v) < 2 ^ 62"
  shows "run (size_check_world_for_timestamp_increment E i) s = Ok 0 s"
  using assms size_check_passes [OF assms(4-6)]
  by (simp add: size_check_world_for_timestamp_increment_def assert_info_def exec)

lemma wf_bumped:
  assumes "wf_world E v" "covers E v (w_timestamp v + 1)" "w_n_threads v \<noteq> 0"
  shows "wf_world E (bumped v)"
proof -
  have "wf_shape E (bumped v)" using wf_world_shape [OF assms(1)] by (simp add: wf_shape_def)
  with assms show ?thesis by (simp add: wf_world_def covers_iff)
qed

text \<open>Installing the world with the next timestamp passes the asserts, whatever happened to its
  storages.\<close>

lemma advance_installable:
  assumes "free_ready E fuel i s v0 w" "wf_world E v" "w_link v = 0" "w_timestamp v = w_timestamp w"
    and "w_n_threads v = w_n_threads w" "next_covered E v s" "i' = i\<lparr>new_bit := 0\<rparr>"
    and "q s' = q s" "worlds s' = worlds s"
  shows "installable E Swap_free s (advanced E (new_world i) m v s') i i'"
proof -
  have sees: "sees E i s v0 w" and r: "old_locked i = 0" "old_bit i = 1" "1 < unat (w_n_threads w)"
    "unat (w_timestamp w) < 2 ^ 62" using assms(1) by (auto simp: free_ready_def)
  let ?p = "q_world (q s)" and ?v = "bumped v" and ?t = "advanced E (new_world i) m v s'"
  note f = seesD [OF sees]
  have nz: "w_n_threads w \<noteq> 0" using r(3) by auto
  have c: "covers E v (w_timestamp v + 1)" using assms(6) by (simp add: next_covered_def)
  have wf: "wf_world E ?v" using wf_bumped [OF assms(2) c] nz assms(5) by simp
  have t: "worlds ?t (new_world i) = Some ?v" "worlds ?t (old_world i) = Some w" "q ?t = q s"
    using f(4-6) assms(8,9) by (simp_all add: advanced_def)
  have al0: "(0 :: uptr) \<le> 1" by simp
  note np = new_pointer [OF f(2) al0]
  have np': "result_p i' = new_world i" using f(13) assms(7) by (simp add: result_p_def)
  note b = less_10000 [OF f(17)]
  have bv: "unat (w_n_threads ?v) < 2 ^ 63" using b(1) assms(5) by simp
  have u: "unat (w_timestamp w + 1) = unat (w_timestamp w) + 1" by (rule unat_plus_1) (use r(4) in simp)
  have "w_timestamp ?v = w_timestamp w + 1" using assms(4) by simp
  then have tsn: "w_timestamp ?v \<noteq> 0" "w_timestamp ?v \<noteq> w_timestamp w" "w_timestamp w \<le> w_timestamp ?v"
    using u by (auto simp: word_le_nat_alt)
  have st: "valid_transition (mulle_aba_worldpointer_state (new_world i) ?v) (mulle_aba_worldpointer_state ?p w) Swap_free"
    unfolding state_alt [OF b(1)] state_alt [OF bv] using np f(10,11) r tsn(1) assms(5)
    by (simp add: valid_transition_def)
  have ok: "swap_worlds_ok E Swap_free (new_world i) ?p ?v w"
    using np f(4,9,10,11) r tsn b assms(3,5) by (auto simp: swap_worlds_ok_def Let_def)
  have "new_world i \<noteq> ?p" using np(1) f(4,9) by auto
  then have "swap_ready E Swap_free ?t (result_p i') ?p"
    unfolding swap_ready_def np' f(9) using np t st ok f(1,3) by (metis or.right_neutral)
  then show ?thesis
    using t wf assms(7) f(6,13) by (intro installableI [of _ _ _ _ _ ?v]) simp_all
qed

section \<open>The next timestamp in the present storages\<close>

definition inc_pre :: "ext \<Rightarrow> nat \<Rightarrow> callback_info \<Rightarrow> add_context \<Rightarrow> mem \<Rightarrow> bool" where
  "inc_pre E fuel i c s \<longleftrightarrow> (\<exists>v w. free_ready E fuel i s v w \<and> next_covered E v s)"

definition inc_post :: "ext \<Rightarrow> callback_info \<Rightarrow> add_context \<Rightarrow> mem \<Rightarrow> callback_info \<Rightarrow> add_context \<Rightarrow> mem \<Rightarrow> bool" where
  "inc_post E i c s i' c' t \<longleftrightarrow> i' = i\<lparr>new_bit := 0\<rparr> \<and> c' = c
     \<and> (\<exists>v m. worlds s (new_world i) = Some v \<and> t = advanced E (new_world i) m v s)"

lemma free_ready_cong:
  "worlds s' = worlds s \<Longrightarrow> q s' = q s \<Longrightarrow> free_ready E fuel i s' v w = free_ready E fuel i s v w"
  by (simp add: free_ready_def sees_def)

lemma free_readyD:
  assumes "free_ready E fuel i s v w"
  shows "sees E i s v w" "old_locked i = 0" "old_bit i = 1" "1 < unat (w_n_threads w)"
    "unat (w_timestamp w) < 2 ^ 62" "weak_bound E fuel"
  using assms unfolding free_ready_def by blast+

interpretation increment_change: world_callback E Swap_free "increment_timestamp E th fuel" "inc_pre E fuel" "inc_post E"
  for E th fuel
proof unfold_locales
  fix i c s assume "inc_pre E fuel i c s"
  then obtain v w where r: "free_ready E fuel i s v w" and n: "next_covered E v s" unfolding inc_pre_def by blast
  note f = seesD [OF free_readyD(1) [OF r]]
  have ts: "unat (w_timestamp v) < 2 ^ 62" using free_readyD(5) [OF r] f(15) by simp
  have nc: "covers E v (w_timestamp v + 1)" using n by (simp add: next_covered_def)
  obtain m where m: "run (increment_world_timestamp E th fuel i) s = Ok (i\<lparr>new_bit := 0\<rparr>) (advanced E (new_world i) m v s)"
    using run_increment_world_timestamp [OF f(1) f(4) [symmetric] f(5) wf_world_shape [OF f(7)] n free_readyD(6) [OF r]] by blast
  have "run (increment_timestamp E th fuel World_modify i c) s
    = Ok (0, i\<lparr>new_bit := 0\<rparr>, c) (advanced E (new_world i) m v s)"
    using m run_pre_check [OF r] run_size_check [OF f(1) f(4) [symmetric] f(5,7) nc ts] f(4)
    by (simp add: increment_timestamp_def assert_info_def exec)
  then show "\<exists>i' c' t. run (increment_timestamp E th fuel World_modify i c) s = Ok (0, i', c') t
      \<and> inc_post E i c s i' c' t"
    unfolding inc_post_def using f(5) by blast
next
  fix i c s i' c' t assume "inc_pre E fuel i c s" and post: "inc_post E i c s i' c' t"
  then obtain v w where r: "free_ready E fuel i s v w" and n: "next_covered E v s" unfolding inc_pre_def by blast
  note f = seesD [OF free_readyD(1) [OF r]]
  from post f(5) obtain m where "i' = i\<lparr>new_bit := 0\<rparr>" "t = advanced E (new_world i) m v s"
    unfolding inc_post_def by auto
  with advance_installable [OF r f(7,14-16) n] show "installable E Swap_free s t i i'" by simp
qed simp

section \<open>The next timestamp in an added storage\<close>

definition with_storage :: "uptr \<Rightarrow> world \<Rightarrow> world" where
  "with_storage b v = v\<lparr>w_storage := (w_storage v)[unat (w_n v) := b], w_n := w_n v + 1\<rparr>"

lemma with_storage_sel [simp]:
  "w_link (with_storage b w) = w_link w" "w_timestamp (with_storage b w) = w_timestamp w"
  "w_n_threads (with_storage b w) = w_n_threads w" "w_offset (with_storage b w) = w_offset w"
  "w_size (with_storage b w) = w_size w" "w_n (with_storage b w) = w_n w + 1"
  "w_storage (with_storage b w) = (w_storage w)[unat (w_n w) := b]"
  by (simp_all add: with_storage_def)

lemma unat_n_plus_1: "w_n w < w_size w \<Longrightarrow> unat (w_n w + 1) = unat (w_n w) + 1"
proof -
  assume "w_n w < w_size w"
  then have "unat (w_n w) + 1 < 2 ^ 32"
    using unat_lt_32 [of "w_size w"] by (simp add: word_less_nat_alt)
  then show ?thesis by (simp add: unat_word_ariths)
qed

lemma wf_with_storage:
  assumes "wf_world E v" "w_n v < w_size v" "b \<noteq> 0"
  shows "wf_world E (with_storage b v)"
proof -
  note n = unat_n_plus_1 [OF assms(2)]
  have lt: "unat (w_n v) < unat (w_size v)" using assms(2) by (simp add: word_less_nat_alt)
  then have "wf_shape E (with_storage b v)"
    using wf_world_shape [OF assms(1)] assms(3) n by (auto simp: wf_shape_def nth_list_update)
  with assms(1) n show ?thesis by (auto simp: wf_world_def)
qed

definition storage_added :: "ext \<Rightarrow> uptr \<Rightarrow> mem \<Rightarrow> mem" where
  "storage_added E b s = s\<lparr>nops := Suc (nops s), stores := (stores s)(b \<mapsto> fresh_ts E)\<rparr>"

lemma storage_added_sel [simp]:
  "worlds (storage_added E b s) = worlds s" "stores (storage_added E b s) = (stores s)(b \<mapsto> fresh_ts E)"
  "entries (storage_added E b s) = entries s" "q (storage_added E b s) = q s" "tss (storage_added E b s) = tss s"
  "trace (storage_added E b s) = trace s" "errno (storage_added E b s) = errno s"
  by (simp_all add: storage_added_def)

definition add_storage_pre :: "ext \<Rightarrow> nat \<Rightarrow> callback_info \<Rightarrow> add_context \<Rightarrow> mem \<Rightarrow> bool" where
  "add_storage_pre E fuel i c s \<longleftrightarrow> (\<exists>v w. free_ready E fuel i s v w \<and> w_n v < w_size v \<and> stores_mapped s v
     \<and> calloc_at E s \<noteq> 0 \<and> \<not> live s (calloc_at E s)
     \<and> next_covered E (with_storage (calloc_at E s) v) (storage_added E (calloc_at E s) s))"

definition add_storage_post ::
  "ext \<Rightarrow> callback_info \<Rightarrow> add_context \<Rightarrow> mem \<Rightarrow> callback_info \<Rightarrow> add_context \<Rightarrow> mem \<Rightarrow> bool" where
  "add_storage_post E i c s i' c' t \<longleftrightarrow> i' = i\<lparr>new_bit := 0\<rparr> \<and> c' = c\<lparr>ac_ts_storage := calloc_at E s\<rparr>
     \<and> (\<exists>v m. worlds s (new_world i) = Some v
          \<and> t = advanced E (new_world i) m (with_storage (calloc_at E s) v) (storage_added E (calloc_at E s) s))"

lemma run_handle_modify:
  assumes "new_world i \<noteq> 0" "old_world i \<noteq> new_world i" "worlds s (new_world i) = Some v" "wf_shape E v"
    and "w_n v < w_size v" "stores_mapped s v" "b = calloc_at E s" "b \<noteq> 0" "\<not> live s b"
  shows "run (handle_callback_mode_for_add_context E th World_modify i c) s = Ok (0, c\<lparr>ac_ts_storage := b\<rparr>)
    ((storage_added E b s)\<lparr>worlds := (worlds s)(new_world i \<mapsto> with_storage b v)\<rparr>)"
proof -
  let ?s = "storage_added E b s"
  have lt: "unat (w_n v) < unat (w_size v)" using assms(5) by (simp add: word_less_nat_alt)
  then have len: "unat (w_n v) < length (w_storage v)" and z: "w_storage v ! unat (w_n v) = 0"
    using assms(4) by (auto simp: wf_shape_def)
  have prev: "w_n v = 0 \<or> w_storage v ! unat (w_n v - 1) \<noteq> b"
  proof (cases "w_n v = 0")
    case False
    then have k: "unat (w_n v - 1) < unat (w_n v)" by (simp add: unat_minus_1 unat_gt_0)
    then have "stores s (w_storage v ! unat (w_n v - 1)) \<noteq> None" using assms(6) by (simp add: stores_mapped_def)
    with assms(9) show ?thesis by (auto simp: live_def)
  qed simp
  have al: "run (mulle_aba_timestampstorage_alloc E) s = Ok b ?s"
    using run_timestampstorage_alloc [of E s] assms(7,8) by (simp add: storage_added_def)
  show ?thesis
    using assms(1-3,5,8) al len z prev
    by (simp add: handle_callback_mode_for_add_context_def assert_info_def exec check_bound_def with_storage_def)
qed

interpretation add_storage_change:
  world_callback E Swap_free "add_storage_and_increment_timestamp E th fuel" "add_storage_pre E fuel" "add_storage_post E"
  for E th fuel
proof unfold_locales
  fix i c s assume "add_storage_pre E fuel i c s"
  then obtain v w where r: "free_ready E fuel i s v w" and n: "w_n v < w_size v" and mp: "stores_mapped s v"
    and b: "calloc_at E s \<noteq> 0" "\<not> live s (calloc_at E s)"
    and nc: "next_covered E (with_storage (calloc_at E s) v) (storage_added E (calloc_at E s) s)"
    unfolding add_storage_pre_def by blast
  note f = seesD [OF free_readyD(1) [OF r]]
  let ?b = "calloc_at E s" and ?a = "new_world i" 
  let ?v = "with_storage ?b v" and ?s = "(storage_added E ?b s)\<lparr>worlds := (worlds s)(?a \<mapsto> with_storage ?b v)\<rparr>"
  have wf: "wf_world E ?v" by (rule wf_with_storage [OF f(7) n b(1)])
  have ts: "unat (w_timestamp ?v) < 2 ^ 62" using free_readyD(5) [OF r] f(15) by simp
  have nc': "next_covered E ?v ?s" "covers E ?v (w_timestamp ?v + 1)" using nc by (simp_all add: next_covered_def)
  have w: "worlds ?s ?a = Some ?v" by simp
  have hm: "run (handle_callback_mode_for_add_context E th World_modify i c) s = Ok (0, c\<lparr>ac_ts_storage := ?b\<rparr>) ?s"
    using run_handle_modify [OF f(1) f(4) [symmetric] f(5) wf_world_shape [OF f(7)] n mp refl b] .
  obtain m where m: "run (increment_world_timestamp E th fuel i) ?s = Ok (i\<lparr>new_bit := 0\<rparr>) (advanced E ?a m ?v ?s)"
    using run_increment_world_timestamp [OF f(1) f(4) [symmetric] w wf_world_shape [OF wf] nc'(1) free_readyD(6) [OF r]] by blast
  have ad: "advanced E ?a m ?v ?s = advanced E ?a m ?v (storage_added E ?b s)"
    by (simp add: advanced_def storage_added_def)
  have ld: "\<not> w_size v \<le> w_n v" using n by simp
  have "run (add_storage_and_increment_timestamp E th fuel World_modify i c) s
    = Ok (0, i\<lparr>new_bit := 0\<rparr>, c\<lparr>ac_ts_storage := ?b\<rparr>) (advanced E ?a m ?v (storage_added E ?b s))"
    using hm m run_pre_check [OF r] run_size_check [OF f(1) f(4) [symmetric] w wf nc'(2) ts] f(1,4,5) ld
    by (simp add: add_storage_and_increment_timestamp_def assert_info_def exec ad)
  then show "\<exists>i' c' t. run (add_storage_and_increment_timestamp E th fuel World_modify i c) s = Ok (0, i', c') t
      \<and> add_storage_post E i c s i' c' t"
    unfolding add_storage_post_def using f(5) by blast
next
  fix i c s i' c' t assume "add_storage_pre E fuel i c s" and post: "add_storage_post E i c s i' c' t"
  then obtain v w where r: "free_ready E fuel i s v w" and n: "w_n v < w_size v" and b: "calloc_at E s \<noteq> 0"
    and nc: "next_covered E (with_storage (calloc_at E s) v) (storage_added E (calloc_at E s) s)"
    unfolding add_storage_pre_def by blast
  note f = seesD [OF free_readyD(1) [OF r]]
  let ?b = "calloc_at E s"
  from post f(5) obtain m where t: "i' = i\<lparr>new_bit := 0\<rparr>"
    "t = advanced E (new_world i) m (with_storage ?b v) (storage_added E ?b s)"
    unfolding add_storage_post_def by auto
  have "installable E Swap_free (storage_added E ?b s) t i i'"
    unfolding t
  proof (rule advance_installable [OF _ wf_with_storage [OF f(7) n b]])
    show "free_ready E fuel i (storage_added E ?b s) v w"
      using r free_ready_cong [of "storage_added E ?b s" s] by simp
  qed (use f(14-16) nc in simp_all)
  then show "installable E Swap_free s t i i'" by (simp add: installable_def)
qed simp

section \<open>The next timestamp in a reused storage\<close>

lemma at_endD:
  assumes "at_end E s w"
  shows "window_invar E w" "stores_mapped s w" "w_timestamp w \<noteq> 0" "unat (w_timestamp w) + 1 = window_hi E w"
    "window_hi E w + unat (w_n w) * n_entries E < 2 ^ 63" "0 < unat (w_n w)" "wf_shape E w" "w_n w = w_size w"
  using assms unfolding at_end_def window_invar_def by blast+

lemma reuse_preD: "reuse_pre E s w f \<Longrightarrow> at_end E s w" "reuse_pre E s w f \<Longrightarrow> free_prefix s w f"
  by (simp_all add: reuse_pre_def)

lemma rotated_le:
  assumes "at_end E s v" "r < unat (w_n v)"
  shows "window_hi E v + r * n_entries E \<le> 2 ^ 63 - 1" "r * n_entries E + n_entries E \<le> unat (w_n v) * n_entries E"
proof -
  have "Suc r * n_entries E \<le> unat (w_n v) * n_entries E" using assms(2) by (intro mult_le_mono1) simp
  then show k: "r * n_entries E + n_entries E \<le> unat (w_n v) * n_entries E" by simp
  with at_endD(5) [OF assms(1)] show "window_hi E v + r * n_entries E \<le> 2 ^ 63 - 1" by linarith
qed

text \<open>However many storages are rotated, the next timestamp falls into the one that was the first.\<close>

lemma rotated_next:
  assumes pre: "at_end E s v" and wf: "wf_world E v" and r: "0 < r" "r < unat (w_n v)"
  shows "wf_world E ((rotate_world E ^^ r) v)" "next_covered E ((rotate_world E ^^ r) v) s"
    "unat (w_offset ((rotate_world E ^^ r) v)) = unat (w_offset v) + r * n_entries E"
    "slot E ((rotate_world E ^^ r) v) (w_timestamp v + 1) = Some (w_storage v ! 0, unat (w_timestamp v + 1) mod n_entries E)"
proof -
  let ?u = "(rotate_world E ^^ r) v"
  note p = at_endD [OF pre]
  note le = rotated_le [OF pre r(2)]
  note ro = win.rotates [OF p(1) le(1)]
  then show off: "unat (w_offset ?u) = unat (w_offset v) + r * n_entries E" by blast
  have ts: "unat (w_timestamp v) + 1 = unat (w_offset v) + unat (w_n v) * n_entries E"
    using p(4) by (simp add: window_hi_def)
  have "w_offset ?u \<le> w_timestamp ?u"
    using ts le(2) n_entries_pos(1) [of E]
    unfolding word_le_nat_alt off funpow_rotate_world_sel by linarith
  moreover have "unat (w_timestamp ?u) < unat (w_offset ?u) + unat (w_n ?u) * n_entries E"
    using ts off by simp
  ultimately show "wf_world E ?u"
    using ro wf p(3) by (simp add: wf_world_def window_invar_def)
  have lt: "unat (w_offset v) < window_hi E v" using p(6) by (simp add: window_hi_def)
  have w: "r * n_entries E \<le> window_hi E v - unat (w_offset v)" using r(2) by (simp add: window_hi_def)
  have "window_look E ?u (window_hi E v) \<noteq> None"
    by (rule win.rotates_covers_next [OF p(1) le(1) lt r(1) w n_entries_pos(1)])
  then have c: "covers E ?u (word_of_nat (window_hi E v))"
    by (auto simp: window_look_def slot_def split: if_splits)
  have nx: "(word_of_nat (window_hi E v) :: uptr) = w_timestamp ?u + 1"
    unfolding p(4) [symmetric] by (simp add: add.commute)
  let ?i = "slot_index E ?u (w_timestamp ?u + 1)"
  have "unat (w_timestamp ?u + 1) = unat (w_timestamp v) + 1" using p(4,5) by (simp add: unat_plus_1)
  then have i: "?i = unat (w_n v) - r"
    using ts off by (simp add: slot_index_def diff_mult_distrib [symmetric])
  have len: "unat (w_n v) \<le> length (w_storage v)" using p(7) unfolding wf_shape_def by linarith
  have "w_storage ?u ! ?i = w_storage v ! ((?i + r) mod unat (w_n v))"
    using funpow_rotate_world_nth [of v ?i r E] len i r by simp
  then have x: "w_storage ?u ! ?i = w_storage v ! 0" using i r by simp
  then have "stores s (w_storage ?u ! ?i) \<noteq> None" using p(2,6) by (simp add: stores_mapped_def)
  with c nx show "next_covered E ?u s" by (simp add: next_covered_def)
  show "slot E ?u (w_timestamp v + 1) = Some (w_storage v ! 0, unat (w_timestamp v + 1) mod n_entries E)"
    using c x unfolding nx by (simp add: slot_def)
qed

definition reorg_pre :: "ext \<Rightarrow> nat \<Rightarrow> callback_info \<Rightarrow> add_context \<Rightarrow> mem \<Rightarrow> bool" where
  "reorg_pre E fuel i c s \<longleftrightarrow> (\<exists>v w. free_ready E fuel i s v w \<and> at_end E s v
     \<and> (\<exists>k. Suc k < unat (w_n v) \<and> unused s (w_storage v ! k)))"

definition reorg_post ::
  "ext \<Rightarrow> callback_info \<Rightarrow> add_context \<Rightarrow> mem \<Rightarrow> callback_info \<Rightarrow> add_context \<Rightarrow> mem \<Rightarrow> bool" where
  "reorg_post E i c s i' c' t \<longleftrightarrow> i' = i\<lparr>new_bit := 0\<rparr> \<and> c' = c
     \<and> (\<exists>v m. worlds s (new_world i) = Some v \<and> 0 < turns s v \<and> turns s v < unat (w_n v)
          \<and> t = advanced E (new_world i) m ((rotate_world E ^^ turns s v) v) s)"

interpretation reorganize_change:
  world_callback E Swap_free "reorganize_storage_and_increment_timestamp E th fuel" "reorg_pre E fuel" "reorg_post E"
  for E th fuel
proof unfold_locales
  fix i c s assume "reorg_pre E fuel i c s"
  then obtain v w where r: "free_ready E fuel i s v w" and pre: "at_end E s v"
    and un: "\<exists>k. Suc k < unat (w_n v) \<and> unused s (w_storage v ! k)"
    unfolding reorg_pre_def by blast
  note fs = seesD [OF free_readyD(1) [OF r]]
  let ?a = "new_world i" and ?k = "turns s v"
  let ?u = "(rotate_world E ^^ ?k) v"
  let ?s = "s\<lparr>worlds := (worlds s)(?a \<mapsto> ?u)\<rparr>"
  have k: "run (mulle_aba_world_reuse_storages E th ?a) s = Ok (word_of_nat ?k) ?s" "?k < unat (w_n v)" "0 < ?k"
    using run_reuse_at_end [OF fs(1,5) pre] un by blast+
  note ro = rotated_next [OF pre fs(7) k(3,2)]
  have nz: "(word_of_nat ?k :: uint) \<noteq> 0"
  proof -
    have "unat (word_of_nat ?k :: uint) = ?k" using less_trans [OF k(2) unat_lt_32] by (rule unat_of_nat_32)
    with k(3) show ?thesis by auto
  qed
  have w: "worlds ?s ?a = Some ?u" by simp
  have ts: "unat (w_timestamp ?u) < 2 ^ 62" using free_readyD(5) [OF r] fs(15) by simp
  have nc: "next_covered E ?u ?s" "covers E ?u (w_timestamp ?u + 1)" using ro(2) by (simp_all add: next_covered_def)
  obtain m where m: "run (increment_world_timestamp E th fuel i) ?s = Ok (i\<lparr>new_bit := 0\<rparr>) (advanced E ?a m ?u ?s)"
    using run_increment_world_timestamp [OF fs(1) fs(4) [symmetric] w wf_world_shape [OF ro(1)] nc(1) free_readyD(6) [OF r]]
    by blast
  have ad: "advanced E ?a m ?u ?s = advanced E ?a m ?u s" by (simp add: advanced_def)
  have "run (reorganize_storage_and_increment_timestamp E th fuel World_modify i c) s
    = Ok (0, i\<lparr>new_bit := 0\<rparr>, c) (advanced E ?a m ?u s)"
    using k(1) m run_pre_check [OF r] run_size_check [OF fs(1) fs(4) [symmetric] w ro(1) nc(2) ts] fs(4) nz
    by (simp add: reorganize_storage_and_increment_timestamp_def assert_info_def exec ad)
  then show "\<exists>i' c' t. run (reorganize_storage_and_increment_timestamp E th fuel World_modify i c) s = Ok (0, i', c') t
      \<and> reorg_post E i c s i' c' t"
    unfolding reorg_post_def using fs(5) k(2,3) by blast
next
  fix i c s i' c' t assume "reorg_pre E fuel i c s" and post: "reorg_post E i c s i' c' t"
  then obtain v w where r: "free_ready E fuel i s v w" and pre: "at_end E s v"
    unfolding reorg_pre_def by blast
  note fs = seesD [OF free_readyD(1) [OF r]]
  from post fs(5) obtain m where t: "i' = i\<lparr>new_bit := 0\<rparr>" "0 < turns s v" "turns s v < unat (w_n v)"
    "t = advanced E (new_world i) m ((rotate_world E ^^ turns s v) v) s" unfolding reorg_post_def by auto
  note ro = rotated_next [OF pre fs(7) t(2,3)]
  show "installable E Swap_free s t i i'"
    unfolding t(4) by (rule advance_installable [OF r ro(1)]) (use fs(14-16) ro(2) t(1) in simp_all)
qed simp

end
