(* ===== verification/Aba_Api.thy ===== *)
theory Aba_Api
  imports Aba_Callbacks
begin

text \<open>
  The operations of \<open>src/mulle-aba.c\<close>: setting up and tearing down, freeing a pointer, registering,
  checking in and unregistering the current thread \<open>th\<close>, and the API on the global instance.
  \<open>fuel\<close> bounds the number of rounds of every loop that other threads can make repeat.
\<close>

section \<open>Freeing a pointer\<close>

text \<open>The assert that the key of the threads' timestamps is not the invalid one, -1.\<close>

definition assert_key :: "ext \<Rightarrow> (mem, unit) prog" where
  "assert_key E = (if ndebug E then skip else bnd (reads tss_key) (\<lambda>k. c_assert E (k \<noteq> - 1)))"

definition mulle_aba_is_current_thread_registered :: "ext \<Rightarrow> tid \<Rightarrow> (mem, bool) prog" where
  "mulle_aba_is_current_thread_registered E th =
     bnd (assert_key E) (\<lambda>_. bnd (tss_get th) (\<lambda>v. Ret (v \<noteq> 0)))"

text \<open>The worlds this call replaced are freed with the pointer.\<close>

fun free_worlds_delayed :: "ext \<Rightarrow> nat \<Rightarrow> entryptr \<Rightarrow> uptr \<Rightarrow> (mem, unit) prog" where
  "free_worlds_delayed E 0 ts_entry free_worlds = Crash Out_of_fuel"
| "free_worlds_delayed E (Suc fuel) ts_entry free_worlds =
     (if free_worlds = 0 then skip
      else bnd (mulle_aba_storage_alloc_freeentry E) (\<lambda>entry.
           bnd (c_assert E (entry \<noteq> 0)) (\<lambda>_.
           bnd (load_world free_worlds) (\<lambda>w.
           bnd (mulle_aba_freeentry_set entry Fn_owned_pointer_free_world free_worlds (x_self E)) (\<lambda>_.
           bnd (entry_add_pointer E ts_entry entry) (\<lambda>_.
           free_worlds_delayed E fuel ts_entry (w_link w)))))))"

fun free_worlds_now :: "nat \<Rightarrow> uptr \<Rightarrow> (mem, unit) prog" where
  "free_worlds_now 0 free_worlds = Crash Out_of_fuel"
| "free_worlds_now (Suc fuel) free_worlds =
     (if free_worlds = 0 then skip
      else bnd (load_world free_worlds) (\<lambda>w.
           bnd (dealloc_world free_worlds) (\<lambda>_.
           free_worlds_now fuel (w_link w))))"

definition free_change ::
  "ext \<Rightarrow> tid \<Rightarrow> nat \<Rightarrow> uptr \<Rightarrow> world \<Rightarrow> entryptr option \<Rightarrow> add_context \<Rightarrow> (mem, worldpointers \<times> add_context) prog" where
  "free_change E th fuel world_p w ts_entry ctxt =
     (if ts_entry \<noteq> None
      then mulle_aba_storage_copy_change_worldpointer E th fuel Swap_free world_p
             (increment_timestamp E th fuel) ctxt
      else if w_n w < w_size w
      then mulle_aba_storage_copy_change_worldpointer E th fuel Swap_free world_p
             (add_storage_and_increment_timestamp E th fuel) ctxt
      else bnd (mulle_aba_world_count_available_reusable_storages E th (get_struct world_p)) (\<lambda>c.
           if c \<noteq> 0
           then mulle_aba_storage_copy_change_worldpointer E th fuel Swap_free world_p
                  (reorganize_storage_and_increment_timestamp E th fuel) ctxt
           else mulle_aba_storage_grow_worldpointer E th fuel (w_size w + 1)
                  (add_storage_and_increment_timestamp E th fuel) ctxt))"

text \<open>After a new world is installed: the references of all its threads are added to the count of the new timestamp,
  which check-ins may already have decremented, and the old world joins those to be freed.\<close>

definition free_count :: "ext \<Rightarrow> tid \<Rightarrow> worldpointers \<Rightarrow> uptr \<Rightarrow> (mem, uptr) prog" where
  "free_count E th ps free_worlds =
     bnd (load_world (get_struct (new_world_p ps))) (\<lambda>new.
     bnd (mulle_aba_world_get_timestampentry E th (get_struct (new_world_p ps)) (w_timestamp new)) (\<lambda>e.
     bnd (c_assert E (e \<noteq> None)) (\<lambda>_.
     bnd (case e of None \<Rightarrow> Crash Null_deref | Some e \<Rightarrow> entry_add_rc e (w_n_threads new)) (\<lambda>_.
     if get_lock (old_world_p ps) = 0 \<and> get_struct (new_world_p ps) \<noteq> get_struct (old_world_p ps)
     then let old = get_struct (old_world_p ps) in
       bnd (c_assert E (old \<noteq> free_worlds)) (\<lambda>_.
       bnd (if ndebug E then skip else bnd (load_world old) (\<lambda>w. c_assert E (w_link w = 0))) (\<lambda>_.
       bnd (store_world old (\<lambda>w. w\<lparr>w_link := free_worlds\<rparr>)) (\<lambda>_.
       Ret old)))
     else Ret free_worlds))))"

text \<open>After the loop: the pointer and the replaced worlds are put on the list of the timestamp.\<close>

definition free_put ::
  "ext \<Rightarrow> tid \<Rightarrow> nat \<Rightarrow> fnptr \<Rightarrow> uptr \<Rightarrow> uptr \<Rightarrow> uptr \<Rightarrow> entryptr \<Rightarrow> uptr \<Rightarrow> (mem, int) prog" where
  "free_put E th fuel p_free pointer owner world ts_entry free_worlds =
     bnd (mulle_aba_world_assert_sanity E th world) (\<lambda>_.
     bnd (mulle_aba_storage_alloc_freeentry E) (\<lambda>entry.
     bnd (c_assert E (entry \<noteq> 0)) (\<lambda>_.
     bnd (mulle_aba_freeentry_set entry p_free pointer owner) (\<lambda>_.
     bnd (entry_add_pointer E ts_entry entry) (\<lambda>_.
     bnd (free_worlds_delayed E fuel ts_entry free_worlds) (\<lambda>_.
     Ret 0))))))"

fun free_loop ::
  "ext \<Rightarrow> tid \<Rightarrow> nat \<Rightarrow> fnptr \<Rightarrow> uptr \<Rightarrow> uptr \<Rightarrow> uptr \<Rightarrow> uptr \<Rightarrow> add_context \<Rightarrow> (mem, int) prog" where
  "free_loop E th 0 p_free pointer owner world_p free_worlds ctxt = Crash Out_of_fuel"
| "free_loop E th (Suc fuel) p_free pointer owner world_p free_worlds ctxt =
     (let world = get_struct world_p; bit0 = get_bit' world_p
      in bnd (load_world world) (\<lambda>w.
         bnd (mulle_aba_world_get_timestampentry E th world (w_timestamp w + bit0)) (\<lambda>ts_entry.
         if ts_entry \<noteq> None \<and> bit0 = 0
         then free_put E th (Suc fuel) p_free pointer owner world (the ts_entry) free_worlds
         else bnd (free_change E th (Suc fuel) world_p w ts_entry ctxt) (\<lambda>(ps, ctxt).
           if new_world_p ps \<noteq> 0
           then bnd (free_count E th ps free_worlds) (\<lambda>free_worlds.
                free_loop E th fuel p_free pointer owner (new_world_p ps) free_worlds ctxt)
           else bnd (get_errno th) (\<lambda>e.
             if e = EBUSY
             then bnd mulle_aba_storage_get_worldpointer (\<lambda>world_p.
                  free_loop E th fuel p_free pointer owner world_p free_worlds ctxt)
             else if e = EAGAIN
             then bnd (call_free E p_free pointer owner) (\<lambda>_.
                  bnd (free_worlds_now (Suc fuel) free_worlds) (\<lambda>_. Ret 0))
             else bnd (c_assert E (e \<noteq> 0)) (\<lambda>_. Ret (- 1)))))))"

definition mulle_aba_free_owned_pointer_p :: "ext \<Rightarrow> tid \<Rightarrow> nat \<Rightarrow> fnptr \<Rightarrow> uptr \<Rightarrow> uptr \<Rightarrow> (mem, int) prog" where
  "mulle_aba_free_owned_pointer_p E th fuel p_free pointer owner =
     bnd (c_assert E (p_free \<noteq> Fn_client 0)) (\<lambda>_.
     bnd (c_assert E (pointer \<noteq> 0)) (\<lambda>_.
     bnd (if ndebug E then skip
          else bnd (mulle_aba_is_current_thread_registered E th) (\<lambda>r. c_assert E r)) (\<lambda>_.
     bnd mulle_aba_storage_get_worldpointer (\<lambda>world_p.
     let world = get_struct world_p in
     bnd (c_assert E (pointer \<noteq> world)) (\<lambda>_.
     bnd (load_world world) (\<lambda>w.
     if w_n_threads w \<le>s 1
     then bnd (call_free E p_free pointer owner) (\<lambda>_. Ret 0)
     else free_loop E th fuel p_free pointer owner world_p 0 \<lparr>ac_ts_storage = 0\<rparr>))))))"

section \<open>Old worlds\<close>

fun free_world_chain :: "ext \<Rightarrow> tid \<Rightarrow> nat \<Rightarrow> uptr \<Rightarrow> (mem, int) prog" where
  "free_world_chain E th 0 tofree = Crash Out_of_fuel"
| "free_world_chain E th (Suc fuel) tofree =
     (if tofree = 0 then Ret 0
      else bnd (load_world tofree) (\<lambda>w.
           bnd (c_assert E (w_link w \<noteq> tofree)) (\<lambda>_.
           bnd (mulle_aba_free_owned_pointer_p E th (Suc fuel) Fn_owned_pointer_free_world tofree (x_self E)) (\<lambda>rval.
           if rval \<noteq> 0 then Ret rval else free_world_chain E th fuel (w_link w)))))"

definition free_world_if_needed :: "ext \<Rightarrow> tid \<Rightarrow> nat \<Rightarrow> worldpointers \<Rightarrow> (mem, int) prog" where
  "free_world_if_needed E th fuel ps =
     (let new = get_struct (new_world_p ps); old = get_struct (old_world_p ps)
      in if new = old then Ret 0
         else bnd (if ndebug E then skip
                   else bnd mulle_aba_storage_get_worldpointer (\<lambda>p. c_assert E (get_struct p \<noteq> old))) (\<lambda>_.
              if get_lock (old_world_p ps) \<noteq> 0 then Ret 0
              else bnd (if ndebug E then skip else bnd (load_world old) (\<lambda>w. c_assert E (w_link w = 0))) (\<lambda>_.
                   mulle_aba_free_owned_pointer_p E th fuel Fn_owned_pointer_free_world old (x_self E))))"

section \<open>Registering\<close>

definition mulle_aba_register_current_thread :: "ext \<Rightarrow> tid \<Rightarrow> nat \<Rightarrow> (mem, int) prog" where
  "mulle_aba_register_current_thread E th fuel =
     bnd (mulle_aba_storage_copy_lock_worldpointer E th fuel (add_thread E) ()) (\<lambda>(ps, _, dealloced).
     if new_world_p ps = 0 then bnd (c_assert E False) (\<lambda>_. Ret (- 1))
     else bnd (load_world (get_struct (new_world_p ps))) (\<lambda>w.
          let timestamp = (if w_timestamp w + 1 = 0 then 1 else w_timestamp w + 1) in
          bnd (assert_key E) (\<lambda>_.
          bnd (tss_set th timestamp) (\<lambda>_.
          free_world_chain E th fuel dealloced))))"

section \<open>Checking in\<close>

definition mulle_aba_check_timestamp_range :: "ext \<Rightarrow> tid \<Rightarrow> nat \<Rightarrow> uptr \<Rightarrow> uptr \<Rightarrow> (mem, unit) prog" where
  "mulle_aba_check_timestamp_range E th fuel old new =
     bnd mulle_aba_storage_get_worldpointer (\<lambda>world_p.
     mulle_aba_world_check_timerange E th fuel (get_struct world_p) old new)"

definition mulle_aba_checkin_current_thread :: "ext \<Rightarrow> tid \<Rightarrow> nat \<Rightarrow> (mem, int) prog" where
  "mulle_aba_checkin_current_thread E th fuel =
     bnd (tss_get th) (\<lambda>last_ts.
     if last_ts = 0 then Ret 0
     else bnd mulle_aba_storage_get_worldpointer (\<lambda>old_p.
       bnd (load_world (get_struct old_p)) (\<lambda>old.
       let new = w_timestamp old in
       if new <s last_ts then Ret 0
       else bnd (mulle_aba_storage_change_worldpointer_2 E th fuel Swap_checkin old_p set_bit ()) (\<lambda>(ps, _).
         if new_world_p ps = 0 then Ret (- 1)
         else bnd (free_world_if_needed E th fuel ps) (\<lambda>rval.
           bnd (c_assert E (rval = 0 \<or> rval = - 1)) (\<lambda>_.
           if rval \<noteq> 0 then Ret rval
           else bnd (mulle_aba_check_timestamp_range E th fuel last_ts new) (\<lambda>_.
                bnd (tss_set th (new + 1)) (\<lambda>_. Ret rval))))))))"

section \<open>Unregistering\<close>

text \<open>After the world without the thread is installed: the last thread frees all resources of the
  old world, any other thread leaves the locked world to the last one.\<close>

definition unregister_finish :: "ext \<Rightarrow> tid \<Rightarrow> nat \<Rightarrow> worldpointers \<Rightarrow> uptr \<Rightarrow> (mem, int) prog" where
  "unregister_finish E th fuel ps locked_p =
     bnd (tss_set th 0) (\<lambda>_.
     bnd (c_assert E (old_world_p ps = locked_p)) (\<lambda>_.
     let locked = get_struct locked_p in
     bnd (load_world locked) (\<lambda>w.
     if w_n_threads w = 1
     then bnd (c_assert E (get_lock (new_world_p ps) \<noteq> 0)) (\<lambda>_.
          check_bound (unat (w_size w) \<le> length (w_storage w)) (
          bnd (each mulle_aba_timestampstorage_free_unchecked (take (unat (w_size w)) (w_storage w))) (\<lambda>_.
          bnd mulle_aba_storage_free_leak_worlds (\<lambda>_.
          bnd (c_assert E (w_link w = 0)) (\<lambda>_.
          bnd (mulle_aba_storage_free_world E locked) (\<lambda>_.
          bnd mulle_aba_storage_free_unused_free_entries (\<lambda>_.
          bnd (mulle_aba_storage_try_unlock_worldpointer E fuel (new_world_p ps)) (\<lambda>_.
          Ret 0))))))))
     else bnd (mulle_aba_storage_add_leak_world E locked) (\<lambda>_. Ret 0))))"

definition unregister_checkin ::
  "ext \<Rightarrow> tid \<Rightarrow> nat \<Rightarrow> uptr \<Rightarrow> uptr \<Rightarrow> uptr \<Rightarrow> (mem, int \<times> uptr) prog" where
  "unregister_checkin E th fuel last_ts new old_p =
     (if new <s last_ts then Ret (0, old_p)
      else bnd (mulle_aba_storage_change_worldpointer_2 E th fuel Swap_checkin old_p set_bit ()) (\<lambda>(ps, _).
        if new_world_p ps = 0 then Ret (- 1, old_p)
        else bnd (free_world_if_needed E th fuel ps) (\<lambda>rval.
          if rval \<noteq> 0 then Ret (rval, new_world_p ps)
          else bnd (mulle_aba_world_assert_sanity E th (get_struct (new_world_p ps))) (\<lambda>_.
               bnd (mulle_aba_world_check_timerange E th fuel (get_struct (new_world_p ps)) last_ts new) (\<lambda>_.
               bnd (tss_set th (new + 1)) (\<lambda>_.
               bnd (mulle_aba_world_assert_sanity E th (get_struct (new_world_p ps))) (\<lambda>_.
               Ret (0, new_world_p ps))))))))"

fun unregister_loop :: "ext \<Rightarrow> tid \<Rightarrow> nat \<Rightarrow> (mem, int) prog" where
  "unregister_loop E th 0 = Crash Out_of_fuel"
| "unregister_loop E th (Suc fuel) =
     bnd (tss_get th) (\<lambda>last_ts.
     if last_ts = 0 then Ret 0
     else bnd mulle_aba_storage_get_worldpointer (\<lambda>old_p.
       bnd (load_world (get_struct old_p)) (\<lambda>old.
       let new = w_timestamp old in
       bnd (mulle_aba_world_assert_sanity E th (get_struct old_p)) (\<lambda>_.
       bnd (unregister_checkin E th (Suc fuel) last_ts new old_p) (\<lambda>(rval, old_p).
       if rval \<noteq> 0 then Ret rval
       else bnd (mulle_aba_storage_try_lock_worldpointer E (Suc fuel) old_p) (\<lambda>locked_p.
         if locked_p = 0 then unregister_loop E th fuel
         else bnd (mulle_aba_storage_copy_change_worldpointer E th (Suc fuel) Swap_unregister locked_p
                (remove_thread E) \<lparr>rc_timestamp = new, rc_locked_world = get_struct locked_p\<rparr>) (\<lambda>(ps, _).
           if new_world_p ps \<noteq> 0 then unregister_finish E th (Suc fuel) ps locked_p
           else bnd (get_errno th) (\<lambda>e.
             if e = EAGAIN \<or> e = EBUSY
             then bnd (mulle_aba_storage_try_unlock_worldpointer E (Suc fuel) locked_p) (\<lambda>unlocked.
                  if unlocked \<noteq> 0 then unregister_loop E th fuel
                  else bnd (free_world_chain E th (Suc fuel) (get_struct locked_p)) (\<lambda>rval.
                    if rval \<noteq> 0 then Ret rval else unregister_loop E th fuel))
             else if debug E then Crash Abort
             else Ret (- 1)))))))))"

definition mulle_aba_unregister_current_thread :: "ext \<Rightarrow> tid \<Rightarrow> nat \<Rightarrow> (mem, int) prog" where
  "mulle_aba_unregister_current_thread E th fuel = bnd (assert_key E) (\<lambda>_. unregister_loop E th fuel)"

section \<open>Setting up and tearing down\<close>

definition mulle_aba_init_p :: "ext \<Rightarrow> tid \<Rightarrow> uptr \<Rightarrow> (mem, int) prog" where
  "mulle_aba_init_p E th allocator =
     bnd (if ndebug E then skip else bnd (reads tss_key) (\<lambda>k. c_assert E (k = 0))) (\<lambda>_.
     bnd (case x_tss_key E of None \<Rightarrow> Crash Abort
          | Some k \<Rightarrow> modify (\<lambda>s. s\<lparr>tss_key := k, tss := (\<lambda>_. 0)\<rparr>)) (\<lambda>_.
     bnd (mulle_aba_storage_init E th allocator) (\<lambda>rval.
     bnd (c_assert E (rval = 0)) (\<lambda>_. Ret rval))))"

definition mulle_aba_done_p :: "ext \<Rightarrow> (mem, unit) prog" where
  "mulle_aba_done_p E =
     bnd (mulle_aba_storage_done E) (\<lambda>_.
     modify (\<lambda>s. s\<lparr>tss_key := 0, q := empty_storage\<rparr>))"

section \<open>The API on the global instance\<close>

definition with_global :: "ext \<Rightarrow> (mem, 'a) prog \<Rightarrow> (mem, 'a) prog" where
  "with_global E p =
     bnd (reads aba_global) (\<lambda>g. bnd (c_assert E g) (\<lambda>_. if g then p else Crash Null_deref))"

definition mulle_aba_is_registered :: "ext \<Rightarrow> tid \<Rightarrow> (mem, bool) prog" where
  "mulle_aba_is_registered E th = with_global E (mulle_aba_is_current_thread_registered E th)"

definition mulle_aba_register :: "ext \<Rightarrow> tid \<Rightarrow> nat \<Rightarrow> (mem, unit) prog" where
  "mulle_aba_register E th fuel =
     with_global E (bnd (mulle_aba_register_current_thread E th fuel) (\<lambda>r.
       if r \<noteq> 0 then Crash Abort else skip))"

definition mulle_aba_checkin :: "ext \<Rightarrow> tid \<Rightarrow> nat \<Rightarrow> (mem, unit) prog" where
  "mulle_aba_checkin E th fuel =
     with_global E (bnd (mulle_aba_checkin_current_thread E th fuel) (\<lambda>_. skip))"

definition mulle_aba_free_p :: "ext \<Rightarrow> tid \<Rightarrow> nat \<Rightarrow> uptr \<Rightarrow> uptr \<Rightarrow> (mem, int) prog" where
  "mulle_aba_free_p E th fuel p_free pointer =
     mulle_aba_free_owned_pointer_p E th fuel Fn_no_owner_free pointer p_free"

definition mulle_aba_free :: "ext \<Rightarrow> tid \<Rightarrow> nat \<Rightarrow> uptr \<Rightarrow> uptr \<Rightarrow> (mem, int) prog" where
  "mulle_aba_free E th fuel p_free pointer =
     with_global E (if pointer = 0 then Ret 0
       else bnd (c_assert E (p_free \<noteq> 0)) (\<lambda>_.
            mulle_aba_free_owned_pointer_p E th fuel Fn_no_owner_free pointer p_free))"

definition mulle_aba_free_owned_pointer :: "ext \<Rightarrow> tid \<Rightarrow> nat \<Rightarrow> uptr \<Rightarrow> uptr \<Rightarrow> uptr \<Rightarrow> (mem, int) prog" where
  "mulle_aba_free_owned_pointer E th fuel p_free pointer owner =
     with_global E (if pointer = 0 then Ret 0
       else bnd (c_assert E (p_free \<noteq> 0)) (\<lambda>_.
            mulle_aba_free_owned_pointer_p E th fuel (Fn_client p_free) pointer owner))"

definition mulle_aba_unregister :: "ext \<Rightarrow> tid \<Rightarrow> nat \<Rightarrow> (mem, unit) prog" where
  "mulle_aba_unregister E th fuel =
     with_global E (bnd (mulle_aba_unregister_current_thread E th fuel) (\<lambda>r.
       if r \<noteq> 0 then Crash Abort else skip))"

definition mulle_aba_init :: "ext \<Rightarrow> tid \<Rightarrow> uptr \<Rightarrow> (mem, unit) prog" where
  "mulle_aba_init E th allocator =
     (let allocator = (if allocator = 0 then x_default_allocator E else allocator) in
      bnd (modify (\<lambda>s. s\<lparr>aba_global := True\<rparr>)) (\<lambda>_.
      bnd (mulle_aba_init_p E th allocator) (\<lambda>r.
      if r \<noteq> 0 then Crash Abort
      else if allocator = x_default_allocator E
      then modify (\<lambda>s. s\<lparr>allocator_aba := (allocator_aba s)(allocator := True)\<rparr>)
      else skip)))"

definition mulle_aba_done :: "ext \<Rightarrow> (mem, unit) prog" where
  "mulle_aba_done E =
     with_global E (bnd (reads (\<lambda>s. q_allocator (q s))) (\<lambda>allocator.
       bnd (if allocator = x_default_allocator E
            then modify (\<lambda>s. s\<lparr>allocator_aba := (allocator_aba s)(allocator := False)\<rparr>)
            else skip) (\<lambda>_.
       mulle_aba_done_p E)))"

definition mulle_aba_reset :: "ext \<Rightarrow> tid \<Rightarrow> (mem, unit) prog" where
  "mulle_aba_reset E th =
     with_global E (bnd (reads (\<lambda>s. q_allocator (q s))) (\<lambda>allocator.
       bnd (mulle_aba_done_p E) (\<lambda>_.
       bnd (mulle_aba_init_p E th allocator) (\<lambda>_. skip))))"

definition mulle_aba_current_thread_get_timestamp :: "tid \<Rightarrow> (mem, uptr) prog" where
  "mulle_aba_current_thread_get_timestamp th =
     bnd (reads aba_global) (\<lambda>g. if \<not> g then Ret 0 else tss_get th)"

definition mulle_aba_get_worldpointer :: "(mem, uptr) prog" where
  "mulle_aba_get_worldpointer =
     bnd (reads aba_global) (\<lambda>g. if \<not> g then Ret 0 else mulle_aba_storage_get_worldpointer)"

section \<open>The key of the threads' timestamps\<close>

text \<open>The asserts on the key hold unless it is -1, the value of an invalid key.\<close>

definition keyed :: "ext \<Rightarrow> mem \<Rightarrow> bool" where
  "keyed E s \<longleftrightarrow> ndebug E \<or> tss_key s \<noteq> - 1"

lemma keyed_cong: "tss_key t = tss_key s \<Longrightarrow> keyed E t = keyed E s"
  by (simp add: keyed_def)

lemma run_assert_key: "run (assert_key E) s = (if keyed E s then Ok () s else Fault Assert_failed)"
  by (simp add: assert_key_def keyed_def run_bnd run_c_assert)

lemma run_is_registered:
  "run (mulle_aba_is_current_thread_registered E th) s = (if keyed E s then Ok (tss s th \<noteq> 0) s else Fault Assert_failed)"
  by (simp add: mulle_aba_is_current_thread_registered_def run_bnd run_assert_key run_tss_get)

end
