(* ===== verification/Aba_Pool.thy ===== *)
theory Aba_Pool
  imports Aba_Api
begin

text \<open>
  Threads that run at the same time. A pool gives every thread the rest of its program; the scheduler lets
  any thread do its next action. Three properties of programs make such runs tractable:
  \<open>blind\<close>, a program neither sees nor disturbs a change others make; \<open>keeps\<close>, it preserves a property of
  memory whatever it reads; \<open>solo\<close>, both at once along its run from one memory. Compositional rules
  for them, and which of the library's operations have them.
\<close>

section \<open>Pools\<close>

inductive sched :: "(tid \<Rightarrow> ('s, 'a) prog) \<Rightarrow> 's \<Rightarrow> (tid \<Rightarrow> ('s, 'a) prog) \<Rightarrow> 's \<Rightarrow> bool" for P s where
  sched_start: "sched P s P s"
| sched_step: "sched P s Q t \<Longrightarrow> Q th = Act u k \<Longrightarrow> sched P s (Q(th := k t)) (u t)"

lemma sched_inv:
  assumes "sched P s Q t" "I P s" "\<And>Q t th u k. I Q t \<Longrightarrow> Q th = Act u k \<Longrightarrow> I (Q(th := k t)) (u t)"
  shows "I Q t"
  using assms(1) by induction (use assms(2,3) in blast)+

lemma sched_trans: "sched Q t R u \<Longrightarrow> sched P s Q t \<Longrightarrow> sched P s R u"
  by (induction rule: sched.induct) (auto intro: sched_step)

text \<open>A pool can be run to its end: programs are finite trees.\<close>

lemma sched_alone: "\<exists>Q t. sched P s Q t \<and> (\<forall>u k. Q i \<noteq> Act u k) \<and> (\<forall>j. j \<noteq> i \<longrightarrow> Q j = P j)"
proof (induction "P i" arbitrary: P s)
  case (Act u k)
  obtain Q t where q: "sched (P(i := k s)) (u s) Q t" "\<forall>u k. Q i \<noteq> Act u k" "\<forall>j. j \<noteq> i \<longrightarrow> Q j = (P(i := k s)) j"
    using Act.hyps(1) by (metis fun_upd_same rangeI)
  have "sched P s (P(i := k s)) (u s)" by (rule sched_step [where Q = P, OF sched_start Act.hyps(2) [symmetric]])
  from sched_trans [OF q(1) this] q(2,3) show ?case by auto
qed (metis prog.distinct(3,5) sched_start)+

lemma sched_ends:
  assumes "finite A" "\<And>i u k. i \<notin> A \<Longrightarrow> P i \<noteq> Act u k"
  shows "\<exists>Q t. sched P s Q t \<and> (\<forall>i u k. Q i \<noteq> Act u k)"
  using assms
proof (induction A arbitrary: P s rule: finite_induct)
  case empty
  then show ?case using sched_start by fast
next
  case (insert i A)
  obtain Q t where q: "sched P s Q t" "\<forall>u k. Q i \<noteq> Act u k" "\<forall>j. j \<noteq> i \<longrightarrow> Q j = P j" using sched_alone by metis
  have "Q j \<noteq> Act u k" if "j \<notin> A" for j u k
    using q(2,3) insert.prems [of j] that by (cases "j = i") auto
  then have "\<exists>R v. sched Q t R v \<and> (\<forall>i u k. R i \<noteq> Act u k)" by (rule insert.IH)
  then obtain R v where r: "sched Q t R v" "\<forall>i u k. R i \<noteq> Act u k" by (elim exE conjE)
  show ?case using sched_trans [OF r(1) q(1)] r(2) by (intro exI conjI)
qed

section \<open>Programs that do not interfere\<close>

primrec blind :: "(('s \<Rightarrow> 's) \<Rightarrow> bool) \<Rightarrow> ('s, 'a) prog \<Rightarrow> bool" where
  "blind F (Ret a) \<longleftrightarrow> True"
| "blind F (Crash e) \<longleftrightarrow> True"
| "blind F (Act u k) \<longleftrightarrow> (\<forall>f s. F f \<longrightarrow> k (f s) = k s \<and> u (f s) = f (u s)) \<and> (\<forall>s. blind F (k s))"

primrec keeps :: "('s \<Rightarrow> bool) \<Rightarrow> ('s, 'a) prog \<Rightarrow> bool" where
  "keeps I (Ret a) \<longleftrightarrow> True"
| "keeps I (Crash e) \<longleftrightarrow> True"
| "keeps I (Act u k) \<longleftrightarrow> (\<forall>s. I s \<longrightarrow> I (u s)) \<and> (\<forall>s. keeps I (k s))"

primrec solo :: "('s \<Rightarrow> bool) \<Rightarrow> (('s \<Rightarrow> 's) \<Rightarrow> bool) \<Rightarrow> ('s, 'a) prog \<Rightarrow> 's \<Rightarrow> bool" where
  "solo I F (Ret a) = (\<lambda>s. I s)"
| "solo I F (Crash e) = (\<lambda>s. False)"
| "solo I F (Act u k) = (\<lambda>s. I s \<and> (\<forall>f. F f \<longrightarrow> k (f s) = k s \<and> u (f s) = f (u s)) \<and> solo I F (k s) (u s))"

named_theorems quiet_progs

lemma blind_bnd [quiet_progs]: "blind F p \<Longrightarrow> (\<And>a. blind F (g a)) \<Longrightarrow> blind F (bnd p g)"
proof (induction p)
  case (Act u k)
  from Act.prems(1) have k: "blind F (k s)" "F f \<Longrightarrow> k (f s) = k s \<and> u (f s) = f (u s)" for s f by auto
  have "blind F (bnd (k s) g)" for s using Act.IH [OF rangeI k(1) Act.prems(2)] .
  with k(2) show ?case by auto
qed auto

lemma keeps_bnd [quiet_progs]: "keeps I p \<Longrightarrow> (\<And>a. keeps I (g a)) \<Longrightarrow> keeps I (bnd p g)"
proof (induction p)
  case (Act u k)
  from Act.prems(1) have k: "keeps I (k s)" "I s \<Longrightarrow> I (u s)" for s by auto
  have "keeps I (bnd (k s) g)" for s using Act.IH [OF rangeI k(1) Act.prems(2)] .
  with k(2) show ?case by auto
qed auto

lemma solo_bnd: "solo I F p s \<Longrightarrow> run p s = Ok a t \<Longrightarrow> solo I F (g a) t \<Longrightarrow> solo I F (bnd p g) s"
  by (induction p arbitrary: s) auto

lemma solo_I: "solo I F p s \<Longrightarrow> I s"
  by (cases p) auto

lemma solo_quiet: "blind F p \<Longrightarrow> keeps I p \<Longrightarrow> I s \<Longrightarrow> run p s = Ok a t \<Longrightarrow> solo I F p s"
  by (induction p arbitrary: s) auto

lemma solo_quiet_bnd:
  assumes "blind F p" "keeps I p" "I s" "run p s = Ok a t" "solo I F (g a) t"
  shows "solo I F (bnd p g) s"
  by (rule solo_bnd [where g = g, OF solo_quiet [OF assms(1-4)] assms(4,5)])

lemma solo_end: "solo I F p s \<Longrightarrow> run p s = Ok a t \<Longrightarrow> I t"
  by (induction p arbitrary: s) auto

lemma keeps_run: "keeps I p \<Longrightarrow> I s \<Longrightarrow> run p s = Ok a t \<Longrightarrow> I t"
  by (induction p arbitrary: s) auto

lemma solo_mono: "solo I F p s \<Longrightarrow> (\<And>s. I s \<Longrightarrow> J s) \<Longrightarrow> solo J F p s"
  by (induction p arbitrary: s) auto

text \<open>The first part of a program that is quiet; the rest may depend on what it read.\<close>

lemma solo_step:
  assumes "blind F p" "keeps I p" "I s" "run (bnd p g) s = Ok r z"
    and "\<And>a t. run p s = Ok a t \<Longrightarrow> I t \<Longrightarrow> run (g a) t = Ok r z \<Longrightarrow> solo I F (g a) t"
  shows "solo I F (bnd p g) s"
proof -
  obtain a t where t: "run p s = Ok a t" "run (g a) t = Ok r z" using assms(4) by (auto simp: run_bnd_Ok)
  have "I t" by (rule solo_end [OF solo_quiet [OF assms(1-3) t(1)] t(1)])
  then show ?thesis using assms(5) t by (intro solo_quiet_bnd [where g = g, OF assms(1-3) t(1)]) blast
qed

text \<open>A blind program does the same on the changed memory.\<close>

lemma blind_run:
  "blind F p \<Longrightarrow> F f \<Longrightarrow> run p (f s) = (case run p s of Ok a t \<Rightarrow> Ok a (f t) | Fault e \<Rightarrow> Fault e)"
  by (induction p arbitrary: s) auto

lemma blind_each [quiet_progs]: "(\<And>x. blind F (p x)) \<Longrightarrow> blind F (each p xs)"
  by (induction xs) (auto intro!: quiet_progs simp: skip_def)

lemma keeps_each [quiet_progs]: "(\<And>x. keeps I (p x)) \<Longrightarrow> keeps I (each p xs)"
  by (induction xs) (auto intro!: quiet_progs simp: skip_def)

lemma keeps_True [simp]: "keeps (\<lambda>_. True) p"
  by (induction p) auto

section \<open>Changes of memory others may make\<close>

text \<open>\<open>framed f\<close>: the change \<open>f\<close> leaves worlds, free entries, caches, calls made, \<open>errno\<close> and the allocator alone,
  and does not depend on them.\<close>

definition framed :: "(mem \<Rightarrow> mem) \<Rightarrow> bool" where
  "framed f \<longleftrightarrow> (\<forall>s. worlds (f s) = worlds s \<and> entries (f s) = entries s \<and> nops (f s) = nops s
     \<and> live (f s) = live s \<and> errno (f s) = errno s \<and> trace (f s) = trace s
     \<and> q_free_entries (q (f s)) = q_free_entries (q s) \<and> q_free_worlds (q (f s)) = q_free_worlds (q s)
     \<and> (\<forall>W. f (s\<lparr>worlds := W\<rparr>) = (f s)\<lparr>worlds := W\<rparr>) \<and> (\<forall>X. f (s\<lparr>entries := X\<rparr>) = (f s)\<lparr>entries := X\<rparr>)
     \<and> (\<forall>m. f (s\<lparr>nops := m\<rparr>) = (f s)\<lparr>nops := m\<rparr>) \<and> (\<forall>e. f (s\<lparr>errno := e\<rparr>) = (f s)\<lparr>errno := e\<rparr>)
     \<and> (\<forall>c. f (s\<lparr>trace := c\<rparr>) = (f s)\<lparr>trace := c\<rparr>)
     \<and> (\<forall>xs. f (s\<lparr>q := (q s)\<lparr>q_free_entries := xs\<rparr>\<rparr>) = (f s)\<lparr>q := (q (f s))\<lparr>q_free_entries := xs\<rparr>\<rparr>)
     \<and> (\<forall>xs. f (s\<lparr>q := (q s)\<lparr>q_free_worlds := xs\<rparr>\<rparr>) = (f s)\<lparr>q := (q (f s))\<lparr>q_free_worlds := xs\<rparr>\<rparr>))"

lemma blind_ActI:
  assumes "\<And>f s. F f \<Longrightarrow> k (f s) = k s" "\<And>f s. F f \<Longrightarrow> u (f s) = f (u s)" "\<And>s. blind F (k s)"
  shows "blind F (Act u k)"
  using assms by simp

lemma quiet_simps [simp]:
  "blind F skip" "keeps I skip" "blind F (c_assert E b)" "keeps I (c_assert E b)" "blind F (check_ptr a y Ret)"
  "keeps I (check_ptr a y Ret)" "blind F (check_ptr a y (\<lambda>_. skip))" "keeps I (check_ptr a y (\<lambda>_. skip))"
  by (simp_all add: skip_def c_assert_def check_ptr_def split: option.splits)

lemma quiet_if [quiet_progs]:
  "(b \<Longrightarrow> blind F p) \<Longrightarrow> (\<not> b \<Longrightarrow> blind F p') \<Longrightarrow> blind F (if b then p else p')"
  "(b \<Longrightarrow> keeps I p) \<Longrightarrow> (\<not> b \<Longrightarrow> keeps I p') \<Longrightarrow> keeps I (if b then p else p')"
  by simp_all

lemma blind_primitives:
  assumes "\<And>f. F f \<Longrightarrow> framed f"
  shows "blind F (load_world a)" "blind F (store_world a g)" "blind F (load_entry a)" "blind F (store_entry a h)"
    "blind F (free_entries_remove_one E)" "blind F (modify (upd_free_entries xs))" "blind F (modify (upd_free_worlds xs))"
    "blind F (calloc_entry E)" "blind F (modify (\<lambda>s. s\<lparr>trace := trace s @ cs\<rparr>))" "blind F (set_errno th e)"
proof -
  show "blind F (load_world a)" "blind F (store_world a g)"
    unfolding load_world_def store_world_def by (rule blind_ActI; (drule assms)?; simp add: framed_def)+
  show "blind F (load_entry a)" "blind F (store_entry a h)"
    unfolding load_entry_def store_entry_def by (rule blind_ActI; (drule assms)?; simp add: framed_def)+
  show "blind F (free_entries_remove_one E)" "blind F (modify (upd_free_entries xs))" "blind F (modify (upd_free_worlds xs))"
    unfolding free_entries_remove_one_def modify_def
    by (rule blind_ActI; (drule assms)?; simp add: framed_def upd_free_entries_def upd_free_worlds_def)+
  show "blind F (calloc_entry E)"
    unfolding calloc_entry_def by (rule blind_ActI; (drule assms)?; simp add: framed_def calloc_at_def Let_def)
  show "blind F (modify (\<lambda>s. s\<lparr>trace := trace s @ cs\<rparr>))" "blind F (set_errno th e)"
    unfolding set_errno_def modify_def by (rule blind_ActI; (drule assms)?; simp add: framed_def)+
qed

text \<open>Properties of memory that only concern the world pointer, worlds, timestamp storages, the threads' timestamps and the calls made.\<close>

definition resting :: "(mem \<Rightarrow> bool) \<Rightarrow> bool" where
  "resting I \<longleftrightarrow> (\<forall>s t. q_world (q s) = q_world (q t) \<and> worlds s = worlds t \<and> stores s = stores t \<and> tss s = tss t
     \<and> trace s = trace t \<longrightarrow> I s = I t)"

lemma resting_keeps:
  assumes "resting I" "\<And>s. q_world (q (u s)) = q_world (q s)" "\<And>s. worlds (u s) = worlds s"
    "\<And>s. stores (u s) = stores s" "\<And>s. tss (u s) = tss s" "\<And>s. trace (u s) = trace s" "\<And>s. keeps I (k s)"
  shows "keeps I (Act u k)"
proof -
  have "I (u s) = I s" for s
    using assms(1) [unfolded resting_def, rule_format, of "u s" s] assms(2-6) by simp
  then show ?thesis by (simp add: assms(7))
qed

lemma keeps_primitives:
  assumes "resting I"
  shows "keeps I (load_world a)" "keeps I (load_entry a)" "keeps I (store_entry a h)"
    "keeps I (free_entries_remove_one E)" "keeps I (modify (upd_free_entries xs))" "keeps I (modify (upd_free_worlds xs))"
    "keeps I (calloc_entry E)" "keeps I (set_errno th e)"
  unfolding load_world_def load_entry_def store_entry_def free_entries_remove_one_def modify_def calloc_entry_def set_errno_def
  by (rule resting_keeps [OF assms]; simp add: upd_free_entries_def upd_free_worlds_def Let_def)+

lemmas quiet_primitives = blind_primitives keeps_primitives

section \<open>Operations that do not interfere\<close>

lemma quiet_check [quiet_progs]:
  "(b \<Longrightarrow> blind F p) \<Longrightarrow> blind F (check_bound b p)" "(b \<Longrightarrow> keeps I p) \<Longrightarrow> keeps I (check_bound b p)"
  by (simp_all add: check_bound_def)

lemma quiet_option [quiet_progs]:
  "blind F p \<Longrightarrow> (\<And>y. blind F (p' y)) \<Longrightarrow> blind F (case e of None \<Rightarrow> p | Some y \<Rightarrow> p' y)"
  "keeps I p \<Longrightarrow> (\<And>y. keeps I (p' y)) \<Longrightarrow> keeps I (case e of None \<Rightarrow> p | Some y \<Rightarrow> p' y)"
  by (simp_all split: option.splits)

lemma quiet_get_timestampentry:
  "(\<And>f. F f \<Longrightarrow> framed f) \<Longrightarrow> blind F (mulle_aba_world_get_timestampentry E th a t)"
  "resting I \<Longrightarrow> keeps I (mulle_aba_world_get_timestampentry E th a t)"
  unfolding mulle_aba_world_get_timestampentry_def mulle_aba_world_get_timestampstorage_def
    mulle_aba_world_get_timestampstorage_index_def mulle_aba_world_get_timestampstorage_at_index_def Let_def
  by (intro quiet_progs quiet_primitives quiet_simps; simp)+

lemma quiet_assert_sanity:
  "(\<And>f. F f \<Longrightarrow> framed f) \<Longrightarrow> blind F (mulle_aba_world_assert_sanity E th a)"
  "resting I \<Longrightarrow> keeps I (mulle_aba_world_assert_sanity E th a)"
  unfolding mulle_aba_world_assert_sanity_def
  by (intro quiet_progs quiet_primitives quiet_simps quiet_get_timestampentry; simp)+

lemma quiet_freeentry:
  "(\<And>f. F f \<Longrightarrow> framed f) \<Longrightarrow> blind F (mulle_aba_storage_alloc_freeentry E)"
  "resting I \<Longrightarrow> keeps I (mulle_aba_storage_alloc_freeentry E)"
  "(\<And>f. F f \<Longrightarrow> framed f) \<Longrightarrow> blind F (mulle_aba_freeentry_set e g ptr owner)"
  "resting I \<Longrightarrow> keeps I (mulle_aba_freeentry_set e g ptr owner)"
  "(\<And>f. F f \<Longrightarrow> framed f) \<Longrightarrow> blind F (mulle_aba_storage_free_freeentry E e)"
  unfolding mulle_aba_storage_alloc_freeentry_def mulle_aba_freeentry_set_def assert_entry_def mulle_aba_storage_free_freeentry_def
  by (intro quiet_progs quiet_primitives quiet_simps; simp)+

lemma quiet_free_worlds_delayed:
  "(\<And>f. F f \<Longrightarrow> framed f) \<Longrightarrow> (\<And>a. blind F (entry_add_pointer E e a)) \<Longrightarrow> blind F (free_worlds_delayed E fuel e old)"
  "resting I \<Longrightarrow> (\<And>a. keeps I (entry_add_pointer E e a)) \<Longrightarrow> keeps I (free_worlds_delayed E fuel e old)"
  by (induction fuel arbitrary: old; simp; intro impI quiet_progs quiet_primitives quiet_simps quiet_freeentry; simp)+

lemma blind_call_free:
  assumes "\<And>f. F f \<Longrightarrow> framed f"
  shows "blind F (call_free E g ptr owner)"
  by (cases g; simp only: call_free.simps mulle_aba_storage_owned_pointer_free_world_def mulle_aba_no_owner_free_def;
      intro quiet_progs blind_primitives quiet_simps; simp add: assms)

lemma blind_linkedlist_free:
  assumes "\<And>f. F f \<Longrightarrow> framed f"
  shows "blind F (mulle_aba_storage_linkedlist_free E xs)"
  unfolding mulle_aba_storage_linkedlist_free_def free_pointer_and_entry_def
  by (intro quiet_progs blind_primitives blind_call_free quiet_freeentry; simp add: assms)

end
