(* ===== verification/Aba_Lost.thy ===== *)
theory Aba_Lost
  imports Aba_Pool
begin

text \<open>
  A free that loses a race. Between its read of the world pointer and its first attempt to install a
  world, another free has moved the world on to the next timestamp: the attempt fails, the callback is asked again about the world
  that is there now, refuses, what was allocated in vain is given back, and the free starts again with what it finds.
\<close>

section \<open>Callbacks do not look at the world pointer\<close>

definition repointed :: "(mem \<Rightarrow> mem) \<Rightarrow> bool" where
  "repointed f \<longleftrightarrow> (\<exists>p. f = set_q_world p)"

lemma framed_repointed: "repointed f \<Longrightarrow> framed f"
  by (auto simp: repointed_def framed_def set_q_world_def live_def)

lemma quiet_prod [quiet_progs]: "(\<And>a b. blind F (p a b)) \<Longrightarrow> blind F (case x of (a, b) \<Rightarrow> p a b)"
  by (cases x) simp

lemma blind_repointed_stores:
  "blind repointed (load_ts a)" "blind repointed (store_ts a g)" "blind repointed (weakcas_usage E a new expect)"
  "blind repointed (calloc_ts E n)" "blind repointed (dealloc_ts a)" "blind repointed (get_errno th)"
proof -
  have [simp]: "live (s\<lparr>q := y\<rparr>) = live s" for s y by (simp add: live_def fun_eq_iff)
  show "blind repointed (load_ts a)" "blind repointed (store_ts a g)" "blind repointed (weakcas_usage E a new expect)"
    unfolding load_ts_def store_ts_def weakcas_usage_def
    by (rule blind_ActI; clarsimp simp: repointed_def set_q_world_def check_ptr_def split: option.splits)+
  show "blind repointed (dealloc_ts a)" "blind repointed (get_errno th)" "blind repointed (calloc_ts E n)"
    unfolding dealloc_ts_def get_errno_def reads_def calloc_ts_def
    by (rule blind_ActI; clarsimp simp: repointed_def set_q_world_def check_free_def skip_def Let_def calloc_at_def)+
qed

lemmas blind_repointed = blind_repointed_stores blind_primitives [of repointed, OF framed_repointed]

lemma blind_repointed_usage_bit: "blind repointed (mulle_aba_timestampstorage_set_usage_bit E fuel a i b)"
  by (induction fuel) (auto intro!: quiet_progs blind_repointed simp: Let_def)

lemma blind_ts_alloc: "blind repointed (mulle_aba_timestampstorage_alloc E)"
  unfolding mulle_aba_timestampstorage_alloc_def by (intro quiet_progs blind_repointed quiet_simps) simp_all

lemma blind_ts_free: "blind repointed (mulle_aba_timestampstorage_free E a)"
  unfolding mulle_aba_timestampstorage_free_def mulle_aba_timestampstorage_empty_assert_def
    mulle_aba_timestampstorage_free_unchecked_def
  by (intro quiet_progs blind_repointed quiet_simps)

lemma blind_look:
  "blind repointed (mulle_aba_world_get_timestampstorage_index E th a t)"
  "blind repointed (mulle_aba_world_get_timestampstorage_at_index E a i)"
  "blind repointed (mulle_aba_world_get_timestampstorage E th a t)"
  unfolding mulle_aba_world_get_timestampstorage_def mulle_aba_world_get_timestampstorage_index_def
    mulle_aba_world_get_timestampstorage_at_index_def Let_def
  by (intro quiet_progs blind_repointed quiet_simps; simp)+

lemma blind_rotate: "blind repointed (mulle_aba_world_rotate_storage E th a)"
  unfolding mulle_aba_world_rotate_storage_def mulle_aba_world_pop_storage_def mulle_aba_world_push_storage_def Let_def
  by (intro quiet_progs blind_repointed quiet_simps; simp)

lemma blind_reuse_loop: "blind repointed (reuse_loop E th a counting j k i r)"
  by (induction k arbitrary: i r) (auto intro!: quiet_progs blind_repointed blind_look blind_rotate)

lemma blind_reuse: "blind repointed (mulle_aba_world_reuse_storages E th a)"
  unfolding mulle_aba_world_reuse_storages_def mulle_aba_world_reuse_or_count_storages_def
  by (intro quiet_progs blind_repointed blind_look blind_reuse_loop; simp)

lemma blind_handle: "blind repointed (handle_callback_mode_for_add_context E th mode i c)"
  unfolding handle_callback_mode_for_add_context_def assert_info_def
  by (intro quiet_progs blind_repointed quiet_simps blind_ts_alloc blind_ts_free; simp)

lemma blind_checks:
  "blind repointed (pre_check_world_for_timestamp_increment E th i c)"
  "blind repointed (size_check_world_for_timestamp_increment E i)"
  "blind repointed (increment_world_timestamp E th fuel i)"
  unfolding pre_check_world_for_timestamp_increment_def size_check_world_for_timestamp_increment_def
    increment_world_timestamp_def assert_info_def
  by (intro quiet_progs blind_repointed quiet_simps blind_handle blind_look blind_repointed_usage_bit; simp)+

lemma blind_callbacks:
  "blind repointed (increment_timestamp E th fuel mode i c)"
  "blind repointed (add_storage_and_increment_timestamp E th fuel mode i c)"
  "blind repointed (reorganize_storage_and_increment_timestamp E th fuel mode i c)"
  unfolding increment_timestamp_def add_storage_and_increment_timestamp_def reorganize_storage_and_increment_timestamp_def
    assert_info_def
  by (intro quiet_progs blind_repointed quiet_simps blind_handle blind_checks blind_reuse blind_ts_free; simp)+

section \<open>Callbacks that are asked again\<close>

text \<open>What the callbacks of a free have in common when they are called for a copy that could not be installed: if the world
  has become single-threaded or its bit is clear they refuse, and the storage they had allocated goes back.\<close>

definition undone :: "add_context \<Rightarrow> (uptr \<Rightarrow> timestampstorage option) \<Rightarrow> uptr \<Rightarrow> timestampstorage option" where
  "undone c S = (if ac_ts_storage c = 0 then S else S(ac_ts_storage c := None))"

definition refusal :: "world \<Rightarrow> int" where
  "refusal w = (if w_n_threads w \<le>s 1 then EAGAIN else EBUSY)"

definition releasable :: "ext \<Rightarrow> add_context \<Rightarrow> (uptr \<Rightarrow> timestampstorage option) \<Rightarrow> bool" where
  "releasable E c S \<longleftrightarrow> ac_ts_storage c = 0
     \<or> (\<exists>ts. S (ac_ts_storage c) = Some ts \<and> (\<forall>i < n_entries E. pointer_list (ts_entries ts ! i) = []))"

locale retreating_callback = world_callback E Swap_free cb pre post
  for E :: ext and cb :: "add_context callback" and pre and post +
  assumes unaware: "blind repointed (cb World_modify i u)"
    and changes: "pre i u s \<Longrightarrow> post i u s i' u' t \<Longrightarrow> i' = i\<lparr>new_bit := 0\<rparr> \<and> q t = q s \<and> entries t = entries s
      \<and> tss t = tss s \<and> trace t = trace s \<and> releasable E u' (stores t)
      \<and> (\<exists>v v'. worlds s (new_world i) = Some v \<and> worlds t = (worlds s)(new_world i \<mapsto> v')
           \<and> w_size v' = w_size v \<and> length (w_storage v') = length (w_storage v))"
    and refuses: "new_world i \<noteq> 0 \<Longrightarrow> old_world i \<noteq> new_world i \<Longrightarrow> worlds s (new_world i) = Some v \<Longrightarrow>
      w_n_threads v \<le>s 1 \<or> old_bit i = 0 \<Longrightarrow> releasable E u (stores s) \<Longrightarrow>
      \<exists>u1 u2 s1. run (cb World_reuse i u) s = Ok (refusal v, i, u1) s1
        \<and> run (cb World_discard i u1) s1 = Ok (0, i, u2) (s\<lparr>stores := undone u (stores s)\<rparr>)"

lemma refusal_nonzero [simp]: "refusal w \<noteq> 0"
  by (simp add: refusal_def EAGAIN_def EBUSY_def)

lemma run_swap_fails:
  assumes "swap_ready E intention s new_p old_p" "intention \<noteq> Swap_lock" "q_world (q s) \<noteq> old_p"
  shows "run (mulle_aba_storage_swap_worlds E intention new_p old_p) s = Ok (- 1) s"
  using run_assert_swap_worlds [OF assms(1,2)] assms(3) by (simp add: mulle_aba_storage_swap_worlds_def exec)

lemma swap_ready_worlds: "worlds t = worlds s \<Longrightarrow> swap_ready E intention t p r = swap_ready E intention s p r"
  by (simp add: swap_ready_def)

text \<open>The memory a lost attempt leaves: the world it had allocated, at \<open>a\<close>, is in the cache, in place of all that was there.\<close>

definition given_up :: "uptr \<Rightarrow> world \<Rightarrow> ext \<Rightarrow> mem \<Rightarrow> mem \<Rightarrow> bool" where
  "given_up a y E s t \<longleftrightarrow> worlds t = (worlds (drained s))(a \<mapsto> clear_world y)
     \<and> q t = (q s)\<lparr>q_free_worlds := x_add E a []\<rparr> \<and> entries t = entries s \<and> tss t = tss s \<and> trace t = trace s"

lemma info_of_lock: "(info_of a p)\<lparr>new_locked := 0\<rparr> = info_of a p"
  by (simp add: info_of_def)

context retreating_callback begin

text \<open>The second round: \<open>w\<close> is the world that is there now, the copy is still the one made of the old world.\<close>

lemma run_second_round:
  assumes "q_world (q s) = p" "get_struct p \<noteq> 0" "a \<noteq> 0" "get_struct p \<noteq> a" "worlds s (get_struct p) = Some w" "wf_world E w"
    and "worlds s a = Some v" "w_size v = w_size w" "length (w_storage v) = unat (w_size w)" "new_world i = a"
    and "w_n_threads w \<le>s 1 \<or> get_bit' p = 0" "releasable E u (stores s)"
  obtains u2 where
    "run (copy_change_loop E th (Suc g) Swap_free World_reuse i p cb u) s = Ok (\<lparr>new_world_p = 0, old_world_p = 0\<rparr>, u2)
      ((upd_free_worlds (x_add E a) (s\<lparr>worlds := (worlds s)(a \<mapsto> clear_world (copy_of w)), stores := undone u (stores s)\<rparr>))
        \<lparr>errno := (errno s)(th := refusal w)\<rparr>)"
proof -
  note sz = wf_world_size [OF assms(6)]
  let ?c = "s\<lparr>worlds := (worlds s)(a \<mapsto> copy_of w)\<rparr>" and ?i = "info_of a p"
  obtain i1 i2 i3 i4 i5 where i: "i = \<lparr>new_world = a, old_world = i1, old_bit = i2, new_bit = i3, old_locked = i4, new_locked = i5\<rparr>"
    using assms(10) by (cases i) simp
  have sa: "run (mulle_aba_world_assert_sanity E th (get_struct p)) s = Ok () s"
    "run (mulle_aba_world_assert_sanity E th (get_struct p)) ?c = Ok () ?c"
    "run (mulle_aba_world_assert_sanity E th a) ?c = Ok () ?c"
    by (rule run_assert_sanity [OF assms(2,5,6)], rule run_assert_sanity [OF assms(2) _ assms(6)],
        use assms(4,5) in simp, rule run_assert_sanity [OF assms(3) _ wf_copy_of [OF assms(6)]], simp)
  have cp: "run (mulle_aba_world_copy a (get_struct p)) s = Ok () ?c"
    using run_world_copy [OF assms(3,2,5,7) sz(2)] assms(9) by (simp add: copy_of_def)
  obtain u1 u2 s1 where r: "run (cb World_reuse ?i u) ?c = Ok (refusal (copy_of w), ?i, u1) s1"
    "run (cb World_discard ?i u1) s1 = Ok (0, ?i, u2) (?c\<lparr>stores := undone u (stores ?c)\<rparr>)"
    using refuses [of ?i ?c "copy_of w" u] assms(3,4,11,12) by auto
  let ?d = "?c\<lparr>stores := undone u (stores ?c)\<rparr>"
  have fw: "run (mulle_aba_storage_free_world E a) ?d
      = Ok () (upd_free_worlds (x_add E a) (?d\<lparr>worlds := (worlds ?d)(a \<mapsto> clear_world (copy_of w))\<rparr>))"
    by (rule run_free_world [OF assms(3)]) (use sz in simp_all)
  have ld: "run (load_world (get_struct p)) s = Ok w s" "run (load_world a) s = Ok v s" using assms(2,3,5,7) by (simp_all add: exec)
  have rf: "refusal (copy_of w) = refusal w" by (simp add: refusal_def)
  show ?thesis
    by (rule that [of u2], use sa ld cp r fw assms(3,8) in
      \<open>simp add: i info_of_def [symmetric] Let_def run_bnd rf run_set_errno run_null_worldpointers upd_free_worlds_def
        del: mulle_aba_storage_alloc_world.simps\<close>)
qed

text \<open>The whole attempt: the world \<open>w0\<close> of the pointer \<open>p'\<close> it was given is no longer the current one.\<close>

lemma run_lost_change:
  assumes "changeable E (set_q_world p' s) p' w0 (Suc (Suc g))" "a = calloc_at E (drained s)"
    and "pre (info_of a p') u (placed (set_q_world p' s) a (copy_of w0))"
    and "q_world (q s) = p" "p \<noteq> p'" "get_struct p \<noteq> 0" "worlds s (get_struct p) = Some w" "wf_world E w" "w_size w = w_size w0"
    and "w_n_threads w \<le>s 1 \<or> get_bit' p = 0"
  obtains i' u' t u2 z where "post (info_of a p') u (placed (set_q_world p' s) a (copy_of w0)) i' u' t"
    "run (mulle_aba_storage_copy_change_worldpointer E th (Suc (Suc g)) Swap_free p' cb u) s
      = Ok (\<lparr>new_world_p = 0, old_world_p = 0\<rparr>, u2) z"
    "given_up a (copy_of w) E s z" "stores z = undone u' (stores t)" "errno z th = refusal w"
proof -
  let ?sp = "set_q_world p' s" and ?c = "copy_of w0" and ?i = "info_of a p'"
  let ?b = "placed s a ?c"
  have dr: "calloc_at E (drained ?sp) = a" "worlds (drained ?sp) = worlds (drained s)"
  proof -
    show "worlds (drained ?sp) = worlds (drained s)" by (simp add: drained_def set_q_world_def)
    then have "live (drained ?sp) = live (drained s)" by (simp add: live_def fun_eq_iff)
    then show "calloc_at E (drained ?sp) = a" using assms(2) by (simp add: calloc_at_def)
  qed
  have bp: "placed ?sp a ?c = set_q_world p' ?b" by (simp add: placed_def drained_def set_q_world_def)
  have c: "ext_ok E" "worlds_cached s" "get_struct p' \<noteq> 0" "worlds s (get_struct p') = Some w0" "wf_world E w0"
    "length (q_free_worlds (q s)) < Suc (Suc g)"
    using assms(1) by (simp_all add: changeable_def worlds_cached_def)
  note n = changeable_new [OF assms(1), unfolded dr]
  note sz = wf_world_size [OF c(5)] and szw = wf_world_size [OF assms(8)]
  have wd: "worlds (drained s) (get_struct p) = Some w" by (rule drained_worlds [OF c(2) assms(7) szw(1)])
  then have pa: "get_struct p \<noteq> a" using n(3) dr(2) by (auto simp: live_def)
  have al: "run (mulle_aba_storage_alloc_world E th (Suc (Suc g)) (w_size w0)) s = Ok a (placed s a (new_world_of (w_size w0)))"
    using run_alloc_placed [OF ext_ok_parts(2) [OF c(1)] c(2) sz(1) c(6)] n(1) assms(2) by blast
  have cp: "run (mulle_aba_world_copy a (get_struct p')) (placed s a (new_world_of (w_size w0))) = Ok () ?b"
    using run_world_copy [of a "get_struct p'" "placed s a (new_world_of (w_size w0))" w0 "new_world_of (w_size w0)"]
      n dr(2) c(3) sz(2) by (simp add: placed_def copy_of_def)
  obtain i' u' t where r0: "run (cb World_modify ?i u) (placed ?sp a ?c) = Ok (0, i', u') t"
    and post: "post ?i u (placed ?sp a ?c) i' u' t"
    using succeeds [OF assms(3)] by blast
  let ?t = "set_q_world p t"
  have "set_q_world p (placed ?sp a ?c) = ?b" unfolding bp using assms(4) set_q_world_same [of ?b] by simp
  then have r: "run (cb World_modify ?i u) ?b = Ok (0, i', u') ?t"
    using blind_run [where f = "set_q_world p" and s = "placed ?sp a ?c", OF unaware [of ?i u]] r0 by (auto simp: repointed_def)
  note ch = changes [OF assms(3) post]
  obtain v' where i': "i' = ?i\<lparr>new_bit := 0\<rparr>" and rl: "releasable E u' (stores t)"
    and t: "q t = (q s)\<lparr>q_world := p', q_free_worlds := []\<rparr>" "entries t = entries s" "tss t = tss s" "trace t = trace s"
      "worlds t = (worlds (drained s))(a \<mapsto> v')" "w_size v' = w_size w0" "length (w_storage v') = unat (w_size w0)"
    using ch sz(2) dr(2) by (auto simp: fun_upd_upd)
  note ins = installs [OF assms(3) post]
  obtain v where v: "worlds ?t a = Some v" "wf_world E v" using ins by (auto simp: installable_def)
  have rp: "result_p i' = a" using i' by (simp add: result_p_def)
  have sr: "swap_ready E Swap_free ?t a p'"
    using ins rp swap_ready_worlds [of ?t t] by (simp add: installable_def bp)
  have sw: "run (mulle_aba_storage_swap_worlds E Swap_free a p') ?t = Ok (- 1) ?t"
    by (rule run_swap_fails [OF sr]) (use assms(5) in simp_all)
  have mk: "run (mulle_aba_worldpointer_make E a 0) ?t = Ok (a OR 0) ?t" by (rule run_make) (use n(2) in simp_all)
  have np: "a \<noteq> p'" using sr by (auto simp: swap_ready_def)
  have wb: "worlds ?b (get_struct p') = Some w0" "worlds ?b a = Some ?c" using n(4,5) dr by simp_all
  have sa: "run (mulle_aba_world_assert_sanity E th (get_struct p')) s = Ok () s"
    "run (mulle_aba_world_assert_sanity E th (get_struct p')) ?b = Ok () ?b"
    "run (mulle_aba_world_assert_sanity E th a) ?b = Ok () ?b"
    "run (mulle_aba_world_assert_sanity E th (get_struct a)) ?t = Ok () ?t"
    using run_assert_sanity [OF c(3,4,5)] run_assert_sanity [OF c(3) wb(1) c(5)]
      run_assert_sanity [OF n(1) wb(2) wf_copy_of [OF c(5)]] run_assert_sanity [OF n(1) v]
      get_struct_aligned [OF n(2)] by simp_all
  have tp: "worlds ?t (get_struct p) = Some w" "worlds ?t a = Some v'" "q_world (q ?t) = p" "w_size v' = w_size w"
    "length (w_storage v') = unat (w_size w)" "new_world i' = a" "releasable E u' (stores ?t)"
    using t(5-7) wd pa assms(9) i' rl by simp_all
  obtain u2 where u2: "run (copy_change_loop E th (Suc g) Swap_free World_reuse i' p cb u') ?t
      = Ok (\<lparr>new_world_p = 0, old_world_p = 0\<rparr>, u2)
        ((upd_free_worlds (x_add E a) (?t\<lparr>worlds := (worlds ?t)(a \<mapsto> clear_world (copy_of w)), stores := undone u' (stores ?t)\<rparr>))
          \<lparr>errno := (errno ?t)(th := refusal w)\<rparr>)" (is "_ = Ok _ ?z")
    by (rule run_second_round [OF tp(3) assms(6) n(1) pa tp(1) assms(8) tp(2,4-6) assms(10) tp(7)])
  have ld: "run (load_world (get_struct p')) s = Ok w0 s" using c(3,4) by (simp add: exec)
  have gw: "run mulle_aba_storage_get_worldpointer ?t = Ok p ?t" using run_get_worldpointer [of ?t] by simp
  have "run (mulle_aba_storage_copy_change_worldpointer E th (Suc (Suc g)) Swap_free p' cb u) s
      = Ok (\<lparr>new_world_p = 0, old_world_p = 0\<rparr>, u2) ?z"
    using c(3) n(1) ld al cp r mk np sa sw gw u2 i'
    by (simp add: mulle_aba_storage_copy_change_worldpointer_def run_bnd run_c_assert null_info_def Let_def info_of_def [symmetric]
        get_struct_nonzero info_of_lock copy_change_loop.simps(2) [where cmd = World_modify]
        del: mulle_aba_storage_alloc_world.simps copy_change_loop.simps)
  moreover have "given_up a (copy_of w) E s ?z"
    using t assms(4) by (simp add: given_up_def upd_free_worlds_def)
  ultimately show ?thesis using post by (intro that [of i' u' t u2 ?z]) (simp_all add: upd_free_worlds_def)
qed

end

section \<open>The callbacks of a free\<close>

lemma run_ts_release:
  assumes "releasable E c (stores s)"
  shows "run (mulle_aba_timestampstorage_free E (ac_ts_storage c)) s = Ok () (s\<lparr>stores := undone c (stores s)\<rparr>)"
proof (cases "ac_ts_storage c = 0")
  case False
  then obtain ts where "stores s (ac_ts_storage c) = Some ts" "\<forall>i < n_entries E. pointer_list (ts_entries ts ! i) = []"
    using assms by (auto simp: releasable_def)
  from run_timestampstorage_free [OF False this] False show ?thesis by (simp add: undone_def)
qed (simp add: undone_def run_timestampstorage_free_0)

lemma run_handle_discard:
  assumes "old_world i \<noteq> new_world i" "releasable E c (stores s)"
  shows "run (handle_callback_mode_for_add_context E th World_discard i c) s
    = Ok (0, c\<lparr>ac_ts_storage := 0\<rparr>) (s\<lparr>stores := undone c (stores s)\<rparr>)"
  using assms run_ts_release [OF assms(2)]
  by (simp add: handle_callback_mode_for_add_context_def assert_info_def run_bnd run_c_assert)

lemma undone_0 [simp]: "undone (c\<lparr>ac_ts_storage := 0\<rparr>) S = S" "releasable E (c\<lparr>ac_ts_storage := 0\<rparr>) S"
  by (simp_all add: undone_def releasable_def)

lemma run_pre_check_refuses:
  assumes "new_world i \<noteq> 0" "old_world i \<noteq> new_world i" "worlds s (new_world i) = Some v"
    and "w_n_threads v \<le>s 1 \<or> old_bit i = 0" "releasable E c (stores s)"
  obtains c' s' where "run (pre_check_world_for_timestamp_increment E th i c) s = Ok (refusal v, c') s'"
    "s'\<lparr>stores := undone c' (stores s')\<rparr> = s\<lparr>stores := undone c (stores s)\<rparr>" "releasable E c' (stores s')"
proof (cases "w_n_threads v \<le>s 1")
  case True
  then show ?thesis
    using assms run_handle_discard [OF assms(2,5), of th]
    by (intro that [of "c\<lparr>ac_ts_storage := 0\<rparr>" "s\<lparr>stores := undone c (stores s)\<rparr>"])
      (simp_all add: pre_check_world_for_timestamp_increment_def assert_info_def refusal_def exec)
next
  case False
  then show ?thesis
    using assms
    by (intro that [of c s]) (simp_all add: pre_check_world_for_timestamp_increment_def assert_info_def refusal_def exec)
qed

text \<open>All three begin with the same check.\<close>

lemma callbacks_refuse:
  assumes "new_world i \<noteq> 0" "old_world i \<noteq> new_world i" "worlds s (new_world i) = Some v"
    and "w_n_threads v \<le>s 1 \<or> old_bit i = 0" "releasable E c (stores s)"
  shows "\<exists>u1 u2 s1. run (increment_timestamp E th fuel World_reuse i c) s = Ok (refusal v, i, u1) s1
      \<and> run (increment_timestamp E th fuel World_discard i u1) s1 = Ok (0, i, u2) (s\<lparr>stores := undone c (stores s)\<rparr>)"
    "\<exists>u1 u2 s1. run (add_storage_and_increment_timestamp E th fuel World_reuse i c) s = Ok (refusal v, i, u1) s1
      \<and> run (add_storage_and_increment_timestamp E th fuel World_discard i u1) s1 = Ok (0, i, u2) (s\<lparr>stores := undone c (stores s)\<rparr>)"
    "\<exists>u1 u2 s1. run (reorganize_storage_and_increment_timestamp E th fuel World_reuse i c) s = Ok (refusal v, i, u1) s1
      \<and> run (reorganize_storage_and_increment_timestamp E th fuel World_discard i u1) s1 = Ok (0, i, u2) (s\<lparr>stores := undone c (stores s)\<rparr>)"
proof -
  obtain c' s' where p: "run (pre_check_world_for_timestamp_increment E th i c) s = Ok (refusal v, c') s'"
    "s'\<lparr>stores := undone c' (stores s')\<rparr> = s\<lparr>stores := undone c (stores s)\<rparr>" "releasable E c' (stores s')"
    by (rule run_pre_check_refuses [OF assms])
  note hd = run_handle_discard [OF assms(2) p(3), of th] and rl = run_ts_release [OF p(3)]
  show "\<exists>u1 u2 s1. run (increment_timestamp E th fuel World_reuse i c) s = Ok (refusal v, i, u1) s1
      \<and> run (increment_timestamp E th fuel World_discard i u1) s1 = Ok (0, i, u2) (s\<lparr>stores := undone c (stores s)\<rparr>)"
    using p hd assms(2) by (simp add: increment_timestamp_def assert_info_def run_bnd run_c_assert)
  show "\<exists>u1 u2 s1. run (reorganize_storage_and_increment_timestamp E th fuel World_reuse i c) s = Ok (refusal v, i, u1) s1
      \<and> run (reorganize_storage_and_increment_timestamp E th fuel World_discard i u1) s1 = Ok (0, i, u2) (s\<lparr>stores := undone c (stores s)\<rparr>)"
    using p hd assms(2) by (simp add: reorganize_storage_and_increment_timestamp_def assert_info_def run_bnd run_c_assert)
  show "\<exists>u1 u2 s1. run (add_storage_and_increment_timestamp E th fuel World_reuse i c) s = Ok (refusal v, i, u1) s1
      \<and> run (add_storage_and_increment_timestamp E th fuel World_discard i u1) s1 = Ok (0, i, u2) (s\<lparr>stores := undone c (stores s)\<rparr>)"
    using p rl assms(2)
    by (simp add: add_storage_and_increment_timestamp_def assert_info_def run_bnd run_c_assert run_timestampstorage_free_0)
qed

lemma releasable_none: "ac_ts_storage c = 0 \<Longrightarrow> releasable E c S"
  by (simp add: releasable_def)

lemma advanced_changes:
  assumes "worlds s a = Some v" "w_size u = w_size v" "length (w_storage u) = length (w_storage v)" "worlds s' = worlds s"
  shows "\<exists>v v'. worlds s a = Some v \<and> worlds (advanced E a m u s') = (worlds s)(a \<mapsto> v')
    \<and> w_size v' = w_size v \<and> length (w_storage v') = length (w_storage v)"
  using assms by (intro exI [of _ v] exI [of _ "bumped u"]) (simp add: advanced_def)

lemma advanced_sel:
  "q (advanced E a m u s) = q s" "entries (advanced E a m u s) = entries s" "tss (advanced E a m u s) = tss s"
  "trace (advanced E a m u s) = trace s"
  by (simp_all add: advanced_def)

interpretation lost_increment: retreating_callback E "increment_timestamp E th fuel"
    "\<lambda>i c s. inc_pre E fuel i c s \<and> ac_ts_storage c = 0" "inc_post E" for E th fuel
proof (unfold_locales, goal_cases)
  case (1 i c s)
  then show ?case using increment_change.succeeds by blast
next
  case (2 i c s i' c' t)
  then show ?case using increment_change.installs by blast
next
  case (5 i c s i' c' t)
  then obtain v m where "worlds s (new_world i) = Some v" "c' = c" "i' = i\<lparr>new_bit := 0\<rparr>" "t = advanced E (new_world i) m v s"
    by (auto simp: inc_post_def)
  with 5 advanced_changes [of s "new_world i" v v s E m] show ?case by (simp add: advanced_sel releasable_none)
qed (simp_all add: blind_callbacks callbacks_refuse)

interpretation lost_reorganize: retreating_callback E "reorganize_storage_and_increment_timestamp E th fuel"
    "\<lambda>i c s. reorg_pre E fuel i c s \<and> ac_ts_storage c = 0" "reorg_post E" for E th fuel
proof (unfold_locales, goal_cases)
  case (1 i c s)
  then show ?case using reorganize_change.succeeds by blast
next
  case (2 i c s i' c' t)
  then show ?case using reorganize_change.installs by blast
next
  case (5 i c s i' c' t)
  then obtain v m where v: "worlds s (new_world i) = Some v" "turns s v < unat (w_n v)" "c' = c" "i' = i\<lparr>new_bit := 0\<rparr>"
    "t = advanced E (new_world i) m ((rotate_world E ^^ turns s v) v) s" "at_end E s v"
    by (auto simp: reorg_post_def reorg_pre_def free_ready_def sees_def)
  have "unat (w_n v) \<le> length (w_storage v)" using at_endD(7) [OF v(6)] unfolding wf_shape_def by linarith
  then have "length (w_storage ((rotate_world E ^^ turns s v) v)) = length (w_storage v)"
    using funpow_rotate_world_nth [of v 0 "turns s v" E] v(2) by simp
  with 5 v advanced_changes [of s "new_world i" v "(rotate_world E ^^ turns s v) v" s E m]
  show ?case by (simp add: advanced_sel releasable_none)
qed (simp_all add: blind_callbacks callbacks_refuse)

interpretation lost_add: retreating_callback E "add_storage_and_increment_timestamp E th fuel" "add_storage_pre E fuel" "add_storage_post E"
  for E th fuel
proof (unfold_locales, goal_cases)
  case (2 i c s i' c' t)
  let ?b = "calloc_at E s"
  obtain v m where v: "worlds s (new_world i) = Some v" "c' = c\<lparr>ac_ts_storage := ?b\<rparr>" "i' = i\<lparr>new_bit := 0\<rparr>"
    "t = advanced E (new_world i) m (with_storage ?b v) (storage_added E ?b s)"
    using 2(2) by (auto simp: add_storage_post_def)
  have "\<exists>ts. stores t ?b = Some ts \<and> ts_entries ts = ts_entries (fresh_ts E)"
    using v(4) by (auto simp: advanced_def mark_used_def split: option.splits)
  then have "releasable E c' (stores t)" using v(2) by (auto simp: releasable_def fresh_ts_def)
  with v advanced_changes [of s "new_world i" v "with_storage ?b v" "storage_added E ?b s" E m] show ?case by (simp add: advanced_sel)
qed (simp_all add: blind_callbacks callbacks_refuse)

end
