(* ===== verification/Aba_Slots.thy ===== *)
theory Aba_Slots
  imports Aba_Api
begin

text \<open>
  The entries of a world seen by timestamp: the entry of a timestamp, its usage bit, and how
  they change when an entry is updated, a usage bit set, storages rotated, added or copied. \<open>slots_ok\<close> ties
  every entry to the set \<open>H t\<close> of threads that hold a reference to timestamp \<open>t\<close>.
\<close>

section \<open>Entries by timestamp\<close>

definition stor :: "ext \<Rightarrow> world \<Rightarrow> nat \<Rightarrow> uptr" where
  "stor E w t = w_storage w ! ((t - unat (w_offset w)) div n_entries E)"

definition entry_at :: "ext \<Rightarrow> (uptr \<Rightarrow> timestampstorage option) \<Rightarrow> world \<Rightarrow> nat \<Rightarrow> timestampentry" where
  "entry_at E S w t = ts_entries (the (S (stor E w t))) ! (t mod n_entries E)"

definition bit_at :: "ext \<Rightarrow> (uptr \<Rightarrow> timestampstorage option) \<Rightarrow> world \<Rightarrow> nat \<Rightarrow> bool" where
  "bit_at E S w t \<longleftrightarrow> bit (usage_bits (the (S (stor E w t)))) (t mod n_entries E)"

definition in_window :: "ext \<Rightarrow> world \<Rightarrow> nat \<Rightarrow> bool" where
  "in_window E w t \<longleftrightarrow> unat (w_offset w) \<le> t \<and> t < window_hi E w"

text \<open>The entry of a timestamp held by the threads \<open>h\<close>: the count is their number minus 1, nothing is
  pending without holders, and the usage bit tells whether there are holders.\<close>

definition entry_ok :: "tid set \<Rightarrow> timestampentry \<Rightarrow> bool \<Rightarrow> bool" where
  "entry_ok h x b \<longleftrightarrow> retain_count_1 x = word_of_nat (card h) - 1 \<and> (h = {} \<longrightarrow> pointer_list x = []) \<and> (b \<longleftrightarrow> h \<noteq> {})"

definition store_shape :: "ext \<Rightarrow> timestampstorage option \<Rightarrow> bool" where
  "store_shape E x \<longleftrightarrow> (\<exists>ts. x = Some ts \<and> length (ts_entries ts) = n_entries E
     \<and> (\<forall>j. n_entries E \<le> j \<longrightarrow> \<not> bit (usage_bits ts) j))"

definition slots_ok :: "ext \<Rightarrow> (uptr \<Rightarrow> timestampstorage option) \<Rightarrow> world \<Rightarrow> (nat \<Rightarrow> tid set) \<Rightarrow> bool" where
  "slots_ok E S w H \<longleftrightarrow> (\<forall>i < unat (w_n w). store_shape E (S (w_storage w ! i)))
     \<and> (\<forall>t. in_window E w t \<longrightarrow> entry_ok (H t) (entry_at E S w t) (bit_at E S w t))"

definition pend :: "ext \<Rightarrow> (uptr \<Rightarrow> timestampstorage option) \<Rightarrow> world \<Rightarrow> (nat \<Rightarrow> tid set) \<Rightarrow> (uptr \<times> tid set) multiset" where
  "pend E S w H = (\<Sum>t \<in> {unat (w_offset w)..<window_hi E w}.
     image_mset (\<lambda>x. (x, H t)) (mset (pointer_list (entry_at E S w t))))"

definition storages :: "world \<Rightarrow> uptr list" where
  "storages w = take (unat (w_n w)) (w_storage w)"

lemma window_index:
  assumes "in_window E w t"
  shows "(t - unat (w_offset w)) div n_entries E < unat (w_n w)"
proof -
  have "t - unat (w_offset w) < unat (w_n w) * n_entries E"
    using assms by (auto simp: in_window_def window_hi_def)
  then show ?thesis by (simp add: div_less_iff_less_mult)
qed

lemma window_mod:
  assumes "wf_shape E w" "in_window E w t"
  shows "(t - unat (w_offset w)) mod n_entries E = t mod n_entries E"
proof -
  have "unat (w_offset w) mod n_entries E = 0" "unat (w_offset w) \<le> t"
    using assms by (simp_all add: wf_shape_def in_window_def)
  then show ?thesis by (metis le_add_diff_inverse mod_add_left_eq add_0)
qed

lemma stor_in: "wf_shape E w \<Longrightarrow> in_window E w t \<Longrightarrow> stor E w t \<in> set (storages w)"
  using window_index [of E w t] unfolding stor_def storages_def wf_shape_def
  by (auto simp: in_set_conv_nth intro!: exI [of _ "(t - unat (w_offset w)) div n_entries E"])

lemma stor_nonzero: "wf_shape E w \<Longrightarrow> in_window E w t \<Longrightarrow> stor E w t \<noteq> 0"
  using wf_shape_storage_nonzero [OF _ window_index] unfolding stor_def by blast

lemma stor_inj:
  assumes "wf_shape E w" "distinct (storages w)" "in_window E w t" "in_window E w t'"
    and "stor E w t = stor E w t'" "t mod n_entries E = t' mod n_entries E"
  shows "t = t'"
proof -
  let ?d = "\<lambda>t. t - unat (w_offset w)"
  have len: "unat (w_n w) \<le> length (w_storage w)" using assms(1) unfolding wf_shape_def by linarith
  have "?d t div n_entries E = ?d t' div n_entries E"
    using nth_eq_iff_index_eq [OF assms(2), of "?d t div n_entries E" "?d t' div n_entries E"]
      window_index [OF assms(3)] window_index [OF assms(4)] len assms(5)
    by (simp add: storages_def stor_def)
  moreover have "?d t mod n_entries E = ?d t' mod n_entries E"
    using window_mod [OF assms(1,3)] window_mod [OF assms(1,4)] assms(6) by simp
  ultimately have "?d t = ?d t'" by (metis div_mult_mod_eq)
  with assms(3,4) show ?thesis by (auto simp: in_window_def)
qed

text \<open>The lookup of the code agrees.\<close>

lemma in_window_covers:
  assumes "wf_shape E w" "t \<noteq> 0" "unat t = n"
  shows "covers E w t \<longleftrightarrow> in_window E w n"
  using assms by (simp add: covers_iff in_window_def window_hi_def word_le_nat_alt)

lemma slot_stor:
  assumes "wf_shape E w" "covers E w t"
  shows "slot E w t = Some (stor E w (unat t), unat t mod n_entries E)"
  using assms by (simp add: slot_def stor_def slot_index_def)

lemma slots_ok_shape:
  assumes "slots_ok E S w H" "wf_shape E w" "in_window E w t"
  shows "store_shape E (S (stor E w t))"
  using assms(1) window_index [OF assms(3)] by (simp add: slots_ok_def stor_def)

lemma slots_ok_entry: "slots_ok E S w H \<Longrightarrow> in_window E w t \<Longrightarrow> entry_ok (H t) (entry_at E S w t) (bit_at E S w t)"
  by (simp add: slots_ok_def)

section \<open>Updates of one entry\<close>

definition upd_at :: "ext \<Rightarrow> world \<Rightarrow> nat \<Rightarrow> (timestampentry \<Rightarrow> timestampentry)
    \<Rightarrow> (uptr \<Rightarrow> timestampstorage option) \<Rightarrow> uptr \<Rightarrow> timestampstorage option" where
  "upd_at E w t f S = S(stor E w t := map_option (ts_upd (t mod n_entries E) f) (S (stor E w t)))"

definition use_at :: "ext \<Rightarrow> world \<Rightarrow> nat \<Rightarrow> uptr
    \<Rightarrow> (uptr \<Rightarrow> timestampstorage option) \<Rightarrow> uptr \<Rightarrow> timestampstorage option" where
  "use_at E w t b S = S(stor E w t := map_option (\<lambda>ts. ts\<lparr>usage_bits :=
     set_mask (usage_bits ts) (word_of_nat (t mod n_entries E)) b\<rparr>) (S (stor E w t)))"

lemma dom_upd_at [simp]: "dom (upd_at E w t f S) = dom S" "dom (use_at E w t b S) = dom S"
  by (auto simp: upd_at_def use_at_def dom_def)

lemma upd_at_None: "upd_at E w t f S a = None \<longleftrightarrow> S a = None" "use_at E w t b S a = None \<longleftrightarrow> S a = None"
  by (auto simp: upd_at_def use_at_def)

lemma entry_at_upd:
  assumes "wf_shape E w" "distinct (storages w)" "in_window E w t0" "in_window E w t" "store_shape E (S (stor E w t0))"
  shows "entry_at E (upd_at E w t0 f S) w t = (if t = t0 then f (entry_at E S w t0) else entry_at E S w t)"
    "bit_at E (upd_at E w t0 f S) w t = bit_at E S w t"
proof -
  obtain ts where ts: "S (stor E w t0) = Some ts" "length (ts_entries ts) = n_entries E"
    using assms(5) by (auto simp: store_shape_def)
  have j: "t0 mod n_entries E < length (ts_entries ts)" using ts(2) by simp
  show "entry_at E (upd_at E w t0 f S) w t = (if t = t0 then f (entry_at E S w t0) else entry_at E S w t)"
    using ts(1) j stor_inj [OF assms(1-4)] by (auto simp: entry_at_def upd_at_def)
  show "bit_at E (upd_at E w t0 f S) w t = bit_at E S w t"
    using ts(1) by (auto simp: bit_at_def upd_at_def)
qed

lemma mod_word: "unat (word_of_nat (t mod n_entries E) :: uint) = t mod n_entries E" "t mod n_entries E < 64"
proof -
  show "t mod n_entries E < 64"
    using mod_less_divisor [OF n_entries_pos(1)] n_entries_le by (rule less_le_trans)
  then show "unat (word_of_nat (t mod n_entries E) :: uint) = t mod n_entries E"
    by (intro unat_of_nat_32) simp
qed

lemma entry_at_use:
  assumes "wf_shape E w" "distinct (storages w)" "in_window E w t0" "in_window E w t" "store_shape E (S (stor E w t0))"
  shows "entry_at E (use_at E w t0 b S) w t = entry_at E S w t"
    "bit_at E (use_at E w t0 b S) w t = (if t = t0 then b \<noteq> 0 else bit_at E S w t)"
proof -
  obtain ts where ts: "S (stor E w t0) = Some ts" using assms(5) by (auto simp: store_shape_def)
  show "entry_at E (use_at E w t0 b S) w t = entry_at E S w t"
    using ts(1) by (auto simp: entry_at_def use_at_def)
  show "bit_at E (use_at E w t0 b S) w t = (if t = t0 then b \<noteq> 0 else bit_at E S w t)"
    using ts(1) stor_inj [OF assms(1-4)] mod_word [of t0 E] mod_word [of t E]
    by (auto simp: bit_at_def use_at_def bit_set_mask)
qed

lemma store_shape_upd:
  "store_shape E (S a) \<Longrightarrow> store_shape E (upd_at E w t f S a)"
  "store_shape E (S a) \<Longrightarrow> store_shape E (use_at E w t b S a)"
  using mod_word [of t E] n_entries_pos(1) [of E] mod_less_divisor [OF n_entries_pos(1), of t E]
  by (auto simp: store_shape_def upd_at_def use_at_def bit_set_mask simp del: mod_less_divisor)

text \<open>One entry changes together with its holders.\<close>

lemma slots_ok_upd_use:
  assumes "slots_ok E S w H" "wf_shape E w" "distinct (storages w)" "in_window E w t0"
    and "entry_ok h (f (entry_at E S w t0)) (b \<noteq> 0)"
  shows "slots_ok E (use_at E w t0 b (upd_at E w t0 f S)) w (H(t0 := h))"
proof -
  note sh = slots_ok_shape [OF assms(1,2,4)]
  note sh' = store_shape_upd(1) [where S = S, OF sh, of w t0 f]
  have "entry_at E (use_at E w t0 b (upd_at E w t0 f S)) w t = (if t = t0 then f (entry_at E S w t0) else entry_at E S w t)"
    "bit_at E (use_at E w t0 b (upd_at E w t0 f S)) w t = (if t = t0 then b \<noteq> 0 else bit_at E S w t)"
    if "in_window E w t" for t
    using entry_at_use [where S = "upd_at E w t0 f S", OF assms(2-4) that sh'] entry_at_upd [where S = S, OF assms(2-4) that sh] by simp_all
  with assms(1,5) show ?thesis by (auto simp: slots_ok_def store_shape_upd)
qed

lemma slots_ok_upd:
  assumes "slots_ok E S w H" "wf_shape E w" "distinct (storages w)" "in_window E w t0"
    and "entry_ok h (f (entry_at E S w t0)) (bit_at E S w t0)"
  shows "slots_ok E (upd_at E w t0 f S) w (H(t0 := h))"
proof -
  note sh = slots_ok_shape [OF assms(1,2,4)]
  have "entry_at E (upd_at E w t0 f S) w t = (if t = t0 then f (entry_at E S w t0) else entry_at E S w t)"
    "bit_at E (upd_at E w t0 f S) w t = bit_at E S w t" if "in_window E w t" for t
    using entry_at_upd [where S = S, OF assms(2-4) that sh] by simp_all
  with assms(1,5) show ?thesis by (auto simp: slots_ok_def store_shape_upd)
qed

lemma pend_split:
  assumes "in_window E w t0"
  shows "pend E S w H = image_mset (\<lambda>x. (x, H t0)) (mset (pointer_list (entry_at E S w t0)))
    + (\<Sum>t \<in> {unat (w_offset w)..<window_hi E w} - {t0}. image_mset (\<lambda>x. (x, H t)) (mset (pointer_list (entry_at E S w t))))"
  unfolding pend_def using assms by (subst sum.remove [of _ t0]) (auto simp: in_window_def)

lemma pend_upd:
  assumes "wf_shape E w" "distinct (storages w)" "in_window E w t0" "store_shape E (S (stor E w t0))"
    and "\<And>t. t \<noteq> t0 \<Longrightarrow> in_window E w t \<Longrightarrow> H' t = H t"
  shows "pend E (upd_at E w t0 f S) w H' + image_mset (\<lambda>x. (x, H t0)) (mset (pointer_list (entry_at E S w t0)))
    = pend E S w H + image_mset (\<lambda>x. (x, H' t0)) (mset (pointer_list (f (entry_at E S w t0))))"
proof -
  have "(\<Sum>t \<in> {unat (w_offset w)..<window_hi E w} - {t0}. image_mset (\<lambda>x. (x, H' t)) (mset (pointer_list (entry_at E (upd_at E w t0 f S) w t))))
    = (\<Sum>t \<in> {unat (w_offset w)..<window_hi E w} - {t0}. image_mset (\<lambda>x. (x, H t)) (mset (pointer_list (entry_at E S w t))))"
    using entry_at_upd(1) [where S = S, OF assms(1-3) _ assms(4)] assms(5) by (intro sum.cong) (auto simp: in_window_def)
  then show ?thesis
    unfolding pend_split [OF assms(3)] using entry_at_upd(1) [where S = S, OF assms(1-3,3,4)] by simp
qed

lemma pend_use:
  assumes "wf_shape E w" "distinct (storages w)" "in_window E w t0" "store_shape E (S (stor E w t0))"
  shows "pend E (use_at E w t0 b S) w H = pend E S w H"
  unfolding pend_def using entry_at_use(1) [where S = S, OF assms(1-3) _ assms(4)] by (intro sum.cong) (auto simp: in_window_def)

lemma pend_cong:
  assumes "\<And>t. in_window E w t \<Longrightarrow> pointer_list (entry_at E S w t) \<noteq> [] \<Longrightarrow> H' t = H t"
  shows "pend E S w H' = pend E S w H"
  unfolding pend_def
proof (intro sum.cong refl)
  fix t assume "t \<in> {unat (w_offset w)..<window_hi E w}"
  then have "in_window E w t" by (simp add: in_window_def)
  with assms show "image_mset (\<lambda>x. (x, H' t)) (mset (pointer_list (entry_at E S w t)))
      = image_mset (\<lambda>x. (x, H t)) (mset (pointer_list (entry_at E S w t)))"
    by (cases "pointer_list (entry_at E S w t) = []") simp_all
qed

section \<open>Worlds with the same slots\<close>

lemma same_slots:
  assumes "w_offset w' = w_offset w" "w_n w' = w_n w" "storages w' = storages w"
    and "unat (w_n w) \<le> length (w_storage w)" "unat (w_n w) \<le> length (w_storage w')"
  shows "slots_ok E S w' H \<longleftrightarrow> slots_ok E S w H" "pend E S w' H = pend E S w H"
    "in_window E w' t \<longleftrightarrow> in_window E w t" "in_window E w t \<Longrightarrow> stor E w' t = stor E w t"
proof -
  have nth: "w_storage w' ! i = w_storage w ! i" if "i < unat (w_n w)" for i
  proof -
    have "storages w' ! i = storages w ! i" using assms(3) by simp
    with that assms(2,4,5) show ?thesis by (simp add: storages_def)
  qed
  have hi: "window_hi E w' = window_hi E w" using assms(1,2) by (simp add: window_hi_def)
  show win: "in_window E w' t \<longleftrightarrow> in_window E w t" for t using assms(1) hi by (simp add: in_window_def)
  show st: "in_window E w t \<Longrightarrow> stor E w' t = stor E w t" for t
    using nth [OF window_index [of E w t]] assms(1) by (simp add: stor_def)
  have en: "in_window E w t \<Longrightarrow> entry_at E S w' t = entry_at E S w t"
    "in_window E w t \<Longrightarrow> bit_at E S w' t = bit_at E S w t" for t
    using st by (simp_all add: entry_at_def bit_at_def)
  show "slots_ok E S w' H \<longleftrightarrow> slots_ok E S w H"
    using en win nth assms(2) by (auto simp: slots_ok_def)
  show "pend E S w' H = pend E S w H"
    unfolding pend_def hi assms(1) using en by (intro sum.cong) (auto simp: in_window_def)
qed

lemma storages_copy_of: "wf_shape E w \<Longrightarrow> storages (copy_of w) = storages w"
  by (simp add: storages_def wf_shape_def min_def)

lemma storages_grown: "wf_shape E w \<Longrightarrow> storages (grown sz w) = storages w"
  by (simp add: storages_def wf_shape_def min_def)

section \<open>Adding a storage\<close>

lemma with_storage_slots:
  assumes "wf_shape E w" "w_n w < w_size w" "b \<notin> set (storages w)" "slots_ok E S w H"
    and "\<And>t. window_hi E w \<le> t \<Longrightarrow> H t = {}"
  shows "slots_ok E (S(b \<mapsto> fresh_ts E)) (with_storage b w) H"
    "pend E (S(b \<mapsto> fresh_ts E)) (with_storage b w) H = pend E S w H"
    "storages (with_storage b w) = storages w @ [b]"
    "window_hi E (with_storage b w) = window_hi E w + n_entries E"
proof -
  let ?n = "unat (w_n w)" and ?w = "with_storage b w" and ?S = "S(b \<mapsto> fresh_ts E)"
  have n: "unat (w_n w + 1) = Suc ?n" using unat_n_plus_1 [OF assms(2)] by simp
  have "?n < unat (w_size w)" using assms(2) by (simp add: word_less_nat_alt)
  then have len: "?n < length (w_storage w)" using assms(1) by (simp add: wf_shape_def)
  show st: "storages ?w = storages w @ [b]"
    using n len by (simp add: storages_def take_Suc_conv_app_nth)
  show hi: "window_hi E ?w = window_hi E w + n_entries E" using n by (simp add: window_hi_def)
  have old: "in_window E ?w t" "stor E ?w t = stor E w t" "stor E w t \<noteq> b" if t: "in_window E w t" for t
  proof -
    show "in_window E ?w t" using t hi by (simp add: in_window_def)
    have "(t - unat (w_offset w)) div n_entries E < ?n" by (rule window_index [OF t])
    then show "stor E ?w t = stor E w t" by (simp add: stor_def)
    show "stor E w t \<noteq> b" using stor_in [OF assms(1) t] assms(3) by blast
  qed
  then have en: "entry_at E ?S ?w t = entry_at E S w t" "bit_at E ?S ?w t = bit_at E S w t"
    if "in_window E w t" for t using that by (simp_all add: entry_at_def bit_at_def)
  have new: "entry_at E ?S ?w t = \<lparr>retain_count_1 = - 1, pointer_list = []\<rparr>" "\<not> bit_at E ?S ?w t"
    if t: "in_window E ?w t" "\<not> in_window E w t" for t
  proof -
    have b: "window_hi E w \<le> t" "t < window_hi E w + n_entries E" using t hi by (auto simp: in_window_def)
    then have lo: "t - unat (w_offset w) = (t - window_hi E w) + ?n * n_entries E" by (simp add: window_hi_def)
    have "(t - window_hi E w) div n_entries E = 0" using b by (intro div_less) linarith
    then have "(t - unat (w_offset w)) div n_entries E = ?n"
      unfolding lo div_mult_self1 [OF n_entries_pos(2)] by simp
    then have "stor E ?w t = b" using len by (simp add: stor_def)
    then show "entry_at E ?S ?w t = \<lparr>retain_count_1 = - 1, pointer_list = []\<rparr>" "\<not> bit_at E ?S ?w t"
      by (simp_all add: entry_at_def bit_at_def)
  qed
  have H: "H t = {}" if "in_window E ?w t" "\<not> in_window E w t" for t
    using that assms(5) by (auto simp: in_window_def)
  have "entry_ok (H t) (entry_at E ?S ?w t) (bit_at E ?S ?w t)" if "in_window E ?w t" for t
  proof (cases "in_window E w t")
    case True
    then show ?thesis using en slots_ok_entry [OF assms(4) True] by simp
  next
    case False
    then show ?thesis using new [OF that False] H [OF that False] by (simp add: entry_ok_def)
  qed
  moreover have "store_shape E (?S (w_storage ?w ! i))" if "i < unat (w_n ?w)" for i
  proof (cases "i = ?n")
    case True
    then show ?thesis using len by (simp add: store_shape_def)
  next
    case False
    then have i: "i < ?n" using that n by simp
    then have "w_storage w ! i \<noteq> b" using assms(3) len by (auto simp: storages_def in_set_conv_nth)
    then show ?thesis using assms(4) i by (simp add: slots_ok_def)
  qed
  ultimately show "slots_ok E ?S ?w H" by (simp add: slots_ok_def)
  have "{unat (w_offset ?w)..<window_hi E ?w} = {unat (w_offset w)..<window_hi E w} \<union> {window_hi E w..<window_hi E w + n_entries E}"
    unfolding hi by (auto simp: window_hi_def)
  then have "pend E ?S ?w H = (\<Sum>t \<in> {unat (w_offset w)..<window_hi E w}. image_mset (\<lambda>x. (x, H t)) (mset (pointer_list (entry_at E ?S ?w t))))
    + (\<Sum>t \<in> {window_hi E w..<window_hi E w + n_entries E}. image_mset (\<lambda>x. (x, H t)) (mset (pointer_list (entry_at E ?S ?w t))))"
    unfolding pend_def by (simp add: sum.union_disjoint)
  moreover have "(\<Sum>t \<in> {window_hi E w..<window_hi E w + n_entries E}. image_mset (\<lambda>x. (x, H t)) (mset (pointer_list (entry_at E ?S ?w t)))) = {#}"
    using new hi by (intro sum.neutral) (auto simp: in_window_def window_hi_def)
  moreover have "(\<Sum>t \<in> {unat (w_offset w)..<window_hi E w}. image_mset (\<lambda>x. (x, H t)) (mset (pointer_list (entry_at E ?S ?w t)))) = pend E S w H"
    unfolding pend_def using en by (intro sum.cong) (auto simp: in_window_def)
  ultimately show "pend E ?S ?w H = pend E S w H" by simp
qed

section \<open>Rotating\<close>

lemma rotated_stor:
  assumes inv: "window_invar E w" "window_hi E w + r * n_entries E < 2 ^ 63"
    and t: "unat (w_offset w) + r * n_entries E \<le> t" "t < window_hi E w + r * n_entries E" "r \<le> unat (w_n w)"
  shows "stor E ((rotate_world E ^^ r) w) t = stor E w (if t < window_hi E w then t else t - unat (w_n w) * n_entries E)"
proof -
  let ?n = "unat (w_n w)" and ?u = "(rotate_world E ^^ r) w" and ?lo = "unat (w_offset w)" and ?ne = "n_entries E"
  have sh: "wf_shape E w" "0 < ?n" using inv(1) unfolding window_invar_def by blast+
  have len: "?n \<le> length (w_storage w)" using sh(1) unfolding wf_shape_def by linarith
  have le: "window_hi E w + r * n_entries E \<le> 2 ^ 63 - 1" using inv(2) by simp
  have off: "unat (w_offset ?u) = ?lo + r * ?ne" using win.rotates [OF inv(1) le] by blast
  let ?i = "(t - (?lo + r * ?ne)) div ?ne"
  have d: "t - ?lo = (t - (?lo + r * ?ne)) + r * ?ne" using t(1) by linarith
  have i: "(t - ?lo) div ?ne = ?i + r" unfolding d by simp
  have "t - (?lo + r * ?ne) < ?n * ?ne" using t(1,2) by (simp add: window_hi_def)
  then have "?i < ?n" by (simp add: div_less_iff_less_mult)
  then have st: "stor E ?u t = w_storage w ! ((?i + r) mod ?n)"
    using funpow_rotate_world_nth [OF len, of ?i r E] by (simp add: stor_def off)
  show ?thesis
  proof (cases "t < window_hi E w")
    case True
    then have "t - ?lo < ?n * ?ne" using t(1) by (simp add: window_hi_def)
    then have "(t - ?lo) div ?ne < ?n" by (simp add: div_less_iff_less_mult)
    then show ?thesis using st i True by (simp add: stor_def)
  next
    case False
    then have e: "t - ?lo = (t - ?n * ?ne - ?lo) + ?n * ?ne" by (simp add: window_hi_def)
    have "(t - ?lo) div ?ne = (t - ?n * ?ne - ?lo) div ?ne + ?n" by (subst e) simp
    then have k: "?i + r = (t - ?n * ?ne - ?lo) div ?ne + ?n" using i by simp
    moreover have "?i + r < ?n + r" using \<open>?i < ?n\<close> by simp
    ultimately have "(t - ?n * ?ne - ?lo) div ?ne < ?n" using t(3) by linarith
    then have "(?i + r) mod ?n = (t - ?n * ?ne - ?lo) div ?ne" unfolding k by simp
    then show ?thesis using st False by (simp add: stor_def)
  qed
qed

lemma mset_rotate1: "mset (rotate1 xs) = mset xs"
  by (cases xs) simp_all

lemma storages_rotate_1:
  "unat (w_n w) \<le> length (w_storage w) \<Longrightarrow> mset (storages (rotate_world E w)) = mset (storages w)"
  by (simp add: storages_def rotate_world_def mset_rotate1)

lemma storages_rotate:
  assumes "unat (w_n w) \<le> length (w_storage w)"
  shows "mset (storages ((rotate_world E ^^ r) w)) = mset (storages w)"
proof (induction r)
  case (Suc r)
  have "length (w_storage ((rotate_world E ^^ r) w)) = length (w_storage w)" by (induction r) simp_all
  with assms Suc storages_rotate_1 [of "(rotate_world E ^^ r) w" E] show ?case by simp
qed simp

lemma rotate_slots:
  assumes inv: "window_invar E w" "window_hi E w + r * n_entries E < 2 ^ 63" "r \<le> unat (w_n w)"
    and ok: "slots_ok E S w H"
    and H: "\<And>t. unat (w_offset w) \<le> t \<Longrightarrow> t < unat (w_offset w) + r * n_entries E \<Longrightarrow> H t = {}"
      "\<And>t. window_hi E w \<le> t \<Longrightarrow> H t = {}"
  shows "slots_ok E S ((rotate_world E ^^ r) w) H" "pend E S ((rotate_world E ^^ r) w) H = pend E S w H"
proof -
  let ?n = "unat (w_n w)" and ?u = "(rotate_world E ^^ r) w" and ?lo = "unat (w_offset w)" and ?ne = "n_entries E"
  let ?hi = "window_hi E w" and ?b = "\<lambda>t. if t < window_hi E w then t else t - unat (w_n w) * n_entries E"
  have sh: "wf_shape E w" "0 < ?n" using inv(1) unfolding window_invar_def by blast+
  have len: "?n \<le> length (w_storage w)" using sh(1) unfolding wf_shape_def by linarith
  have le: "?hi + r * ?ne \<le> 2 ^ 63 - 1" using inv(2) by simp
  have off: "unat (w_offset ?u) = ?lo + r * ?ne" "window_hi E ?u = ?hi + r * ?ne"
    using win.rotates [OF inv(1) le] by blast+
  have rn: "r * ?ne \<le> ?n * ?ne" using inv(3) by simp
  have bt: "in_window E w (?b t)" "?b t mod ?ne = t mod ?ne" "entry_at E S ?u t = entry_at E S w (?b t)"
    "bit_at E S ?u t = bit_at E S w (?b t)" "H t = H (?b t)" if t: "in_window E ?u t" for t
  proof -
    have t': "?lo + r * ?ne \<le> t" "t < ?hi + r * ?ne" using t off by (auto simp: in_window_def)
    have hl: "?hi = ?lo + ?n * ?ne" by (simp add: window_hi_def)
    show iw: "in_window E w (?b t)"
    proof (cases "t < ?hi")
      case True
      with t'(1) show ?thesis by (simp add: in_window_def)
    next
      case False
      then have "?lo \<le> t - ?n * ?ne" "t - ?n * ?ne < ?hi" using t'(2) rn hl by linarith+
      with False show ?thesis by (simp add: in_window_def)
    qed
    show m: "?b t mod ?ne = t mod ?ne"
    proof (cases "t < ?hi")
      case False
      then have "t = (t - ?n * ?ne) + ?n * ?ne" using hl by simp
      then have "t mod ?ne = (t - ?n * ?ne) mod ?ne" by (metis mod_mult_self1)
      with False show ?thesis by simp
    qed simp
    note st = rotated_stor [OF inv(1,2) t' inv(3)]
    show "entry_at E S ?u t = entry_at E S w (?b t)" "bit_at E S ?u t = bit_at E S w (?b t)"
      using st m by (simp_all add: entry_at_def bit_at_def)
    show "H t = H (?b t)" using H t' hl by simp
  qed
  have "store_shape E (S (w_storage ?u ! i))" if "i < unat (w_n ?u)" for i
  proof -
    have "w_storage ?u ! i = w_storage w ! ((i + r) mod ?n)"
      using funpow_rotate_world_nth [OF len, of i r E] that by simp
    with ok sh(2) show ?thesis by (simp add: slots_ok_def)
  qed
  moreover have "entry_ok (H t) (entry_at E S ?u t) (bit_at E S ?u t)" if "in_window E ?u t" for t
    using bt [OF that] slots_ok_entry [OF ok] by simp
  ultimately show "slots_ok E S ?u H" by (simp add: slots_ok_def)
  have nil: "pointer_list (entry_at E S w t) = []" if "in_window E w t" "H t = {}" for t
    using slots_ok_entry [OF ok that(1)] that(2) by (simp add: entry_ok_def)
  have "pend E S w H = (\<Sum>t \<in> {?lo + r * ?ne..<?hi}. image_mset (\<lambda>x. (x, H t)) (mset (pointer_list (entry_at E S w t))))"
    unfolding pend_def using nil H(1) rn
    by (intro sum.mono_neutral_right) (auto simp: in_window_def)
  also have "\<dots> = (\<Sum>t \<in> {?lo + r * ?ne..<?hi}. image_mset (\<lambda>x. (x, H t)) (mset (pointer_list (entry_at E S ?u t))))"
    using bt(3) off by (intro sum.cong) (auto simp: in_window_def)
  also have "\<dots> = pend E S ?u H"
    unfolding pend_def off
  proof (intro sum.mono_neutral_left)
    show "\<forall>t \<in> {?lo + r * ?ne..<?hi + r * ?ne} - {?lo + r * ?ne..<?hi}.
        image_mset (\<lambda>x. (x, H t)) (mset (pointer_list (entry_at E S ?u t))) = {#}"
    proof
      fix t assume "t \<in> {?lo + r * ?ne..<?hi + r * ?ne} - {?lo + r * ?ne..<?hi}"
      then have t: "in_window E ?u t" "?hi \<le> t" using off by (auto simp: in_window_def)
      have "H t = {}" using H(2) t(2) by blast
      then have "pointer_list (entry_at E S ?u t) = []"
        using bt(1,3,5) [OF t(1)] nil by simp
      then show "image_mset (\<lambda>x. (x, H t)) (mset (pointer_list (entry_at E S ?u t))) = {#}" by simp
    qed
  qed auto
  finally show "pend E S ?u H = pend E S w H" by simp
qed

end
