(* ===== verification/Aba_Inv.thy ===== *)
theory Aba_Inv
  imports Aba_Slots
begin

text \<open>
  The invariant between API calls. \<open>hold\<close> is the set of threads that have not yet checked in to a
  timestamp: those whose next timestamp (in thread-specific storage) is not past it. \<open>core\<close> ties the world, the
  threads' timestamps and the timestamp storages together, \<open>ents\<close> and \<open>wrlds\<close> say who owns each free
  entry and each world: every block is in exactly one place, so nothing is lost or freed twice.
\<close>

section \<open>Definitions\<close>

definition registered :: "mem \<Rightarrow> tid set" where
  "registered s = {th. tss s th \<noteq> 0}"

definition hold :: "mem \<Rightarrow> world \<Rightarrow> nat \<Rightarrow> tid set" where
  "hold s w t = (if t \<le> unat (w_timestamp w) then {th. tss s th \<noteq> 0 \<and> unat (tss s th) \<le> t} else {})"

text \<open>The entries waiting to be freed, each with the threads that have to check in first.\<close>

definition waiting :: "ext \<Rightarrow> mem \<Rightarrow> world \<Rightarrow> (uptr \<times> tid set) multiset" where
  "waiting E s w = pend E (stores s) w (hold s w)"

definition layout :: "ext \<Rightarrow> mem \<Rightarrow> world \<Rightarrow> bool" where
  "layout E s w \<longleftrightarrow> wf_world E w \<and> w_link w = 0 \<and> finite (registered s)
     \<and> unat (w_n_threads w) = card (registered s) \<and> card (registered s) < 10000
     \<and> (\<forall>th \<in> registered s. unat (w_offset w) \<le> unat (tss s th) \<and> unat (tss s th) \<le> unat (w_timestamp w) + 1)
     \<and> distinct (storages w) \<and> dom (stores s) = set (storages w)
     \<and> slots_ok E (stores s) w (hold s w)"

definition core :: "ext \<Rightarrow> mem \<Rightarrow> world \<Rightarrow> bool" where
  "core E s w \<longleftrightarrow> layout E s w \<and> (w_timestamp w = 0 \<longrightarrow> w_n w = 0)"

definition once :: "'a multiset \<Rightarrow> bool" where
  "once M \<longleftrightarrow> (\<forall>x. count M x \<le> 1)"

definition ents :: "mem \<Rightarrow> uptr multiset \<Rightarrow> bool" where
  "ents s P \<longleftrightarrow> once (P + mset (q_free_entries (q s)))
     \<and> set_mset (P + mset (q_free_entries (q s))) = dom (entries s)
     \<and> 0 \<notin># P + mset (q_free_entries (q s))
     \<and> (\<forall>x \<in># P. fe_free (the (entries s x)) \<noteq> None
          \<and> fn_ok (the (fe_free (the (entries s x)))) (fe_owner (the (entries s x))))
     \<and> (\<forall>x \<in> set (q_free_entries (q s)). entries s x = Some zero_entry)"

definition retired :: "mem \<Rightarrow> uptr multiset \<Rightarrow> uptr multiset" where
  "retired s P = (\<Sum>x \<in># P. mset (world_ptrs (the (entries s x))))"

definition wrlds :: "mem \<Rightarrow> uptr multiset \<Rightarrow> uptr multiset \<Rightarrow> bool" where
  "wrlds s P X \<longleftrightarrow> once (retired s P + mset (q_leaks (q s)) + X + mset (q_free_worlds (q s)))
     \<and> set_mset (retired s P + mset (q_leaks (q s)) + X + mset (q_free_worlds (q s))) = dom (worlds s)
     \<and> 0 \<notin># retired s P + mset (q_leaks (q s)) + X + mset (q_free_worlds (q s))
     \<and> (\<forall>a \<in> set (q_free_worlds (q s)). w_size (the (worlds s a)) = 0)
     \<and> (\<forall>a \<in># retired s P + mset (q_leaks (q s)) + X. w_size (the (worlds s a)) \<noteq> 0
          \<and> unat (w_size (the (worlds s a))) \<le> length (w_storage (the (worlds s a))))"

definition inv :: "ext \<Rightarrow> mem \<Rightarrow> world \<Rightarrow> uptr multiset \<Rightarrow> bool" where
  "inv E s w X \<longleftrightarrow> get_struct (q_world (q s)) \<noteq> 0 \<and> get_lock (q_world (q s)) = 0
     \<and> worlds s (get_struct (q_world (q s))) = Some w \<and> good_state (q_world (q s)) w
     \<and> (get_bit' (q_world (q s)) = 0 \<longrightarrow> (\<forall>th \<in> registered s. unat (tss s th) \<le> unat (w_timestamp w)))
     \<and> core E s w \<and> ents s (image_mset fst (waiting E s w))
     \<and> wrlds s (image_mset fst (waiting E s w)) (add_mset (get_struct (q_world (q s))) X)"

section \<open>Holders\<close>

lemma hold_mono: "t \<le> t' \<Longrightarrow> t' \<le> unat (w_timestamp w) \<Longrightarrow> hold s w t \<subseteq> hold s w t'"
  by (auto simp: hold_def)

lemma hold_future: "unat (w_timestamp w) < t \<Longrightarrow> hold s w t = {}"
  by (simp add: hold_def)

lemma hold_subset: "hold s w t \<subseteq> registered s"
  by (auto simp: hold_def registered_def)

lemma hold_0 [simp]: "hold s w 0 = {}"
  by (auto simp: hold_def unat_eq_zero)

lemma hold_cong: "tss s' = tss s \<Longrightarrow> w_timestamp w' = w_timestamp w \<Longrightarrow> hold s' w' = hold s w"
  by (simp add: hold_def fun_eq_iff)

lemma layoutD:
  assumes "layout E s w"
  shows "wf_world E w" "w_link w = 0" "finite (registered s)" "unat (w_n_threads w) = card (registered s)"
    "card (registered s) < 10000" "distinct (storages w)" "dom (stores s) = set (storages w)"
    "slots_ok E (stores s) w (hold s w)" "wf_shape E w"
    "\<And>th. th \<in> registered s \<Longrightarrow> unat (w_offset w) \<le> unat (tss s th) \<and> unat (tss s th) \<le> unat (w_timestamp w) + 1"
  using assms wf_world_shape unfolding layout_def by blast+

lemma coreD:
  assumes "core E s w"
  shows "layout E s w" "w_timestamp w = 0 \<longrightarrow> w_n w = 0"
  using assms unfolding core_def by blast+

lemma invD:
  assumes "inv E s w X"
  shows "get_struct (q_world (q s)) \<noteq> 0" "get_lock (q_world (q s)) = 0"
    "worlds s (get_struct (q_world (q s))) = Some w" "good_state (q_world (q s)) w"
    "get_bit' (q_world (q s)) = 0 \<longrightarrow> (\<forall>th \<in> registered s. unat (tss s th) \<le> unat (w_timestamp w))"
    "core E s w" "ents s (image_mset fst (waiting E s w))"
    "wrlds s (image_mset fst (waiting E s w)) (add_mset (get_struct (q_world (q s))) X)"
  using assms unfolding inv_def by blast+

text \<open>Only threads, storages and the world matter to \<open>layout\<close>.\<close>

lemma layout_cong:
  assumes "tss s' = tss s" "stores s' = stores s"
  shows "layout E s' w = layout E s w" "core E s' w = core E s w" "waiting E s' w = waiting E s w"
proof -
  have "hold s' w = hold s w" "registered s' = registered s"
    using assms by (simp_all add: hold_def registered_def fun_eq_iff)
  with assms show "layout E s' w = layout E s w" "core E s' w = core E s w" "waiting E s' w = waiting E s w"
    by (simp_all add: layout_def core_def waiting_def)
qed

text \<open>Another world with the same storages.\<close>

lemma layout_same:
  assumes "layout E s w" "wf_world E w'" "w_offset w' = w_offset w" "w_n w' = w_n w" "storages w' = storages w"
    "w_timestamp w' = w_timestamp w" "w_n_threads w' = w_n_threads w" "w_link w' = 0"
  shows "layout E s w'" "waiting E s w' = waiting E s w"
proof -
  note c = layoutD [OF assms(1)]
  have len: "unat (w_n w) \<le> length (w_storage w)" using c(9) unfolding wf_shape_def by linarith
  have len': "unat (w_n w) \<le> length (w_storage w')"
    using wf_world_shape [OF assms(2)] assms(4) unfolding wf_shape_def by simp
  note ss = same_slots [OF assms(3-5) len len']
  have h: "hold s w' = hold s w" using assms(6) by (simp add: hold_def fun_eq_iff)
  show "layout E s w'" using assms(2-8) c ss h by (simp add: layout_def)
  show "waiting E s w' = waiting E s w" using ss h by (simp add: waiting_def)
qed

lemma layout_copy_of:
  assumes "layout E s w"
  shows "layout E s (copy_of w)" "waiting E s (copy_of w) = waiting E s w"
  using layout_same [OF assms wf_copy_of [OF layoutD(1) [OF assms]] _ _ storages_copy_of [OF layoutD(9) [OF assms]]]
  by simp_all

lemma wf_grown:
  assumes "wf_world E w" "w_size w < sz" "unat sz * n_entries E < 2 ^ 32"
    and "unat (w_offset w) + unat sz * n_entries E < 2 ^ 63"
  shows "wf_world E (grown sz w)"
proof -
  have lt: "unat (w_size w) < unat sz" using assms(2) by (simp add: word_less_nat_alt)
  have "wf_shape E (grown sz w)"
    unfolding wf_shape_def
  proof (intro conjI allI impI)
    fix i assume i: "i < unat (w_size (grown sz w))"
    show "w_storage (grown sz w) ! i = 0 \<longleftrightarrow> unat (w_n (grown sz w)) \<le> i"
    proof (cases "i < unat (w_size w)")
      case True
      then show ?thesis using wf_world_shape [OF assms(1)] by (auto simp: wf_shape_def nth_append)
    next
      case False
      then show ?thesis using wf_world_shape [OF assms(1)] i lt by (auto simp: wf_shape_def nth_append)
    qed
  qed (use wf_world_shape [OF assms(1)] assms(3,4) lt in \<open>auto simp: wf_shape_def\<close>)
  with assms(1) show ?thesis by (simp add: wf_world_def)
qed

lemma layout_grown:
  assumes "layout E s w" "w_size w < sz" "unat sz * n_entries E < 2 ^ 32"
    and "unat (w_offset w) + unat sz * n_entries E < 2 ^ 63"
  shows "layout E s (grown sz w)" "waiting E s (grown sz w) = waiting E s w"
  using layout_same [OF assms(1) wf_grown [OF layoutD(1) [OF assms(1)] assms(2-4)] _ _ storages_grown [OF layoutD(9) [OF assms(1)]]]
  by simp_all

lemma hold_past_window:
  assumes "wf_world E w" "window_hi E w \<le> t"
  shows "hold s w t = {}"
proof (cases "w_timestamp w = 0")
  case True
  then show ?thesis by (cases "t = 0") (simp_all add: hold_future)
next
  case False
  then have "unat (w_timestamp w) < window_hi E w" using assms(1) by (simp add: wf_world_def window_hi_def)
  then show ?thesis using assms(2) by (intro hold_future) simp
qed

lemma layout_with_storage:
  assumes "layout E s w" "w_n w < w_size w" "b \<noteq> 0" "stores s b = None" "tss s' = tss s"
    and "stores s' = (stores s)(b \<mapsto> fresh_ts E)"
  shows "layout E s' (with_storage b w)" "waiting E s' (with_storage b w) = waiting E s w"
proof -
  note c = layoutD [OF assms(1)]
  let ?w = "with_storage b w"
  have nb: "b \<notin> set (storages w)" using c(7) assms(4) by auto
  note ws = with_storage_slots [OF c(9) assms(2) nb c(8) hold_past_window [OF c(1)]]
  have h: "hold s' ?w = hold s w" "registered s' = registered s"
    using assms(5) by (simp_all add: hold_def registered_def fun_eq_iff)
  have wf: "wf_world E ?w" by (rule wf_with_storage [OF c(1) assms(2,3)])
  have d: "distinct (storages ?w)" using ws(3) c(6) nb by simp
  have dm: "dom (stores s') = set (storages ?w)" unfolding assms(6) using ws(3) c(7) by auto
  show "waiting E s' ?w = waiting E s w" using ws(2) h assms(6) by (simp add: waiting_def)
  show "layout E s' ?w"
    using c ws(1) h wf d dm assms(5,6) by (simp add: layout_def)
qed

lemma layout_rotate:
  assumes "layout E s w" "at_end E s w" "0 < r" "r < unat (w_n w)" "\<forall>k < r. unused s (w_storage w ! k)"
  shows "layout E s ((rotate_world E ^^ r) w)" "waiting E s ((rotate_world E ^^ r) w) = waiting E s w"
proof -
  let ?u = "(rotate_world E ^^ r) w"
  note c = layoutD [OF assms(1)]
  note p = at_endD [OF assms(2)]
  have lim: "window_hi E w + r * n_entries E < 2 ^ 63" using rotated_le(1) [OF assms(2,4)] by simp
  have h: "hold s ?u = hold s w" by (simp add: hold_def fun_eq_iff)
  have H1: "hold s w t = {}" if t: "unat (w_offset w) \<le> t" "t < unat (w_offset w) + r * n_entries E" for t
  proof -
    have "r * n_entries E \<le> unat (w_n w) * n_entries E" using assms(4) by simp
    then have "t < window_hi E w" using t(2) unfolding window_hi_def by linarith
    then have iw: "in_window E w t" using t(1) by (simp add: in_window_def)
    have "t - unat (w_offset w) < r * n_entries E" using t by simp
    then have "(t - unat (w_offset w)) div n_entries E < r" by (simp add: div_less_iff_less_mult)
    then have "unused s (stor E w t)" using assms(5) by (simp add: stor_def)
    then have "\<not> bit_at E (stores s) w t" by (auto simp: unused_def bit_at_def split: option.splits)
    then show ?thesis using slots_ok_entry [OF c(8) iw] by (simp add: entry_ok_def)
  qed
  have le: "r \<le> unat (w_n w)" using assms(4) by simp
  note rs = rotate_slots [OF p(1) lim le c(8) H1 hold_past_window [OF c(1)]]
  note ro = rotated_next [OF assms(2) c(1) assms(3,4)]
  have len: "unat (w_n w) \<le> length (w_storage w)" using c(9) unfolding wf_shape_def by linarith
  note sm = storages_rotate [OF len, of r E]
  then have st: "distinct (storages ?u)" "set (storages ?u) = set (storages w)"
    using c(6) by (metis mset_eq_imp_distinct_iff, metis set_mset_mset)
  have "unat (w_offset ?u) \<le> unat (tss s th)" if th: "th \<in> registered s" for th
  proof (rule ccontr)
    assume "\<not> unat (w_offset ?u) \<le> unat (tss s th)"
    then have lt: "unat (tss s th) < unat (w_offset w) + r * n_entries E" using ro(3) by simp
    have "unat (tss s th) \<le> unat (w_timestamp w)"
    proof -
      have "unat (w_timestamp w) + 1 = unat (w_offset w) + unat (w_n w) * n_entries E"
        using p(4) by (simp add: window_hi_def)
      moreover have "r * n_entries E < unat (w_n w) * n_entries E" using assms(4) by simp
      ultimately show ?thesis using lt by linarith
    qed
    then have "th \<in> hold s w (unat (tss s th))" using th by (simp add: hold_def registered_def)
    then show False using H1 [of "unat (tss s th)"] lt c(10) [OF th] by blast
  qed
  then show "layout E s ?u"
    using c ro(1) rs(1) h st by (simp add: layout_def)
  show "waiting E s ?u = waiting E s w" using rs(2) h by (simp add: waiting_def)
qed

section \<open>The next timestamp\<close>

lemma use_upd_commute: "use_at E w t b (upd_at E w t f S) = upd_at E w t f (use_at E w t b S)"
proof (cases "S (stor E w t)")
  case (Some ts)
  then show ?thesis by (cases ts) (simp add: use_at_def upd_at_def ts_upd_def)
qed (simp add: use_at_def upd_at_def)

lemma mark_used_use_at:
  assumes "wf_shape E w" "covers E w t"
  shows "mark_used E w t S = use_at E w (unat t) 1 S"
  using slot_stor [OF assms] by (simp add: mark_used_def use_at_def)

definition gain :: "uptr \<Rightarrow> timestampentry \<Rightarrow> timestampentry" where
  "gain d x = x\<lparr>retain_count_1 := retain_count_1 x + d\<rparr>"

lemma same_slots_bumped:
  "in_window E (bumped w) t = in_window E w t" "stor E (bumped w) t = stor E w t"
  "storages (bumped w) = storages w" "window_hi E (bumped w) = window_hi E w"
  by (simp_all add: in_window_def window_hi_def stor_def storages_def)

lemma slots_ok_bumped: "slots_ok E S (bumped w) H = slots_ok E S w H" "pend E S (bumped w) H = pend E S w H"
  by (simp_all add: slots_ok_def pend_def same_slots_bumped entry_at_def bit_at_def)

lemma hold_bumped:
  assumes "layout E s w" "unat (w_timestamp w) < 2 ^ 62" "tss s' = tss s"
  shows "hold s' (bumped w) = (hold s w)(unat (w_timestamp w) + 1 := registered s)"
proof -
  have u: "unat (w_timestamp w + 1) = unat (w_timestamp w) + 1" by (rule unat_plus_1) (use assms(2) in simp)
  have "unat (tss s th) \<le> unat (w_timestamp w) + 1" if "tss s th \<noteq> 0" for th
    using layoutD(10) [OF assms(1), of th] that by (simp add: registered_def)
  then show ?thesis
    using u assms(3) by (auto simp: hold_def registered_def fun_eq_iff)
qed

text \<open>Bumping the timestamp, marking its entry used and counting all threads in keeps the layout, and
  nothing is waiting for the new timestamp yet.\<close>

lemma core_bumped:
  assumes "layout E s w" "covers E w (w_timestamp w + 1)" "unat (w_timestamp w) < 2 ^ 62" "registered s \<noteq> {}"
    and "tss s' = tss s"
    and "stores s' = upd_at E w (unat (w_timestamp w) + 1) (gain (w_n_threads w)) (mark_used E w (w_timestamp w + 1) (stores s))"
  shows "core E s' (bumped w)" "waiting E s' (bumped w) = waiting E s w"
proof -
  let ?t = "unat (w_timestamp w) + 1" and ?n = "w_n_threads w"
  note c = layoutD [OF assms(1)]
  have u: "unat (w_timestamp w + 1) = ?t" by (rule unat_plus_1) (use assms(3) in simp)
  have nz: "w_timestamp w + 1 \<noteq> 0" using assms(2) by (simp add: covers_def)
  have iw: "in_window E w ?t" using in_window_covers [OF c(9) nz u] assms(2) by simp
  have S: "stores s' = use_at E w ?t 1 (upd_at E w ?t (gain ?n) (stores s))"
    using assms(6) mark_used_use_at [OF c(9) assms(2)] u by (simp add: use_upd_commute)
  have h0: "hold s w ?t = {}" by (simp add: hold_future)
  note e0 = slots_ok_entry [OF c(8) iw, unfolded h0]
  have n: "?n = word_of_nat (card (registered s))" using c(4) [symmetric] by simp
  have ok: "entry_ok (registered s) (gain ?n (entry_at E (stores s) w ?t)) ((1 :: uptr) \<noteq> 0)"
    using e0 assms(4) n by (simp add: entry_ok_def gain_def)
  have h: "hold s' (bumped w) = (hold s w)(?t := registered s)" by (rule hold_bumped [OF assms(1,3,5)])
  have sl: "slots_ok E (stores s') (bumped w) (hold s' (bumped w))"
    unfolding S h slots_ok_bumped by (rule slots_ok_upd_use [where S = "stores s" and f = "gain ?n", OF c(8,9,6) iw ok])
  have r: "registered s' = registered s" using assms(5) by (simp add: registered_def)
  have "?n \<noteq> 0" using c(3,4) assms(4) by (metis card_0_eq unat_eq_zero)
  then have wf: "wf_world E (bumped w)" by (rule wf_bumped [OF c(1) assms(2)])
  have dm: "dom (stores s') = set (storages w)" unfolding S using c(7) by simp
  have ts: "unat (tss s th) \<le> unat (w_timestamp (bumped w)) + 1" if "th \<in> registered s" for th
    using c(10) [OF that] u by simp
  show "core E s' (bumped w)"
    using c wf r dm sl ts assms(5) nz by (simp add: core_def layout_def same_slots_bumped)
  have sh: "store_shape E (stores s (stor E w ?t))" by (rule slots_ok_shape [OF c(8,9) iw])
  have sh': "store_shape E (upd_at E w ?t (gain ?n) (stores s) (stor E w ?t))"
    by (rule store_shape_upd(1) [where S = "stores s", OF sh])
  have p0: "pointer_list (entry_at E (stores s) w ?t) = []" using e0 by (simp add: entry_ok_def)
  have "pend E (upd_at E w ?t (gain ?n) (stores s)) w ((hold s w)(?t := registered s)) = pend E (stores s) w (hold s w)"
    using pend_upd [where S = "stores s" and f = "gain ?n" and H' = "(hold s w)(?t := registered s)" and H = "hold s w", OF c(9,6) iw sh] p0
    by (simp add: gain_def)
  then show "waiting E s' (bumped w) = waiting E s w"
    unfolding waiting_def S h slots_ok_bumped using pend_use [where S = "upd_at E w ?t (gain ?n) (stores s)", OF c(9,6) iw sh'] by simp
qed

section \<open>Each block in one place\<close>

lemma once_empty [simp]: "once {#}"
  by (simp add: once_def)

lemma once_mset [simp]: "once (mset xs) \<longleftrightarrow> distinct xs"
proof
  assume "once (mset xs)"
  then have "count (mset xs) a = (if a \<in> set xs then 1 else 0)" for a
    using count_greater_zero_iff [of "mset xs" a]
    by (cases "a \<in> set xs") (auto simp: once_def not_in_iff le_Suc_eq dest: spec [of _ a])
  then show "distinct xs" by (simp add: distinct_count_atmost_1)
qed (simp add: once_def distinct_count_atmost_1)

lemma once_add [simp]: "once (A + B) \<longleftrightarrow> once A \<and> once B \<and> set_mset A \<inter> set_mset B = {}"
proof
  assume o: "once (A + B)"
  then have c: "count A x + count B x \<le> 1" for x by (simp add: once_def)
  have "set_mset A \<inter> set_mset B = {}"
  proof (rule equals0I)
    fix x assume "x \<in> set_mset A \<inter> set_mset B"
    then have "0 < count A x" "0 < count B x" by auto
    with c [of x] show False by linarith
  qed
  moreover have "count A x \<le> 1" "count B x \<le> 1" for x using c [of x] by linarith+
  ultimately show "once A \<and> once B \<and> set_mset A \<inter> set_mset B = {}" by (simp add: once_def)
next
  assume "once A \<and> once B \<and> set_mset A \<inter> set_mset B = {}"
  then have c: "count A x \<le> 1" "count B x \<le> 1" "count A x = 0 \<or> count B x = 0" for x
    by (auto simp: once_def count_eq_zero_iff)
  have "count A x + count B x \<le> 1" for x using c [of x] by linarith
  then show "once (A + B)" by (simp add: once_def)
qed

lemma once_add_mset [simp]: "once (add_mset a A) \<longleftrightarrow> once A \<and> a \<notin># A"
  using once_add [of "{#a#}" A] by (simp add: once_def)

lemma mapped: "A = dom m \<Longrightarrow> a \<in> A \<Longrightarrow> \<exists>x. m a = Some x"
  by auto

lemma wrldsD:
  assumes "wrlds s P X"
  shows "distinct (q_free_worlds (q s))" "distinct (q_leaks (q s))" "set (q_free_worlds (q s)) \<inter> set (q_leaks (q s)) = {}"
    "a \<in> set (q_free_worlds (q s)) \<Longrightarrow> a \<noteq> 0 \<and> (\<exists>w. worlds s a = Some w \<and> w_size w = 0)"
    "a \<in># retired s P + mset (q_leaks (q s)) + X \<Longrightarrow>
      a \<noteq> 0 \<and> (\<exists>w. worlds s a = Some w \<and> w_size w \<noteq> 0 \<and> unat (w_size w) \<le> length (w_storage w))"
proof -
  note w = assms [unfolded wrlds_def, THEN conjunct1] assms [unfolded wrlds_def, THEN conjunct2]
  note z = w(2) [THEN conjunct2]
  show "distinct (q_free_worlds (q s))" "distinct (q_leaks (q s))" "set (q_free_worlds (q s)) \<inter> set (q_leaks (q s)) = {}"
    using w(1) by auto
  show "a \<noteq> 0 \<and> (\<exists>w. worlds s a = Some w \<and> w_size w = 0)" if a: "a \<in> set (q_free_worlds (q s))"
  proof -
    have "a \<in># retired s P + mset (q_leaks (q s)) + X + mset (q_free_worlds (q s))" using a by simp
    from mapped [OF w(2) [THEN conjunct1] this] obtain v where v: "worlds s a = Some v" by blast
    have "w_size (the (worlds s a)) = 0" "a \<noteq> 0" using z a by auto
    with v show ?thesis by simp
  qed
  show "a \<noteq> 0 \<and> (\<exists>w. worlds s a = Some w \<and> w_size w \<noteq> 0 \<and> unat (w_size w) \<le> length (w_storage w))"
    if a: "a \<in># retired s P + mset (q_leaks (q s)) + X"
  proof -
    have "a \<in># retired s P + mset (q_leaks (q s)) + X + mset (q_free_worlds (q s))" using a by simp
    from mapped [OF w(2) [THEN conjunct1] this] obtain v where v: "worlds s a = Some v" by blast
    have "w_size (the (worlds s a)) \<noteq> 0 \<and> unat (w_size (the (worlds s a))) \<le> length (w_storage (the (worlds s a)))" "a \<noteq> 0"
      using z a by auto
    with v show ?thesis by simp
  qed
qed

lemma entsD:
  assumes "ents s P"
  shows "once P" "distinct (q_free_entries (q s))" "set_mset P \<inter> set (q_free_entries (q s)) = {}"
    "x \<in> set (q_free_entries (q s)) \<Longrightarrow> x \<noteq> 0 \<and> entries s x = Some zero_entry"
    "x \<in># P \<Longrightarrow> x \<noteq> 0 \<and> (\<exists>e. entries s x = Some e \<and> fe_free e \<noteq> None
      \<and> fn_ok (the (fe_free e)) (fe_owner e))"
proof -
  note w = assms [unfolded ents_def, THEN conjunct1] assms [unfolded ents_def, THEN conjunct2]
  note z = w(2) [THEN conjunct2]
  show "once P" "distinct (q_free_entries (q s))" "set_mset P \<inter> set (q_free_entries (q s)) = {}"
    using w(1) by auto
  show "x \<noteq> 0 \<and> entries s x = Some zero_entry" if "x \<in> set (q_free_entries (q s))"
    using z that by auto
  show "x \<noteq> 0 \<and> (\<exists>e. entries s x = Some e \<and> fe_free e \<noteq> None
      \<and> fn_ok (the (fe_free e)) (fe_owner e))" if x: "x \<in># P"
  proof -
    have "x \<in># P + mset (q_free_entries (q s))" using x by simp
    from mapped [OF w(2) [THEN conjunct1] this] obtain e where "entries s x = Some e" by blast
    moreover have "x \<noteq> 0" using z x by auto
    ultimately show ?thesis using z x by force
  qed
qed

lemma inv_cached:
  assumes "inv E s w X"
  shows "worlds_cached s" "entries_cached s"
  using wrldsD(1,4) [OF invD(8) [OF assms]] entsD(4) [OF invD(7) [OF assms]]
  by (simp_all add: worlds_cached_def entries_cached_def)

lemma inv_changeable:
  assumes "inv E s w X" "ext_ok E" "length (q_free_worlds (q s)) < fuel" "room E s 1"
  shows "changeable E s (q_world (q s)) w fuel"
  using invD(1,3) [OF assms(1)] inv_cached(1) [OF assms(1)] layoutD(1) [OF coreD(1) [OF invD(6) [OF assms(1)]]] assms(2-4)
  by (simp add: changeable_def)

text \<open>Only the fields named here matter to the invariant.\<close>

lemma inv_cong:
  assumes "worlds t = worlds s" "stores t = stores s" "entries t = entries s" "q t = q s" "tss t = tss s"
  shows "inv E t w X = inv E s w X" "waiting E t w = waiting E s w"
proof -
  note l = layout_cong [of t s, OF assms(5,2)]
  have "registered t = registered s" using assms(5) by (simp add: registered_def)
  then show "inv E t w X = inv E s w X" "waiting E t w = waiting E s w"
    using assms l by (simp_all add: inv_def ents_def wrlds_def retired_def)
qed

text \<open>The calls that are due when their holders have checked in.\<close>

definition pending :: "ext \<Rightarrow> mem \<Rightarrow> world \<Rightarrow> (event \<times> tid set) multiset" where
  "pending E s w = (\<Sum>x \<in># waiting E s w. image_mset (\<lambda>c. (c, snd x)) (mset (client_calls (the (entries s (fst x))))))"

lemma pending_cong: "waiting E t w' = waiting E s w \<Longrightarrow> entries t = entries s \<Longrightarrow> pending E t w' = pending E s w"
  by (simp add: pending_def)

text \<open>What a thread \<open>r\<close> may go on reading: worlds with their contents that are installed, or leaked, or whose delayed release waits for
  \<open>r\<close>, or that the present call has in hand (\<open>X\<close>).\<close>

definition guards :: "(uptr \<Rightarrow> freeentry option) \<Rightarrow> (uptr \<times> tid set) multiset \<Rightarrow> tid \<Rightarrow> uptr \<Rightarrow> bool" where
  "guards N W r a \<longleftrightarrow> (\<exists>x \<in># W. r \<in> snd x \<and> a \<in> set (world_ptrs (the (N (fst x)))))"

definition readable :: "ext \<Rightarrow> mem \<Rightarrow> world \<Rightarrow> uptr multiset \<Rightarrow> tid \<Rightarrow> uptr \<Rightarrow> world \<Rightarrow> bool" where
  "readable E s w X r a v \<longleftrightarrow> worlds s a = Some v \<and> w_size v \<noteq> 0
     \<and> (a = get_struct (q_world (q s)) \<or> a \<in> set (q_leaks (q s)) \<or> a \<in># X \<or> guards (entries s) (waiting E s w) r a)"

text \<open>An operation spares the threads \<open>R\<close>: it takes nothing away that they may be reading.\<close>

definition spares :: "ext \<Rightarrow> tid set \<Rightarrow> mem \<Rightarrow> world \<Rightarrow> uptr multiset \<Rightarrow> mem \<Rightarrow> world \<Rightarrow> uptr multiset \<Rightarrow> bool" where
  "spares E R s w X t w' X' \<longleftrightarrow> dom (stores s) \<subseteq> dom (stores t)
     \<and> (\<forall>r \<in> R. \<forall>a v. readable E s w X r a v \<longrightarrow> readable E t w' X' r a v)"

lemma spares_refl [simp]: "spares E R s w X s w X"
  by (simp add: spares_def)

lemma spares_trans: "spares E R s w X t w' X' \<Longrightarrow> spares E R t w' X' u w'' X'' \<Longrightarrow> spares E R s w X u w'' X''"
  unfolding spares_def by blast

lemma spares_mono: "spares E R s w X t w' X' \<Longrightarrow> Q \<subseteq> R \<Longrightarrow> spares E Q s w X t w' X'"
  unfolding spares_def by blast

text \<open>Worlds stay, and the installed one is still somewhere.\<close>

lemma spares_kept:
  assumes "dom (stores s) \<subseteq> dom (stores t)" "\<And>a v. worlds s a = Some v \<Longrightarrow> w_size v \<noteq> 0 \<Longrightarrow> worlds t a = Some v"
    and "waiting E t w' = waiting E s w" "entries t = entries s" "set (q_leaks (q s)) \<subseteq> set (q_leaks (q t))" "set_mset X \<subseteq> set_mset X'"
    and "get_struct (q_world (q s)) = get_struct (q_world (q t)) \<or> get_struct (q_world (q s)) \<in> set (q_leaks (q t)) \<union> set_mset X'"
  shows "spares E R s w X t w' X'"
  unfolding spares_def readable_def assms(3,4) using assms(1,2,5-7) by auto

section \<open>The storages that can be reused\<close>

text \<open>The holders grow with the timestamp, so the storages without holders are the first ones.\<close>

lemma unused_holders:
  assumes "layout E s w" "i < unat (w_n w)"
  shows "unused s (w_storage w ! i) \<longleftrightarrow>
    (\<forall>t. unat (w_offset w) + i * n_entries E \<le> t \<and> t < unat (w_offset w) + Suc i * n_entries E \<longrightarrow> hold s w t = {})"
proof -
  let ?o = "unat (w_offset w)" and ?ne = "n_entries E" and ?a = "w_storage w ! i"
  note c = layoutD [OF assms(1)]
  have o: "?o mod ?ne = 0" using c(9) by (simp add: wf_shape_def)
  obtain ts where ts: "stores s ?a = Some ts" "\<forall>j. ?ne \<le> j \<longrightarrow> \<not> bit (usage_bits ts) j"
    using c(8) assms(2) by (auto simp: slots_ok_def store_shape_def)
  have at: "hold s w (?o + i * ?ne + j) \<noteq> {} \<longleftrightarrow> bit (usage_bits ts) j" if j: "j < ?ne" for j
  proof -
    have "Suc i * ?ne \<le> unat (w_n w) * ?ne" using assms(2) by (intro mult_le_mono1) simp
    then have w: "in_window E w (?o + i * ?ne + j)" using j by (simp add: in_window_def window_hi_def)
    have "(i * ?ne + j) div ?ne = i" "(?o + i * ?ne + j) mod ?ne = j"
      using j o by (simp_all add: mod_add_eq [symmetric, of ?o] add.assoc)
    then have "bit_at E (stores s) w (?o + i * ?ne + j) = bit (usage_bits ts) j"
      using ts(1) by (simp add: bit_at_def stor_def add.assoc)
    with slots_ok_entry [OF c(8) w] show ?thesis by (simp add: entry_ok_def)
  qed
  have "unused s ?a \<longleftrightarrow> (\<forall>j < ?ne. \<not> bit (usage_bits ts) j)"
  proof
    assume "\<forall>j < ?ne. \<not> bit (usage_bits ts) j"
    then have "\<not> bit (usage_bits ts) j" for j using ts(2) by (cases "j < ?ne") auto
    then have "usage_bits ts = 0" by (intro bit_word_eqI) simp
    with ts(1) show "unused s ?a" by (simp add: unused_def)
  qed (use ts(1) in \<open>simp add: unused_def\<close>)
  also have "\<dots> \<longleftrightarrow> (\<forall>j < ?ne. hold s w (?o + i * ?ne + j) = {})" using at by blast
  also have "\<dots> \<longleftrightarrow> (\<forall>t. ?o + i * ?ne \<le> t \<and> t < ?o + Suc i * ?ne \<longrightarrow> hold s w t = {})"
  proof (intro iffI allI impI)
    fix t assume a: "\<forall>j < ?ne. hold s w (?o + i * ?ne + j) = {}" "?o + i * ?ne \<le> t \<and> t < ?o + Suc i * ?ne"
    then have "t - (?o + i * ?ne) < ?ne" by auto
    then have "hold s w (?o + i * ?ne + (t - (?o + i * ?ne))) = {}" using a(1) by blast
    then show "hold s w t = {}" using a(2) by simp
  next
    fix j assume "\<forall>t. ?o + i * ?ne \<le> t \<and> t < ?o + Suc i * ?ne \<longrightarrow> hold s w t = {}" "j < ?ne"
    then show "hold s w (?o + i * ?ne + j) = {}" by simp
  qed
  finally show ?thesis .
qed

lemma prefix_of_antitone:
  assumes "\<And>i j. i \<le> j \<Longrightarrow> j < n \<Longrightarrow> P j \<Longrightarrow> P i"
  shows "\<exists>f \<le> n. \<forall>i < n. P i \<longleftrightarrow> i < (f :: nat)"
proof (cases "\<exists>i < n. \<not> P i")
  case True
  let ?f = "LEAST i. i < n \<and> \<not> P i"
  have f: "?f < n" "\<not> P ?f" using LeastI_ex [of "\<lambda>i. i < n \<and> \<not> P i"] True by blast+
  have "P i \<longleftrightarrow> i < ?f" if "i < n" for i
    using assms [of ?f i] f(2) that not_less_Least [of i "\<lambda>i. i < n \<and> \<not> P i"] by (meson leI)
  then show ?thesis using f(1) by (intro exI [of _ ?f]) simp
next
  case False
  then show ?thesis by (intro exI [of _ n]) simp
qed

lemma free_prefix_exists:
  assumes "layout E s w" "unat (w_timestamp w) + 1 = window_hi E w"
  shows "\<exists>f. free_prefix s w f"
proof -
  let ?o = "unat (w_offset w)" and ?ne = "n_entries E" and ?n = "unat (w_n w)"
  have anti: "unused s (w_storage w ! i)" if ij: "i \<le> j" "j < ?n" and u: "unused s (w_storage w ! j)" for i j
  proof (cases "i = j")
    case False
    have h: "hold s w (?o + j * ?ne) = {}"
      using u unfolding unused_holders [OF assms(1) ij(2)] by (simp add: n_entries_pos)
    have "Suc j * ?ne \<le> ?n * ?ne" using ij(2) by (intro mult_le_mono1) simp
    then have jt: "?o + j * ?ne \<le> unat (w_timestamp w)"
      using assms(2) n_entries_pos(1) [of E] unfolding window_hi_def mult_Suc by linarith
    have ne: "Suc i * ?ne \<le> j * ?ne" using ij(1) False by (intro mult_le_mono1) simp
    show ?thesis
      unfolding unused_holders [OF assms(1) le_less_trans [OF ij]]
    proof (intro allI impI)
      fix t assume t: "?o + i * ?ne \<le> t \<and> t < ?o + Suc i * ?ne"
      then have "t \<le> ?o + j * ?ne" using ne by linarith
      from hold_mono [OF this jt] h show "hold s w t = {}" by blast
    qed
  qed (use u in simp)
  have "\<exists>f \<le> ?n. \<forall>i < ?n. unused s (w_storage w ! i) \<longleftrightarrow> i < f"
    by (rule prefix_of_antitone) (rule anti)
  then show ?thesis unfolding free_prefix_def by blast
qed

end
