(* ===== verification/Aba_Move.thy ===== *)
theory Aba_Move
  imports Aba_Inv
begin

text \<open>
  Moving to the next timestamp: when a pointer is freed after some thread has checked in to the
  present timestamp, the world first moves on. All four ways to do that (in the present storages, adding one,
  reusing one, growing the world) end alike and keep the invariant.
\<close>

section \<open>Moving to the next timestamp\<close>

lemma sees_info:
  assumes "changeable E s p w fuel" "a = calloc_at E (drained s)" "wf_world E v" "w_link v = 0"
    and "w_timestamp v = w_timestamp w" "w_n_threads v = w_n_threads w" "unat (w_n_threads w) < 10000"
  shows "sees E (info_of a p) (placed s a v) v w"
proof -
  note n = changeable_new [OF assms(1), folded assms(2)]
  have c: "q_world (q s) = p" "get_struct p \<noteq> 0" "wf_world E w" using assms(1) by (simp_all add: changeable_def)
  have "worlds (placed s a v) (get_struct p) = Some w" using n(4,5) by simp
  with n c assms(3-7) show ?thesis by (simp add: sees_def)
qed

text \<open>The world at \<open>a\<close> is \<open>v\<close>, moved on to its next timestamp; \<open>S\<close> are the storages before its entry was marked.\<close>

definition moved :: "ext \<Rightarrow> mem \<Rightarrow> uptr \<Rightarrow> world \<Rightarrow> (uptr \<Rightarrow> timestampstorage option) \<Rightarrow> mem \<Rightarrow> bool" where
  "moved E s a v S t \<longleftrightarrow> worlds t = (worlds (drained s))(a \<mapsto> bumped v)
     \<and> stores t = mark_used E v (w_timestamp v + 1) S \<and> entries t = entries s
     \<and> q t = (q s)\<lparr>q_world := a, q_free_worlds := []\<rparr> \<and> tss t = tss s \<and> trace t = trace s"

text \<open>How much an operation may use up: \<open>k\<close> blocks, one timestamp, one more place for a storage, and that only in a full
  world.\<close>

definition grew :: "nat \<Rightarrow> mem \<Rightarrow> world \<Rightarrow> mem \<Rightarrow> world \<Rightarrow> bool" where
  "grew k s w t v \<longleftrightarrow> blocks t \<le> blocks s + k \<and> unat (w_timestamp v) \<le> unat (w_timestamp w) + 1
     \<and> unat (w_size v) \<le> unat (w_size w) + 1 \<and> (w_n w < w_size w \<longrightarrow> w_size v = w_size w)"

text \<open>What becomes of the replaced world \<open>w\<close>, for a thread that still works with it: its storages are there, the
  entry it has for the next timestamp is marked as used; only a full world is replaced by a larger one, and then none of its
  storages could be reused.\<close>

definition marked :: "(uptr \<Rightarrow> timestampstorage option) \<Rightarrow> uptr \<Rightarrow> nat \<Rightarrow> bool" where
  "marked S x j \<longleftrightarrow> (\<exists>ts. S x = Some ts \<and> bit (usage_bits ts) j)"

definition outrun :: "ext \<Rightarrow> mem \<Rightarrow> world \<Rightarrow> world \<Rightarrow> bool" where
  "outrun E t v w \<longleftrightarrow> stores_mapped t w
     \<and> (\<forall>x j. slot E w (w_timestamp w + 1) = Some (x, j) \<longrightarrow> marked (stores t) x j)
     \<and> (slot E w (w_timestamp w + 1) \<noteq> None \<or> w_n w < w_size w \<longrightarrow> w_size v = w_size w)
     \<and> (slot E w (w_timestamp w + 1) = None \<and> w_n w = w_size w \<longrightarrow>
          w_size v = w_size w \<and> marked (stores t) (w_storage w ! 0) (unat (w_timestamp w + 1) mod n_entries E)
          \<or> (\<forall>i. Suc i < unat (w_n w) \<longrightarrow> \<not> unused t (w_storage w ! i)))"

definition moves :: "ext \<Rightarrow> mem \<Rightarrow> world \<Rightarrow> uptr \<Rightarrow> mem \<Rightarrow> bool" where
  "moves E s w a t \<longleftrightarrow> (\<exists>v S. moved E s a v S t \<and> layout E (s\<lparr>stores := S\<rparr>) v
     \<and> waiting E (s\<lparr>stores := S\<rparr>) v = waiting E s w \<and> w_timestamp v = w_timestamp w
     \<and> w_n_threads v = w_n_threads w \<and> covers E v (w_timestamp v + 1) \<and> unat (w_size v) \<le> unat (w_size w) + 1
     \<and> outrun E t v w \<and> dom (stores s) \<subseteq> dom S) \<and> blocks t \<le> blocks s + 2"

lemma dom_mark_used [simp]: "dom (mark_used E v t S) = dom S"
  by (auto simp: mark_used_def split: option.splits if_splits)

lemma slot_index_64: "slot E w t = Some (x, j) \<Longrightarrow> j < 64"
  using less_le_trans [OF mod_less_divisor [OF n_entries_pos(1)] n_entries_le] by (auto simp: slot_def split: if_splits)

lemma bit_mark: "j < 64 \<Longrightarrow> bit (set_mask u (word_of_nat j) 1) k \<longleftrightarrow> k < 64 \<and> (k = j \<or> bit u k)"
  by (simp add: bit_set_mask unat_of_nat_32)

lemma marked_mark_used: "slot E v t = Some (x, j) \<Longrightarrow> S x \<noteq> None \<Longrightarrow> marked (mark_used E v t S) x j"
  using slot_index_64 [of E v t x j] by (auto simp: mark_used_def marked_def bit_mark)

lemma mark_used_marked:
  assumes "slot E v t = Some (x, j)" "marked S x j"
  shows "mark_used E v t S = S"
proof -
  obtain ts where ts: "S x = Some ts" "bit (usage_bits ts) j" using assms(2) by (auto simp: marked_def)
  have "set_mask (usage_bits ts) (word_of_nat j) 1 = usage_bits ts"
    using slot_index_64 [OF assms(1)] ts(2) by (intro bit_word_eqI) (auto simp: bit_mark)
  then show ?thesis using assms(1) ts(1) by (auto simp: mark_used_def)
qed

lemma unused_mark_used: "stores t = mark_used E v r S \<Longrightarrow> S x = stores s x \<Longrightarrow> unused t x \<Longrightarrow> unused s x"
proof -
  assume a: "stores t = mark_used E v r S" "S x = stores s x" and u: "unused t x"
  show "unused s x"
  proof (cases "slot E v r")
    case (Some y)
    obtain z j where y: "y = (z, j)" by (cases y)
    have "set_mask b (word_of_nat j) 1 = 0 \<Longrightarrow> b = 0" for b
      using slot_index_64 [OF Some [unfolded y]] by (auto simp: bit_eq_iff bit_mark)
    with a u Some y show ?thesis
      by (cases "x = z"; cases "S x") (auto simp: mark_used_def unused_def)
  qed (use a u in \<open>simp add: mark_used_def unused_def\<close>)
qed

lemma moved_advanced:
  assumes "stores u = S" "worlds u = (worlds (drained s))(a \<mapsto> x)" "entries u = entries s"
    and "q u = (q s)\<lparr>q_free_worlds := []\<rparr>" "tss u = tss s" "trace u = trace s"
  shows "moved E s a v S (set_q_world a (advanced E a m v u))"
  using assms by (simp add: moved_def advanced_def)

lemma blocks_moved:
  assumes "moved E s a v S t" "\<And>x. S x \<noteq> None \<Longrightarrow> stores s x \<noteq> None \<or> x = b"
  shows "blocks t \<le> blocks s + 2"
proof -
  let ?L = "insert a (insert b {x. live s x})"
  have "live t x \<Longrightarrow> x \<in> ?L" for x
  proof -
    have "stores t x \<noteq> None \<longleftrightarrow> S x \<noteq> None"
      using assms(1) unfolding moved_def domIff [symmetric] by simp
    then show "live t x \<Longrightarrow> x \<in> ?L"
      using assms(1) assms(2) [of x] by (auto simp: live_def moved_def restrict_map_def split: if_splits)
  qed
  then have "blocks t \<le> card ?L"
    unfolding blocks_def by (intro card_mono) auto
  also have "\<dots> \<le> Suc (Suc (blocks s))"
    unfolding blocks_def by (intro card_insert_le_m1) simp_all
  finally show ?thesis by simp
qed

lemma room_next:
  assumes "room E s (Suc (Suc k))"
  shows "room E (placed s a v) (Suc k)"
proof (rule room_insert [OF assms])
  fix x assume "live (placed s a v) x"
  then show "live s x \<or> x = a" by (auto simp: live_def restrict_map_def split: if_splits)
qed

text \<open>What the callbacks that move on have in common.\<close>

definition movable :: "ext \<Rightarrow> nat \<Rightarrow> mem \<Rightarrow> world \<Rightarrow> bool" where
  "movable E fuel s w \<longleftrightarrow> changeable E s (q_world (q s)) w fuel \<and> layout E s w \<and> core E s w
     \<and> get_bit' (q_world (q s)) = 1 \<and> get_lock (q_world (q s)) = 0 \<and> 1 < unat (w_n_threads w)
     \<and> unat (w_timestamp w) < 2 ^ 62 \<and> weak_bound E fuel \<and> (unat (w_size w) + 1) * n_entries E < 2 ^ 32
     \<and> room E s 2"

lemma movableD:
  assumes "movable E fuel s w"
  shows "changeable E s (q_world (q s)) w fuel" "layout E s w" "core E s w" "get_bit' (q_world (q s)) = 1"
    "get_lock (q_world (q s)) = 0" "1 < unat (w_n_threads w)" "unat (w_timestamp w) < 2 ^ 62" "weak_bound E fuel"
    "(unat (w_size w) + 1) * n_entries E < 2 ^ 32" "room E s 2" "ext_ok E" "unat (w_n_threads w) < 10000"
proof -
  show "unat (w_n_threads w) < 10000" "ext_ok E"
    using assms layoutD(4,5) [of E s w] unfolding movable_def changeable_def by auto
qed (use assms in \<open>unfold movable_def, blast+\<close>)

lemma free_ready_placed:
  assumes "movable E fuel s w" "a = calloc_at E (drained s)" "wf_world E v" "w_link v = 0"
    and "w_timestamp v = w_timestamp w" "w_n_threads v = w_n_threads w"
  shows "free_ready E fuel (info_of a (q_world (q s))) (placed s a v) v w"
  using sees_info [OF movableD(1) [OF assms(1)] assms(2-6) movableD(12) [OF assms(1)]] movableD(4-8) [OF assms(1)]
  by (simp add: free_ready_def)

lemma covers_stored:
  assumes "layout E s w" "covers E w t"
  shows "stores s (w_storage w ! slot_index E w t) \<noteq> None"
proof -
  note c = layoutD [OF assms(1)]
  have "slot_index E w t < unat (w_n w)" using assms(2) by (simp add: covers_def)
  then have "w_storage w ! slot_index E w t \<in> set (storages w)"
    using c(9) by (auto simp: storages_def in_set_conv_nth wf_shape_def intro!: exI [of _ "slot_index E w t"])
  then show ?thesis unfolding c(7) [symmetric] by (simp add: domIff)
qed

lemma stores_mapped_layout: "layout E s w \<Longrightarrow> stores_mapped s w"
proof -
  assume l: "layout E s w"
  note c = layoutD [OF l]
  have "w_storage w ! i \<in> set (storages w)" if "i < unat (w_n w)" for i
    using that c(9) by (auto simp: storages_def in_set_conv_nth wf_shape_def)
  then show ?thesis unfolding stores_mapped_def c(7) [symmetric] by blast
qed

lemma outrunI:
  assumes "layout E s w" "stores t = mark_used E v (w_timestamp w + 1) S" "\<And>x. stores s x \<noteq> None \<Longrightarrow> S x = stores s x"
    and "slot E w (w_timestamp w + 1) \<noteq> None \<Longrightarrow> slot E v (w_timestamp w + 1) = slot E w (w_timestamp w + 1)"
    and "slot E w (w_timestamp w + 1) \<noteq> None \<or> w_n w < w_size w \<Longrightarrow> w_size v = w_size w"
    and "slot E w (w_timestamp w + 1) = None \<and> w_n w = w_size w \<Longrightarrow>
      w_size v = w_size w \<and> slot E v (w_timestamp w + 1) = Some (w_storage w ! 0, unat (w_timestamp w + 1) mod n_entries E)
      \<or> (\<forall>i. Suc i < unat (w_n w) \<longrightarrow> \<not> unused s (w_storage w ! i))"
  shows "outrun E t v w"
proof -
  let ?t = "w_timestamp w + 1"
  have mp: "stores s (w_storage w ! i) \<noteq> None" if "i < unat (w_n w)" for i
    using stores_mapped_layout [OF assms(1)] that by (simp add: stores_mapped_def)
  have S: "S (w_storage w ! i) = stores s (w_storage w ! i)" "S (w_storage w ! i) \<noteq> None" if "i < unat (w_n w)" for i
    using assms(3) [OF mp [OF that]] mp [OF that] by simp_all
  have dm: "stores t x \<noteq> None \<longleftrightarrow> S x \<noteq> None" for x unfolding assms(2) domIff [symmetric] by simp
  have "stores_mapped t w" unfolding stores_mapped_def dm using S(2) by blast
  moreover have "marked (stores t) x j" if x: "slot E w ?t = Some (x, j)" for x j
  proof -
    have "slot E v ?t = Some (x, j)" using assms(4) x by simp
    moreover have "S x \<noteq> None" using x S(2) by (auto simp: slot_def covers_def split: if_splits)
    ultimately show ?thesis unfolding assms(2) by (rule marked_mark_used)
  qed
  moreover have "w_size v = w_size w \<and> marked (stores t) (w_storage w ! 0) (unat ?t mod n_entries E)
      \<or> (\<forall>i. Suc i < unat (w_n w) \<longrightarrow> \<not> unused t (w_storage w ! i))"
    if f: "slot E w ?t = None \<and> w_n w = w_size w"
  proof (cases "\<forall>i. Suc i < unat (w_n w) \<longrightarrow> \<not> unused s (w_storage w ! i)")
    case True
    then show ?thesis using unused_mark_used [OF assms(2) S(1)] by (meson Suc_lessD)
  next
    case False
    then have "0 < unat (w_n w)" by auto
    moreover have "w_size v = w_size w" "slot E v ?t = Some (w_storage w ! 0, unat ?t mod n_entries E)"
      using assms(6) [OF f] False by blast+
    ultimately show ?thesis unfolding assms(2) using marked_mark_used S(2) by blast
  qed
  ultimately show ?thesis using assms(5) unfolding outrun_def by blast
qed

lemma movesI:
  assumes "moved E s a v S t" "layout E (s\<lparr>stores := S\<rparr>) v" "waiting E (s\<lparr>stores := S\<rparr>) v = waiting E s w"
    and "w_timestamp v = w_timestamp w" "w_n_threads v = w_n_threads w" "covers E v (w_timestamp v + 1)"
    and "unat (w_size v) \<le> unat (w_size w) + 1" "\<And>x. S x \<noteq> None \<Longrightarrow> stores s x \<noteq> None \<or> x = b" "outrun E t v w"
    and "dom (stores s) \<subseteq> dom S"
  shows "moves E s w a t"
  unfolding moves_def using assms(1-7,9,10) blocks_moved [OF assms(1,8)] by blast

lemma slot_copy_of: "wf_shape E w \<Longrightarrow> slot E (copy_of w) t = slot E w t"
proof -
  assume "wf_shape E w"
  then have "unat (w_n w) \<le> unat (w_size w)" by (simp add: wf_shape_def)
  then show ?thesis by (auto simp: slot_def covers_def slot_index_def)
qed

lemma result_p_0: "new_bit i = 0 \<Longrightarrow> new_locked i = 0 \<Longrightarrow> result_p i = new_world i"
  by (simp add: result_p_def)

text \<open>The next timestamp has an entry already.\<close>

lemma moves_increment:
  assumes "movable E fuel s w" "covers E w (w_timestamp w + 1)" "a = calloc_at E (drained s)"
  obtains c' t where
    "run (mulle_aba_storage_copy_change_worldpointer E th fuel Swap_free (q_world (q s)) (increment_timestamp E th fuel) c) s
      = Ok (\<lparr>new_world_p = a, old_world_p = q_world (q s)\<rparr>, c') t" "moves E s w a t"
proof -
  let ?p = "q_world (q s)" and ?v = "copy_of w"
  let ?b = "placed s a ?v" and ?i = "info_of a ?p"
  note m = movableD [OF assms(1)]
  note c = layoutD [OF m(2)]
  note lc = layout_copy_of [OF m(2)]
  have cv: "covers E ?v (w_timestamp ?v + 1)" using assms(2) by (simp add: covers_iff)
  have fr: "free_ready E fuel ?i ?b ?v w"
    by (rule free_ready_placed [OF assms(1,3) wf_copy_of [OF c(1)]]) simp_all
  have nc: "next_covered E ?v ?b"
    unfolding next_covered_def using cv covers_stored [OF lc(1) cv] by simp
  then have "inc_pre E fuel ?i c ?b" unfolding inc_pre_def using fr by blast
  from increment_change.run_copy_change [OF m(1) assms(3) this] obtain i' u' t where
    r: "run (mulle_aba_storage_copy_change_worldpointer E th fuel Swap_free ?p (increment_timestamp E th fuel) c) s =
       Ok (\<lparr>new_world_p = result_p i', old_world_p = ?p\<rparr>, u') (set_q_world (result_p i') t)"
    and post: "inc_post E ?i c ?b i' u' t" by blast
  then obtain k where "i' = ?i\<lparr>new_bit := 0\<rparr>" and t: "t = advanced E a k ?v ?b"
    unfolding inc_post_def by auto
  then have p: "result_p i' = a" by (simp add: result_p_0)
  have mv: "moved E s a ?v (stores s) (set_q_world a t)"
    unfolding t by (rule moved_advanced) simp_all
  have st: "stores (set_q_world a t) = mark_used E ?v (w_timestamp w + 1) (stores s)" using mv by (simp add: moved_def)
  have "slot E w (w_timestamp w + 1) \<noteq> None" using assms(2) by (simp add: slot_def)
  then have "outrun E (set_q_world a t) ?v w"
    by (intro outrunI [OF m(2) st]) (simp_all add: slot_copy_of [OF c(9)])
  moreover have "s\<lparr>stores := stores s\<rparr> = s" by simp
  ultimately have "moves E s w a (set_q_world a t)"
    using lc cv by (intro movesI [OF mv]) simp_all
  with r show ?thesis unfolding p by (rule that)
qed

text \<open>A storage is added, to a copy of the world or to a larger copy.\<close>

lemma next_in_added:
  assumes "wf_world E v" "w_n v < w_size v" "unat (w_timestamp v) < 2 ^ 62"
  shows "covers E (with_storage b v) (w_timestamp v + 1)"
proof -
  have u: "unat (w_timestamp v + 1) = unat (w_timestamp v) + 1" by (rule unat_plus_1) (use assms(3) in simp)
  have ne: "2 \<le> n_entries E" by (simp add: n_entries_def)
  have "unat (w_offset v) \<le> unat (w_timestamp v)
    \<and> unat (w_timestamp v) + 1 < unat (w_offset v) + (unat (w_n v) + 1) * n_entries E"
  proof (cases "w_timestamp v = 0")
    case True
    then show ?thesis using assms(1) ne by (simp add: wf_world_def)
  next
    case False
    then have "w_offset v \<le> w_timestamp v" "unat (w_timestamp v) < unat (w_offset v) + unat (w_n v) * n_entries E"
      using assms(1) by (simp_all add: wf_world_def)
    then show ?thesis using ne by (simp add: word_le_nat_alt)
  qed
  then show ?thesis
    using u unat_n_plus_1 [OF assms(2)] by (auto simp: covers_iff word_le_nat_alt word_unat_eq_iff)
qed

lemma add_storage_ready:
  assumes "movable E fuel s w" "a = calloc_at E (drained s)" "layout E s v" "w_link v = 0"
    and "w_timestamp v = w_timestamp w" "w_n_threads v = w_n_threads w" "w_n v < w_size v"
    and "b = calloc_at E (placed s a v)"
  shows "add_storage_pre E fuel (info_of a (q_world (q s))) c (placed s a v)"
    "layout E (s\<lparr>stores := (stores s)(b \<mapsto> fresh_ts E)\<rparr>) (with_storage b v)"
    "waiting E (s\<lparr>stores := (stores s)(b \<mapsto> fresh_ts E)\<rparr>) (with_storage b v) = waiting E s v"
    "covers E (with_storage b v) (w_timestamp v + 1)"
proof -
  note m = movableD [OF assms(1)]
  note l = layoutD [OF assms(3)]
  have "room E (placed s a v) (Suc 0)" by (rule room_next) (use m(10) in \<open>simp add: numeral_2_eq_2\<close>)
  note b = calloc_at_fresh [OF ext_ok_parts(1) [OF m(11)] this, folded assms(8)]
  have nb: "stores s b = None" using b(3) by (simp add: live_def)
  have cv: "covers E (with_storage b v) (w_timestamp v + 1)"
    using next_in_added [OF l(1) assms(7)] m(7) assms(5) by simp
  note ws = layout_with_storage [OF assms(3,7) b(1) nb, of "s\<lparr>stores := (stores s)(b \<mapsto> fresh_ts E)\<rparr>"]
  show "layout E (s\<lparr>stores := (stores s)(b \<mapsto> fresh_ts E)\<rparr>) (with_storage b v)"
    "waiting E (s\<lparr>stores := (stores s)(b \<mapsto> fresh_ts E)\<rparr>) (with_storage b v) = waiting E s v"
    using ws by simp_all
  have "stores (s\<lparr>stores := (stores s)(b \<mapsto> fresh_ts E)\<rparr>)
      (w_storage (with_storage b v) ! slot_index E (with_storage b v) (w_timestamp v + 1)) \<noteq> None"
    by (rule covers_stored [OF _ cv]) (use ws in simp)
  then have nc: "next_covered E (with_storage b v) (storage_added E b (placed s a v))"
    using cv by (simp add: next_covered_def)
  have fr: "free_ready E fuel (info_of a (q_world (q s))) (placed s a v) v w"
    by (rule free_ready_placed [OF assms(1,2) l(1) assms(4-6)])
  have mp: "stores_mapped (placed s a v) v"
    using stores_mapped_layout [OF assms(3)] by (simp add: stores_mapped_def)
  show "add_storage_pre E fuel (info_of a (q_world (q s))) c (placed s a v)"
    unfolding add_storage_pre_def assms(8) [symmetric] using fr assms(7) mp b nc by blast
  show "covers E (with_storage b v) (w_timestamp v + 1)" by (rule cv)
qed

lemma moves_added:
  assumes "movable E fuel s w" "a = calloc_at E (drained s)" "layout E s v" "w_link v = 0"
    and "w_timestamp v = w_timestamp w" "w_n_threads v = w_n_threads w" "w_n v < w_size v"
    and "waiting E s v = waiting E s w" "unat (w_size v) \<le> unat (w_size w) + 1"
    and "slot E w (w_timestamp w + 1) = None" "w_n w < w_size w \<Longrightarrow> w_size v = w_size w"
    and "w_n w = w_size w \<Longrightarrow> \<forall>i. Suc i < unat (w_n w) \<longrightarrow> \<not> unused s (w_storage w ! i)"
    and "add_storage_post E (info_of a (q_world (q s))) c (placed s a v) i' c' t"
  shows "result_p i' = a" "moves E s w a (set_q_world (result_p i') t)"
proof -
  define b where "b = calloc_at E (placed s a v)"
  note r = add_storage_ready [OF assms(1-7) b_def]
  obtain k where i': "i' = (info_of a (q_world (q s)))\<lparr>new_bit := 0\<rparr>"
    and t: "t = advanced E a k (with_storage b v) (storage_added E b (placed s a v))"
    using assms(13) unfolding add_storage_post_def b_def by auto
  show p: "result_p i' = a" using i' by (simp add: result_p_0)
  have mv: "moved E s a (with_storage b v) ((stores s)(b \<mapsto> fresh_ts E)) (set_q_world a t)"
    unfolding t by (rule moved_advanced) simp_all
  have "room E (placed s a v) (Suc 0)" by (rule room_next) (use movableD(10) [OF assms(1)] in \<open>simp add: numeral_2_eq_2\<close>)
  note bf = calloc_at_fresh [OF ext_ok_parts(1) [OF movableD(11) [OF assms(1)]] this, folded b_def]
  have st: "stores (set_q_world a t) = mark_used E (with_storage b v) (w_timestamp w + 1) ((stores s)(b \<mapsto> fresh_ts E))"
    using mv assms(5) by (simp add: moved_def)
  have "outrun E (set_q_world a t) (with_storage b v) w"
    by (rule outrunI [OF movableD(2) [OF assms(1)] st]) (use assms(10-12) bf(3) in \<open>auto simp: live_def\<close>)
  then show "moves E s w a (set_q_world (result_p i') t)"
    unfolding p by (intro movesI [OF mv, of w b]) (use r(2-4) assms(5,6,8,9) in \<open>simp_all add: subset_insertI split: if_splits\<close>)
qed

lemma moves_add:
  assumes "movable E fuel s w" "w_n w < w_size w" "a = calloc_at E (drained s)" "slot E w (w_timestamp w + 1) = None"
  obtains c' t where
    "run (mulle_aba_storage_copy_change_worldpointer E th fuel Swap_free (q_world (q s))
       (add_storage_and_increment_timestamp E th fuel) c) s
      = Ok (\<lparr>new_world_p = a, old_world_p = q_world (q s)\<rparr>, c') t" "moves E s w a t"
proof -
  note m = movableD [OF assms(1)]
  note lc = layout_copy_of [OF m(2)]
  have n: "w_n (copy_of w) < w_size (copy_of w)" using assms(2) by simp
  have pre: "add_storage_pre E fuel (info_of a (q_world (q s))) c (placed s a (copy_of w))"
    by (rule add_storage_ready [OF assms(1,3) lc(1) _ _ _ n refl]) simp_all
  from add_storage_change.run_copy_change [OF m(1) assms(3) pre] obtain i' u' t where
    r: "run (mulle_aba_storage_copy_change_worldpointer E th fuel Swap_free (q_world (q s))
        (add_storage_and_increment_timestamp E th fuel) c) s =
       Ok (\<lparr>new_world_p = result_p i', old_world_p = q_world (q s)\<rparr>, u') (set_q_world (result_p i') t)"
    and post: "add_storage_post E (info_of a (q_world (q s))) c (placed s a (copy_of w)) i' u' t" by blast
  have "result_p i' = a" "moves E s w a (set_q_world (result_p i') t)"
    by (rule moves_added [OF assms(1,3) lc(1) _ _ _ n lc(2) _ assms(4) _ _ post]; use assms(2) in simp)+
  with r show ?thesis by (intro that) simp_all
qed

lemma moves_grow:
  assumes "movable E fuel s w" "w_n w = w_size w" "a = calloc_at E (drained s)" "slot E w (w_timestamp w + 1) = None"
    and "\<forall>i. Suc i < unat (w_n w) \<longrightarrow> \<not> unused s (w_storage w ! i)"
  obtains c' t where
    "run (mulle_aba_storage_grow_worldpointer E th fuel (w_size w + 1) (add_storage_and_increment_timestamp E th fuel) c) s
      = Ok (\<lparr>new_world_p = a, old_world_p = q_world (q s)\<rparr>, c') t" "moves E s w a t"
proof -
  let ?v = "grown (w_size w + 1) w"
  note m = movableD [OF assms(1)]
  note c = layoutD [OF m(2)]
  have "(unat (w_size w) + 1) * 1 \<le> (unat (w_size w) + 1) * n_entries E"
    by (intro mult_le_mono2) (simp add: Suc_le_eq)
  then have u: "unat (w_size w + 1) = unat (w_size w) + 1" using m(9) by (simp add: unat_word_ariths)
  then have lt: "w_size w < w_size w + 1" by (simp add: word_less_nat_alt)
  have off: "unat (w_offset w) \<le> unat (w_timestamp w)" using c(1) by (auto simp: wf_world_def word_le_nat_alt)
  have "(unat (w_size w) + 1) * n_entries E < 2 ^ 62" using m(9) by (rule less_trans) simp
  then have "unat (w_offset w) + (unat (w_size w) + 1) * n_entries E < 2 ^ 62 + 2 ^ 62"
    by (intro add_strict_mono) (rule le_less_trans [OF off m(7)])
  then have b: "unat (w_offset w) + unat (w_size w + 1) * n_entries E < 2 ^ 63"
    unfolding u by simp
  note lg = layout_grown [OF m(2) lt _ b]
  have l: "layout E s ?v" "waiting E s ?v = waiting E s w" by (rule lg; use m(9) u in simp)+
  have n: "w_n ?v < w_size ?v" using assms(2) lt by simp
  have pre: "add_storage_pre E fuel (info_of a (q_world (q s))) c (placed s a ?v)"
    by (rule add_storage_ready [OF assms(1,3) l(1) _ _ _ n refl]) simp_all
  from add_storage_change.run_grow [OF m(1) assms(3) refl m(5) lt pre] obtain i' u' t where
    r: "run (mulle_aba_storage_grow_worldpointer E th fuel (w_size w + 1) (add_storage_and_increment_timestamp E th fuel) c) s =
       Ok (\<lparr>new_world_p = result_p i', old_world_p = q_world (q s)\<rparr>, u') (set_q_world (result_p i') t)"
    and post: "add_storage_post E (info_of a (q_world (q s))) c (placed s a ?v) i' u' t" by blast
  have "result_p i' = a" "moves E s w a (set_q_world (result_p i') t)"
    by (rule moves_added [OF assms(1,3) l(1) _ _ _ n l(2) _ assms(4) _ _ post]; use assms(2,5) in \<open>simp add: u\<close>)+
  with r show ?thesis by (intro that) simp_all
qed

text \<open>The first storages are reused.\<close>

lemma stores_cong:
  assumes "stores s' = stores s"
  shows "at_end E s' v = at_end E s v" "unused s' = unused s" "turns s' v = turns s v"
  using assms by (simp_all add: at_end_def stores_mapped_def turns_def unused_def fun_eq_iff)

lemma next_outside:
  assumes "wf_world E w" "w_timestamp w \<noteq> 0" "\<not> covers E w (w_timestamp w + 1)" "unat (w_timestamp w) < 2 ^ 62"
  shows "unat (w_timestamp w) + 1 = window_hi E w"
proof -
  have u: "unat (w_timestamp w + 1) = unat (w_timestamp w) + 1" by (rule unat_plus_1) (use assms(4) in simp)
  then have "w_timestamp w + 1 \<noteq> 0" by (metis unat_0 add_is_0 one_neq_zero)
  moreover have "w_offset w \<le> w_timestamp w" "unat (w_timestamp w) < window_hi E w"
    using assms(1,2) by (simp_all add: wf_world_def window_hi_def)
  ultimately show ?thesis
    using assms(3) u by (auto simp: covers_iff word_le_nat_alt window_hi_def)
qed

lemma full_nonzero: "core E s w \<Longrightarrow> w_n w = w_size w \<Longrightarrow> w_timestamp w \<noteq> 0"
proof
  assume c: "core E s w" "w_n w = w_size w" "w_timestamp w = 0"
  then have "w_size w = 0" using coreD(2) by metis
  then show False using wf_world_size(1) [OF layoutD(1) [OF coreD(1) [OF c(1)]]] by simp
qed

lemma at_end_full:
  assumes "wf_world E v" "stores_mapped s v" "w_timestamp v \<noteq> 0" "w_n v = w_size v"
    and "\<not> covers E v (w_timestamp v + 1)" "unat (w_timestamp v) < 2 ^ 62"
  shows "at_end E s v"
proof -
  note sh = wf_world_shape [OF assms(1)]
  note hi = next_outside [OF assms(1,3,5,6)]
  have n: "0 < unat (w_n v)" using assms(4) sh by (simp add: wf_shape_def)
  then have wi: "window_invar E v" using sh assms(4) by (simp add: window_invar_def)
  have "window_hi E v + unat (w_n v) * n_entries E < 2 ^ 62 + 1 + 2 ^ 32"
    unfolding hi [symmetric]
    by (rule add_strict_mono) (use assms(4,6) sh in \<open>simp_all add: wf_shape_def\<close>)
  then have "window_hi E v + unat (w_n v) * n_entries E < 2 ^ 63" by (rule less_trans) simp
  then show ?thesis using wi assms(2,3) hi by (simp add: at_end_def)
qed

lemma reuse_ready:
  assumes "layout E s v" "w_timestamp v \<noteq> 0" "w_n v = w_size v" "\<not> covers E v (w_timestamp v + 1)"
    and "unat (w_timestamp v) < 2 ^ 62"
  obtains f where "reuse_pre E s v f"
proof -
  note c = layoutD [OF assms(1)]
  obtain f where "free_prefix s v f" using free_prefix_exists [OF assms(1) next_outside [OF c(1) assms(2,4,5)]] by blast
  then show ?thesis
    using at_end_full [OF c(1) stores_mapped_layout [OF assms(1)] assms(2-5)] by (intro that) (simp add: reuse_pre_def)
qed

lemma moves_reorganize:
  assumes "movable E fuel s w" "w_n w = w_size w" "\<not> covers E w (w_timestamp w + 1)" "a = calloc_at E (drained s)"
    and "\<exists>i. Suc i < unat (w_n w) \<and> unused s (w_storage w ! i)"
  obtains c' t where
    "run (mulle_aba_storage_copy_change_worldpointer E th fuel Swap_free (q_world (q s))
       (reorganize_storage_and_increment_timestamp E th fuel) c) s
      = Ok (\<lparr>new_world_p = a, old_world_p = q_world (q s)\<rparr>, c') t" "moves E s w a t"
proof -
  let ?p = "q_world (q s)" and ?v = "copy_of w"
  let ?b = "placed s a ?v" and ?i = "info_of a ?p"
  note m = movableD [OF assms(1)]
  note l = layoutD [OF m(2)] and lc = layout_copy_of [OF m(2)]
  have cv: "\<not> covers E ?v (w_timestamp ?v + 1)" using assms(3) by (simp add: covers_iff)
  obtain f where f: "reuse_pre E s ?v f"
    by (rule reuse_ready [OF lc(1) _ _ cv]) (use full_nonzero [OF m(3) assms(2)] assms(2) m(7) in simp_all)
  note g = reuse_preD [OF f]
  have nth: "w_storage ?v ! i = w_storage w ! i" if "i < unat (w_n w)" for i
    using that assms(2) by simp
  have sb: "stores ?b = stores s" by simp
  note cg = stores_cong [OF sb]
  have fr: "free_ready E fuel ?i ?b ?v w"
    by (rule free_ready_placed [OF assms(1,4) wf_copy_of [OF layoutD(1) [OF m(2)]]]) simp_all
  have "at_end E ?b ?v" using g(1) cg(1) by simp
  moreover have "\<exists>k. Suc k < unat (w_n ?v) \<and> unused ?b (w_storage ?v ! k)"
    using assms(5) nth unfolding cg(2) copy_of_sel(6) by (metis Suc_lessD)
  ultimately have "reorg_pre E fuel ?i c ?b" unfolding reorg_pre_def using fr by blast
  from reorganize_change.run_copy_change [OF m(1) assms(4) this] obtain i' u' t where
    r: "run (mulle_aba_storage_copy_change_worldpointer E th fuel Swap_free ?p (reorganize_storage_and_increment_timestamp E th fuel) c) s =
       Ok (\<lparr>new_world_p = result_p i', old_world_p = ?p\<rparr>, u') (set_q_world (result_p i') t)"
    and post: "reorg_post E ?i c ?b i' u' t" by blast
  let ?j = "turns s ?v"
  let ?u = "(rotate_world E ^^ ?j) ?v"
  obtain mm where i': "i' = ?i\<lparr>new_bit := 0\<rparr>" and j: "0 < ?j" "?j < unat (w_n ?v)" and t: "t = advanced E a mm ?u ?b"
    using post unfolding reorg_post_def cg by auto
  have p: "result_p i' = a" using i' by (simp add: result_p_0)
  have "?j \<le> f" by (rule turns_prefix [OF g(2)]) (use j(2) in linarith)
  then have us: "\<forall>k < ?j. unused s (w_storage ?v ! k)" using g(2) by (auto simp: free_prefix_def)
  note lr = layout_rotate [OF lc(1) g(1) j us]
  note ro = rotated_next [OF g(1) wf_copy_of [OF l(1)] j]
  have cn: "covers E ?u (w_timestamp ?u + 1)" using ro(2) by (simp add: next_covered_def)
  have mv: "moved E s a ?u (stores s) (set_q_world a t)"
    unfolding t by (rule moved_advanced) simp_all
  have st: "stores (set_q_world a t) = mark_used E ?u (w_timestamp w + 1) (stores s)" using mv by (simp add: moved_def)
  have "0 < unat (w_n w)" using assms(5) by auto
  then have sl: "slot E ?u (w_timestamp w + 1) = Some (w_storage w ! 0, unat (w_timestamp w + 1) mod n_entries E)"
    using ro(4) nth by simp
  have "outrun E (set_q_world a t) ?u w"
    by (rule outrunI [OF m(2) st]) (use sl assms(3) in \<open>simp_all add: slot_def\<close>)
  then have "moves E s w a (set_q_world a t)"
    by (intro movesI [OF mv]) (use lr lc cn in simp_all)
  with r show ?thesis unfolding p by (rule that)
qed

text \<open>One of the four applies.\<close>

lemma run_free_change:
  assumes "movable E fuel s w" "a = calloc_at E (drained s)"
  obtains c' t where
    "run (free_change E th fuel (q_world (q s)) w (slot E w (w_timestamp w + 1)) c) s
      = Ok (\<lparr>new_world_p = a, old_world_p = q_world (q s)\<rparr>, c') t" "moves E s w a t"
proof (cases "covers E w (w_timestamp w + 1)")
  case True
  then have x: "slot E w (w_timestamp w + 1) \<noteq> None" by (simp add: slot_def)
  obtain c' t where "run (mulle_aba_storage_copy_change_worldpointer E th fuel Swap_free (q_world (q s))
      (increment_timestamp E th fuel) c) s = Ok (\<lparr>new_world_p = a, old_world_p = q_world (q s)\<rparr>, c') t" "moves E s w a t"
    using moves_increment [OF assms(1) True assms(2)] by blast
  with x show ?thesis by (intro that [of c' t]) (simp_all add: free_change_def)
next
  case False
  then have s: "slot E w (w_timestamp w + 1) = None" by (simp add: slot_def)
  note m = movableD [OF assms(1)]
  show ?thesis
  proof (cases "w_n w < w_size w")
    case True
    obtain c' t where "run (mulle_aba_storage_copy_change_worldpointer E th fuel Swap_free (q_world (q s))
        (add_storage_and_increment_timestamp E th fuel) c) s = Ok (\<lparr>new_world_p = a, old_world_p = q_world (q s)\<rparr>, c') t"
      "moves E s w a t"
      using moves_add [OF assms(1) True assms(2) s] by blast
    with True s show ?thesis by (intro that [of c' t]) (simp_all add: free_change_def)
  next
    case full: False
    moreover have "w_n w \<le> w_size w" using layoutD(9) [OF m(2)] by (simp add: wf_shape_def word_le_nat_alt)
    ultimately have n: "w_n w = w_size w" by simp
    have w: "worlds s (get_struct (q_world (q s))) = Some w" "get_struct (q_world (q s)) \<noteq> 0"
      using m(1) by (simp_all add: changeable_def)
    obtain f where f: "reuse_pre E s w f" by (rule reuse_ready [OF m(2) full_nonzero [OF m(3) n] n False m(7)])
    note cnt = run_count_at_end [OF w(2,1) reuse_preD(1) [OF f], of th]
    note cz = count_unused [where w = w and s = s]
    show ?thesis
    proof (cases "\<exists>i. Suc i < unat (w_n w) \<and> unused s (w_storage w ! i)")
      case none: False
      then have "\<forall>i. Suc i < unat (w_n w) \<longrightarrow> \<not> unused s (w_storage w ! i)" by blast
      then obtain c' t where "run (mulle_aba_storage_grow_worldpointer E th fuel (w_size w + 1)
          (add_storage_and_increment_timestamp E th fuel) c) s = Ok (\<lparr>new_world_p = a, old_world_p = q_world (q s)\<rparr>, c') t"
        "moves E s w a t"
        using moves_grow [OF assms(1) n assms(2) s] by blast
      with none full cnt cz s show ?thesis by (intro that [of c' t]) (simp_all add: free_change_def run_bnd)
    next
      case some: True
      obtain c' t where "run (mulle_aba_storage_copy_change_worldpointer E th fuel Swap_free (q_world (q s))
          (reorganize_storage_and_increment_timestamp E th fuel) c) s
          = Ok (\<lparr>new_world_p = a, old_world_p = q_world (q s)\<rparr>, c') t" "moves E s w a t"
        using moves_reorganize [OF assms(1) n False assms(2) some] by blast
      with some full cnt cz s show ?thesis by (intro that [of c' t]) (simp_all add: free_change_def run_bnd)
    qed
  qed
qed

section \<open>The invariant after the move\<close>

lemma gain_eq: "gain d = (\<lambda>x. x\<lparr>retain_count_1 := retain_count_1 x + d\<rparr>)"
  by (rule ext) (simp add: gain_def)

lemma ents_cong: "entries t = entries s \<Longrightarrow> q_free_entries (q t) = q_free_entries (q s) \<Longrightarrow> ents t P = ents s P"
  by (simp only: ents_def)

lemma once_drained:
  assumes "wrlds s P X" "a \<noteq> 0" "\<not> live (drained s) a" "worlds t = (worlds (drained s))(a \<mapsto> v)"
    and "q t = (q s)\<lparr>q_world := r, q_free_worlds := []\<rparr>" "entries t = entries s"
    and "w_size v \<noteq> 0" "unat (w_size v) \<le> length (w_storage v)"
  shows "wrlds t P (add_mset a X)"
proof -
  note w = assms(1) [unfolded wrlds_def]
  let ?M = "retired s P + mset (q_leaks (q s)) + X"
  have o: "once ?M" "set_mset ?M \<inter> set (q_free_worlds (q s)) = {}" "0 \<notin># ?M"
    using w by (auto simp: add.assoc)
  have d: "dom (worlds s) = set_mset ?M \<union> set (q_free_worlds (q s))" using w [THEN conjunct2, THEN conjunct1] by simp
  have dd: "dom (worlds (drained s)) = set_mset ?M"
    using d o(2) by (auto simp: restrict_map_def dom_def split: if_splits)
  have na: "a \<notin># ?M" using assms(3) unfolding live_def dd [symmetric] by blast
  have r: "retired t P = retired s P" using assms(6) by (simp add: retired_def)
  have sz: "w_size (the (worlds t b)) \<noteq> 0 \<and> unat (w_size (the (worlds t b))) \<le> length (w_storage (the (worlds t b)))"
    if b: "b \<in># ?M + {#a#}" for b
  proof (cases "b = a")
    case True
    then show ?thesis using assms(4,7,8) by simp
  next
    case False
    then have bM: "b \<in># ?M" using b by simp
    then have "b \<notin> set (q_free_worlds (q s))" using o(2) by blast
    then have "worlds t b = worlds s b" using assms(4) False by (simp add: restrict_map_def)
    then show ?thesis using w bM by simp
  qed
  have M: "retired t P + mset (q_leaks (q t)) + add_mset a X + mset (q_free_worlds (q t)) = add_mset a ?M"
    "retired t P + mset (q_leaks (q t)) + add_mset a X = ?M + {#a#}"
    using r assms(5) by simp_all
  have dt: "dom (worlds t) = insert a (set_mset ?M)" using assms(4) dd by simp
  show ?thesis
    unfolding wrlds_def M dt using o na assms(2,5) sz by simp
qed

lemma moves_inv:
  assumes "inv E s w X" "movable E fuel s w" "moves E s w a t" "a = calloc_at E (drained s)" "registered s \<noteq> {}"
  obtains w' x j ts where "worlds t a = Some w'" "slot E w' (w_timestamp w') = Some (x, j)" "x \<noteq> 0"
    "stores t x = Some ts" "j < length (ts_entries ts)" "w_n_threads w' = w_n_threads w" "w_timestamp w' \<noteq> 0"
    "worlds t (get_struct (q_world (q s))) = Some w" "get_struct (q_world (q s)) \<noteq> a" "covers E w' (w_timestamp w')"
    "wf_shape E w'" "q_world (q t) = a"
    "inv E (t\<lparr>stores := (stores t)(x \<mapsto> ts_upd j (gain (w_n_threads w)) ts)\<rparr>) w' (add_mset (get_struct (q_world (q s))) X)"
    "waiting E (t\<lparr>stores := (stores t)(x \<mapsto> ts_upd j (gain (w_n_threads w)) ts)\<rparr>) w' = waiting E s w"
    "grew 2 s w (t\<lparr>stores := (stores t)(x \<mapsto> ts_upd j (gain (w_n_threads w)) ts)\<rparr>) w'" "outrun E t w' w"
    "spares E R s w X (t\<lparr>stores := (stores t)(x \<mapsto> ts_upd j (gain (w_n_threads w)) ts)\<rparr>) w' (add_mset (get_struct (q_world (q s))) X)"
proof -
  let ?p = "q_world (q s)"
  note m = movableD [OF assms(2)] and i = invD [OF assms(1)]
  note n = changeable_new [OF m(1), folded assms(4)]
  obtain v S where mv: "moved E s a v S t" and l: "layout E (s\<lparr>stores := S\<rparr>) v"
    and wt: "waiting E (s\<lparr>stores := S\<rparr>) v = waiting E s w" and e: "w_timestamp v = w_timestamp w"
    "w_n_threads v = w_n_threads w" and cv: "covers E v (w_timestamp v + 1)" and sz: "unat (w_size v) \<le> unat (w_size w) + 1"
    and bl: "blocks t \<le> blocks s + 2" and orn: "outrun E t v w" and dS: "dom (stores s) \<subseteq> dom S"
    using assms(3) unfolding moves_def by blast
  have t: "worlds t = (worlds (drained s))(a \<mapsto> bumped v)" "stores t = mark_used E v (w_timestamp v + 1) S"
    "entries t = entries s" "q t = (q s)\<lparr>q_world := a, q_free_worlds := []\<rparr>" "tss t = tss s"
    using mv by (simp_all add: moved_def)
  let ?t = "w_timestamp v + 1"
  note lv = layoutD [OF l]
  let ?x = "w_storage v ! slot_index E v ?t" and ?j = "unat ?t mod n_entries E"
  have u: "unat ?t = unat (w_timestamp v) + 1" by (rule unat_plus_1) (use m(7) e in simp)
  have sl: "slot E v ?t = Some (?x, ?j)" using cv by (simp add: slot_def)
  have nz: "?t \<noteq> 0" "slot_index E v ?t < unat (w_n v)" using cv by (simp_all add: covers_def)
  have x: "?x \<noteq> 0" using wf_shape_storage_nonzero [OF lv(9) nz(2)] by blast
  have iw: "in_window E v (unat ?t)" using in_window_covers [OF lv(9) nz(1) refl] cv by simp
  have st: "stor E v (unat ?t) = ?x" using slot_stor [OF lv(9) cv] sl by simp
  obtain ts0 where ts0: "S ?x = Some ts0" "length (ts_entries ts0) = n_entries E"
    using slots_ok_shape [OF lv(8,9) iw] st by (auto simp: store_shape_def)
  define ts where "ts = ts0\<lparr>usage_bits := set_mask (usage_bits ts0) (word_of_nat ?j) 1\<rparr>"
  have ts: "stores t ?x = Some ts" "?j < length (ts_entries ts)"
    using t(2) sl ts0 by (simp_all add: mark_used_def ts_def)
  define s1 where "s1 = t\<lparr>stores := (stores t)(?x \<mapsto> ts_upd ?j (gain (w_n_threads w)) ts)\<rparr>"
  have S1: "stores s1 = upd_at E v (unat (w_timestamp v) + 1) (gain (w_n_threads v)) (mark_used E v ?t S)"
    using ts(1) t(2) st u e(2) by (simp add: s1_def upd_at_def)
  have rg: "registered (s\<lparr>stores := S\<rparr>) \<noteq> {}" using assms(5) by (simp add: registered_def)
  have b: "core E s1 (bumped v)" "waiting E s1 (bumped v) = waiting E (s\<lparr>stores := S\<rparr>) v"
    by (rule core_bumped [OF l cv _ rg _]; use S1 m(7) e t(5) in \<open>simp add: s1_def\<close>)+
  have wt1: "waiting E s1 (bumped v) = waiting E s w" using b(2) wt by simp
  have q1: "q s1 = (q s)\<lparr>q_world := a, q_free_worlds := []\<rparr>" "entries s1 = entries s" "tss s1 = tss s"
    "worlds s1 = (worlds (drained s))(a \<mapsto> bumped v)"
    using t by (simp_all add: s1_def)
  have al: "get_struct a = a" "get_lock a = 0" "get_bit' a = 0"
    using get_struct_aligned [OF n(2)] n(2) by (simp_all add: get_lock_iff get_bit_iff aligned_iff_bits)
  have tsb: "unat (w_timestamp (bumped v)) = unat (w_timestamp w) + 1" using u e by simp
  have en: "ents s1 (image_mset fst (waiting E s w))"
    using i(7) ents_cong [of s1 s] q1 by simp
  have wr: "wrlds s1 (image_mset fst (waiting E s w)) (add_mset a (add_mset (get_struct ?p) X))"
    by (rule once_drained [OF i(8) n(1,3) q1(4,1,2)])
      (use wf_world_size [OF layoutD(1) [OF coreD(1) [OF b(1)]]] in simp_all)
  have "live s1 = live t" using ts(1) by (auto simp: s1_def live_def fun_eq_iff)
  moreover have "w_n w < w_size w \<Longrightarrow> w_size (bumped v) = w_size w" using orn by (simp add: outrun_def)
  ultimately have gr: "grew 2 s w s1 (bumped v)" using bl sz tsb by (simp add: grew_def blocks_def)
  have "w_n_threads w \<noteq> 0" using m(6) by auto
  then have "inv E s1 (bumped v) (add_mset (get_struct ?p) X)"
    unfolding inv_def
    using al n(1) q1 b(1) wt1 en wr m(6) e nz layoutD(10) [OF m(2)] tsb
    by (simp add: good_state_def registered_def)
  moreover have "worlds t (get_struct ?p) = Some w" "get_struct ?p \<noteq> a" using t(1) n(4,5) by simp_all
  moreover have "outrun E t (bumped v) w" using orn by (simp add: outrun_def)
  moreover have "spares E R s w X s1 (bumped v) (add_mset (get_struct ?p) X)"
  proof (rule spares_kept [OF _ _ wt1 q1(2)])
    have "dom (stores s1) = dom (stores t)" using ts(1) by (auto simp: s1_def)
    also have "\<dots> = dom S" by (simp add: t(2))
    finally show "dom (stores s) \<subseteq> dom (stores s1)" using dS by simp
    show "worlds s1 b = Some y" if "worlds s b = Some y" "w_size y \<noteq> 0" for b y
      using drained_worlds [OF inv_cached(1) [OF assms(1)] that] n(3) q1(4) by (auto simp: live_def)
  qed (use q1(1) in \<open>simp_all add: subset_insertI\<close>)
  ultimately show ?thesis
    using t(1,4) sl x ts e nz(1) cv lv(9) wt1 gr
    by (intro that [of "bumped v" ?x ?j ts]) (simp_all add: s1_def wf_shape_def)
qed

end
