(* ===== verification/Aba_Free.thy ===== *)
theory Aba_Free
  imports Aba_Move
begin

text \<open>
  Freeing a pointer, on a storage that satisfies the invariant: with one registered thread
  the free function is called at once; otherwise the pointer waits for all threads registered then.
\<close>

section \<open>Adding to the list of the present timestamp\<close>

definition delayed_entry :: "fnptr \<Rightarrow> uptr \<Rightarrow> uptr \<Rightarrow> freeentry" where
  "delayed_entry f ptr owner = zero_entry\<lparr>fe_owner := owner, fe_pointer := ptr, fe_free := Some f\<rparr>"

lemma delayed_entry_sel [simp]:
  "fe_free (delayed_entry f ptr owner) = Some f" "fe_pointer (delayed_entry f ptr owner) = ptr"
  "fe_owner (delayed_entry f ptr owner) = owner"
  by (simp_all add: delayed_entry_def)

definition push :: "ext \<Rightarrow> uptr \<Rightarrow> timestampentry \<Rightarrow> timestampentry" where
  "push E e = (\<lambda>x. x\<lparr>pointer_list := x_add E e (pointer_list x)\<rparr>)"

text \<open>A world handed to the storage leaves the worlds in flight; a client's pointer does not concern them.\<close>

definition handed :: "fnptr \<Rightarrow> uptr \<Rightarrow> uptr multiset" where
  "handed f ptr = (if f = Fn_owned_pointer_free_world then {#ptr#} else {#})"

lemma world_ptrs_delayed: "mset (world_ptrs (delayed_entry f ptr owner)) = handed f ptr"
  by (simp add: world_ptrs_def handed_def)

lemma retired_upd: "e \<notin># P \<Longrightarrow> entries t = (entries s)(e \<mapsto> y) \<Longrightarrow> retired t P = retired s P"
  unfolding retired_def by (intro arg_cong [of _ _ sum_mset] image_mset_cong) auto

lemma layout_pushed:
  assumes "layout E s w" "in_window E w t0" "hold s w t0 \<noteq> {}" "list_ok E" "tss t = tss s"
    and "stores t = upd_at E w t0 (push E e) (stores s)"
  shows "layout E t w" "waiting E t w = add_mset (e, hold s w t0) (waiting E s w)"
proof -
  note c = layoutD [OF assms(1)]
  have h: "hold t w = hold s w" "registered t = registered s"
    using assms(5) by (simp_all add: hold_def registered_def fun_eq_iff)
  have "entry_ok (hold s w t0) (push E e (entry_at E (stores s) w t0)) (bit_at E (stores s) w t0)"
    using slots_ok_entry [OF c(8) assms(2)] assms(3) by (simp add: entry_ok_def push_def)
  from slots_ok_upd [where f = "push E e" and S = "stores s", OF c(8,9,6) assms(2) this]
  have "slots_ok E (stores t) w (hold t w)" unfolding assms(6) h by simp
  then show "layout E t w" using c h assms(5,6) by (simp add: layout_def)
  note sh = slots_ok_shape [OF c(8,9) assms(2)]
  have "mset (pointer_list (push E e (entry_at E (stores s) w t0))) = add_mset e (mset (pointer_list (entry_at E (stores s) w t0)))"
    using x_add_mset [OF assms(4)] by (simp add: push_def)
  with pend_upd [where f = "push E e" and S = "stores s" and H' = "hold s w" and H = "hold s w", OF c(9,6) assms(2) sh]
  show "waiting E t w = add_mset (e, hold s w t0) (waiting E s w)"
    unfolding waiting_def assms(6) h by simp
qed

lemma ents_pushed:
  assumes "ents s P" "e \<noteq> 0" "fn_ok f owner"
    and "(entries s e = Some zero_entry \<and> mset (q_free_entries (q s)) = add_mset e (mset xs))
      \<or> (entries s e = None \<and> q_free_entries (q s) = [] \<and> xs = [] \<and> \<not> live s e)"
    and "entries t = (entries s)(e \<mapsto> delayed_entry f ptr owner)" "q_free_entries (q t) = xs"
  shows "ents t (add_mset e P)" "e \<notin># P"
proof -
  note d = entsD [OF assms(1)]
  have w: "set_mset (P + mset (q_free_entries (q s))) = dom (entries s)" "0 \<notin># P + mset (q_free_entries (q s))"
    "once (P + mset (q_free_entries (q s)))"
    using assms(1) unfolding ents_def by blast+
  show e: "e \<notin># P"
  proof
    assume eP: "e \<in># P"
    then have "entries s e \<noteq> None" using d(5) [OF eP] by auto
    with assms(4) have "e \<in># mset (q_free_entries (q s))" by auto
    then show False using d(3) eP by auto
  qed
  have en: "entries t x = entries s x" if "x \<in># P" for x using that e assms(5) by auto
  let ?M = "add_mset e P + mset xs"
  have M: "once ?M \<and> set_mset ?M = dom (entries t) \<and> 0 \<notin># ?M"
  proof (cases "entries s e = None")
    case True
    then have x: "q_free_entries (q s) = []" "xs = []" using assms(4) by auto
    then show ?thesis using w d(1) e assms(2,5) by simp
  next
    case False
    then have eq: "?M = P + mset (q_free_entries (q s))" using assms(4) by auto
    have dm: "dom (entries t) = dom (entries s)" using False assms(5) by auto
    show ?thesis unfolding eq dm using w by blast
  qed
  have xs: "entries t x = Some zero_entry" if "x \<in> set xs" for x
  proof -
    have "x \<in> set (q_free_entries (q s))" using assms(4) that
      by (metis in_multiset_in_set insertCI list.set(1) emptyE set_mset_add_mset_insert)
    moreover have "x \<noteq> e" using M that by auto
    ultimately show ?thesis using d(4) assms(5) by simp
  qed
  have due: "fe_free (the (entries t x)) \<noteq> None
      \<and> fn_ok (the (fe_free (the (entries t x)))) (fe_owner (the (entries t x)))"
    if x: "x \<in># add_mset e P" for x
  proof (cases "x = e")
    case True
    then show ?thesis using assms(3,5) by simp
  next
    case False
    then have xP: "x \<in># P" using x by simp
    then show ?thesis unfolding en [OF xP] using d(5) [OF xP] by auto
  qed
  show "ents t (add_mset e P)"
    unfolding ents_def assms(6) using M xs due by blast
qed

lemma wrlds_pushed:
  assumes "wrlds s P X'" "e \<notin># P" "X' = X + handed f ptr"
    and "entries t = (entries s)(e \<mapsto> delayed_entry f ptr owner)" "worlds t = worlds s"
    and "q_free_worlds (q t) = q_free_worlds (q s)" "q_leaks (q t) = q_leaks (q s)"
  shows "wrlds t (add_mset e P) X"
proof -
  have r: "retired t (add_mset e P) = retired s P + handed f ptr"
    using retired_upd [OF assms(2,4)] assms(4) world_ptrs_delayed [of f ptr owner]
    by (simp add: retired_def)
  have M: "retired s P + handed f ptr + L + X = retired s P + L + X'" for L
    unfolding assms(3) by (simp add: ac_simps)
  show ?thesis using assms(1) unfolding wrlds_def r assms(5-7) M by blast
qed

lemma guards_pushed:
  assumes "e \<notin># image_mset fst W" "r \<in> h" "guards N W r a \<or> a \<in># handed f ptr"
  shows "guards (N(e \<mapsto> delayed_entry f ptr owner)) (add_mset (e, h) W) r a"
proof (cases "a \<in># handed f ptr")
  case True
  then have "a \<in> set (world_ptrs (delayed_entry f ptr owner))" using world_ptrs_delayed [of f ptr owner] by (metis set_mset_mset)
  then show ?thesis using assms(2) by (simp add: guards_def)
next
  case False
  then obtain x where "x \<in># W" "r \<in> snd x" "a \<in> set (world_ptrs (the (N (fst x))))" using assms(3) by (auto simp: guards_def)
  moreover from this have "fst x \<noteq> e" using assms(1) by auto
  ultimately show ?thesis unfolding guards_def by (intro bexI [of _ x]) simp_all
qed

text \<open>One pointer is added to the list of the present timestamp.\<close>

lemma delay_one:
  assumes "inv E s w X'" "ext_ok E" "room E s (Suc k)" "get_bit' (q_world (q s)) = 0" "registered s \<noteq> {}"
    and "slot E w (w_timestamp w) = Some (x, j)" "X' = X + handed f ptr" "fn_ok f owner"
  obtains e s1 s2 t where "run (mulle_aba_storage_alloc_freeentry E) s = Ok e s1" "e \<noteq> 0"
    "run (mulle_aba_freeentry_set e f ptr owner) s1 = Ok () s2" "run (entry_add_pointer E (x, j) e) s2 = Ok () t"
    "inv E t w X" "waiting E t w = add_mset (e, registered s) (waiting E s w)"
    "pending E t w = pending E s w + image_mset (\<lambda>c. (c, registered s)) (mset (client_calls (delayed_entry f ptr owner)))"
    "tss t = tss s" "trace t = trace s" "q_world (q t) = q_world (q s)" "worlds t = worlds s" "worlds s1 = worlds s"
    "room E t k" "blocks t \<le> Suc (blocks s)" "spares E (registered s) s w X' t w X"
proof -
  note i = invD [OF assms(1)]
  note c = layoutD [OF coreD(1) [OF i(6)]]
  let ?P = "image_mset fst (waiting E s w)" and ?t = "unat (w_timestamp w)"
  obtain e m xs where al: "run (mulle_aba_storage_alloc_freeentry E) s = Ok e
      (s\<lparr>nops := m, entries := (entries s)(e \<mapsto> zero_entry), q := (q s)\<lparr>q_free_entries := xs\<rparr>\<rparr>)"
    and e: "e \<noteq> 0" "(entries s e = Some zero_entry \<and> mset (q_free_entries (q s)) = add_mset e (mset xs))
      \<or> (entries s e = None \<and> q_free_entries (q s) = [] \<and> xs = [] \<and> \<not> live s e)"
    by (rule run_alloc_freeentry [OF assms(2,3) inv_cached(2) [OF assms(1)]])
  let ?s1 = "s\<lparr>nops := m, entries := (entries s)(e \<mapsto> zero_entry), q := (q s)\<lparr>q_free_entries := xs\<rparr>\<rparr>"
  let ?s2 = "?s1\<lparr>entries := (entries s)(e \<mapsto> delayed_entry f ptr owner)\<rparr>"
  have st: "run (mulle_aba_freeentry_set e f ptr owner) ?s1 = Ok () ?s2"
    using run_freeentry_set [OF e(1), of ?s1 zero_entry f ptr owner] by (simp add: delayed_entry_def)
  have cv: "covers E w (w_timestamp w)" using assms(6) by (auto simp: slot_def split: if_splits)
  then have nz: "w_timestamp w \<noteq> 0" by (simp add: covers_def)
  have iw: "in_window E w ?t" using in_window_covers [OF c(9) nz refl] cv by simp
  have xj: "stor E w ?t = x" "j = ?t mod n_entries E" using slot_stor [OF c(9) cv] assms(6) by simp_all
  obtain ts where ts: "stores s x = Some ts" "length (ts_entries ts) = n_entries E"
    using slots_ok_shape [OF c(8,9) iw] xj(1) by (auto simp: store_shape_def)
  have x: "x \<noteq> 0" using stor_nonzero [OF c(9) iw] xj(1) by simp
  let ?t3 = "?s2\<lparr>stores := (stores s)(x \<mapsto> ts_upd j (push E e) ts)\<rparr>"
  have ap: "run (entry_add_pointer E (x, j) e) ?s2 = Ok () ?t3"
    using run_entry_ops(3) [OF x, of ?s2 ts j E e] ts xj(2) by (simp add: push_def)
  have h: "hold s w ?t = registered s"
    using i(5) assms(4) by (auto simp: hold_def registered_def)
  have S: "stores ?t3 = upd_at E w ?t (push E e) (stores s)"
    using ts(1) xj by (simp add: upd_at_def)
  note l = layout_pushed [OF coreD(1) [OF i(6)] iw _ ext_ok_parts(2) [OF assms(2)] _ S, unfolded h, OF assms(5)]
  have L: "layout E ?t3 w" "waiting E ?t3 w = add_mset (e, registered s) (waiting E s w)" by (rule l; simp)+
  note en = ents_pushed [where t = ?t3 and f = f and owner = owner and ptr = ptr, OF i(7) e(1) assms(8) e(2)]
  have eP: "e \<notin># ?P" by (rule en(2)) simp_all
  have EN: "ents ?t3 (add_mset e ?P)" by (rule en(1)) simp_all
  have WR: "wrlds ?t3 (add_mset e ?P) (add_mset (get_struct (q_world (q s))) X)"
    by (rule wrlds_pushed [where f = f and ptr = ptr and owner = owner, OF i(8) eP]) (simp_all add: assms(7))
  have rg: "registered ?t3 = registered s" by (simp add: registered_def)
  have "core E ?t3 w" using L(1) coreD(2) [OF i(6)] by (simp add: core_def)
  then have I: "inv E ?t3 w X"
    unfolding inv_def L(2) rg using i(1-5) EN WR by simp
  have PE: "pending E ?t3 w = pending E s w + image_mset (\<lambda>c. (c, registered s)) (mset (client_calls (delayed_entry f ptr owner)))"
  proof -
    have "image_mset (\<lambda>x. image_mset (\<lambda>c. (c, snd x)) (mset (client_calls (the (entries ?t3 (fst x)))))) (waiting E s w)
      = image_mset (\<lambda>x. image_mset (\<lambda>c. (c, snd x)) (mset (client_calls (the (entries s (fst x)))))) (waiting E s w)"
      using eP by (intro image_mset_cong) auto
    then show ?thesis unfolding pending_def L(2) by (simp add: union_commute)
  qed
  have lv: "live ?t3 x \<Longrightarrow> live s x \<or> x = e" for x
    using ts(1) by (auto simp: live_def split: if_splits)
  note RM = room_insert [OF assms(3) lv] blocks_insert [OF lv]
  have "guards (entries ?t3) (waiting E ?t3 w) r a" if "r \<in> registered s" "guards (entries s) (waiting E s w) r a \<or> a \<in># handed f ptr" for r a
    using guards_pushed [OF eP that, of owner] L(2) by simp
  then have SP: "spares E (registered s) s w X' ?t3 w X"
    unfolding spares_def readable_def assms(7) using ts(1) by auto
  show ?thesis by (rule that [OF al e(1) st ap I L(2) PE _ _ _ _ _ RM SP]) simp_all
qed

section \<open>Freeing\<close>

text \<open>What an API call needs of its environment: room for \<open>k\<close> blocks, fuel for the cached worlds, the timestamps
  of the window and the spurious failures, and that timestamps and the size of the world stay in range.\<close>

definition ready :: "ext \<Rightarrow> nat \<Rightarrow> nat \<Rightarrow> mem \<Rightarrow> world \<Rightarrow> bool" where
  "ready E fuel k s w \<longleftrightarrow> ext_ok E \<and> room E s k
     \<and> (\<exists>F. weak_bound E F \<and> F + unat (w_n w) * n_entries E + length (q_free_worlds (q s)) + 4 \<le> fuel)
     \<and> unat (w_timestamp w) < 2 ^ 62 \<and> (unat (w_size w) + 1) * n_entries E < 2 ^ 32"

lemma readyD:
  assumes "ready E fuel k s w"
  shows "ext_ok E" "weak_bound E fuel" "length (q_free_worlds (q s)) + 4 \<le> fuel" "room E s k"
    "unat (w_timestamp w) < 2 ^ 62" "(unat (w_size w) + 1) * n_entries E < 2 ^ 32"
    "\<exists>F. weak_bound E F \<and> F + unat (w_n w) * n_entries E + length (q_free_worlds (q s)) + 4 \<le> fuel"
proof -
  show F: "\<exists>F. weak_bound E F \<and> F + unat (w_n w) * n_entries E + length (q_free_worlds (q s)) + 4 \<le> fuel"
    using assms unfolding ready_def by blast
  then show "weak_bound E fuel" "length (q_free_worlds (q s)) + 4 \<le> fuel"
    by (auto elim: weak_bound_mono)
qed (use assms in \<open>unfold ready_def, blast+\<close>)

lemma next_slot_index:
  assumes "wf_world E w" "\<not> covers E w (w_timestamp w + 1)" "unat (w_timestamp w) < 2 ^ 62"
    and "w_timestamp w = 0 \<longrightarrow> w_n w = 0"
  shows "slot_index E w (w_timestamp w + 1) = unat (w_n w)" "w_timestamp w + 1 \<noteq> 0" "w_offset w \<le> w_timestamp w + 1"
    "w_timestamp w + 1 - w_offset w \<le> w_timestamp w + 1"
proof -
  have u: "unat (w_timestamp w + 1) = unat (w_timestamp w) + 1" by (rule unat_plus_1) (use assms(3) in simp)
  then show nz: "w_timestamp w + 1 \<noteq> 0" by (metis unat_0 add_is_0 one_neq_zero)
  have o: "unat (w_offset w) \<le> unat (w_timestamp w)" using assms(1) by (auto simp: wf_world_def word_le_nat_alt)
  then show le: "w_offset w \<le> w_timestamp w + 1" using u by (simp add: word_le_nat_alt)
  show "w_timestamp w + 1 - w_offset w \<le> w_timestamp w + 1"
    using le u by (simp add: word_le_nat_alt unat_sub)
  show "slot_index E w (w_timestamp w + 1) = unat (w_n w)"
  proof (cases "w_timestamp w = 0")
    case True
    then have "w_n w = 0" "w_offset w = 0" using assms(1,4) by (simp_all add: wf_world_def)
    with True show ?thesis by (simp add: slot_index_def n_entries_def)
  next
    case False
    from next_outside [OF assms(1) False assms(2,3)] have "unat (w_timestamp w + 1) - unat (w_offset w) = unat (w_n w) * n_entries E"
      using u by (simp add: window_hi_def)
    then show ?thesis by (simp add: slot_index_def)
  qed
qed

lemma run_lookup_next:
  assumes "a \<noteq> 0" "worlds s a = Some w" "wf_world E w" "w_timestamp w = 0 \<longrightarrow> w_n w = 0" "unat (w_timestamp w) < 2 ^ 62"
  obtains er where "run (mulle_aba_world_get_timestampentry E th a (w_timestamp w + 1)) s
    = Ok (slot E w (w_timestamp w + 1)) (s\<lparr>errno := er\<rparr>)"
proof (cases "covers E w (w_timestamp w + 1)")
  case True
  have "s\<lparr>errno := errno s\<rparr> = s" by simp
  with run_get_timestampentry_covered [OF assms(1,2) wf_world_shape [OF assms(3)] True] show ?thesis
    by (intro that [of "errno s"]) simp
next
  case False
  note i = next_slot_index [OF assms(3) False assms(5,4)]
  have "slot E w (w_timestamp w + 1) = None" using False by (simp add: slot_def)
  with run_get_timestampentry_past [OF assms(1,2) i(2,3,1,4)] show ?thesis by (intro that) simp
qed

lemma sle_1: "unat a < 2 ^ 63 \<Longrightarrow> a \<le>s (1 :: uptr) \<longleftrightarrow> unat a \<le> 1"
proof -
  assume a: "unat a < 2 ^ 63"
  have "a \<le>s 1 \<longleftrightarrow> \<not> 1 <s a" by (simp add: word_sless_alt word_sle_eq not_less)
  then show ?thesis using sless_unat [OF _ a, of 1] by (simp add: not_less)
qed

text \<open>The pending calls a freed pointer adds.\<close>

definition due :: "fnptr \<Rightarrow> uptr \<Rightarrow> uptr \<Rightarrow> event list" where
  "due f ptr owner = client_calls (delayed_entry f ptr owner)"

lemma due_world [simp]: "due Fn_owned_pointer_free_world ptr owner = []"
  by (simp add: due_def client_calls_def)

lemma due_client [simp]: "due (Fn_client g) ptr owner = [Call2 g ptr owner]" "due Fn_no_owner_free ptr owner = [Call1 owner ptr]"
  by (simp_all add: due_def client_calls_def)

text \<open>The worlds this call replaced: none, or the one it started from.\<close>

lemma run_free_worlds_delayed:
  assumes "inv E s w X'" "ext_ok E" "room E s (Suc k)" "get_bit' (q_world (q s)) = 0" "registered s \<noteq> {}"
    and "slot E w (w_timestamp w) = Some e" "old = 0 \<and> X' = X \<or> old \<noteq> 0 \<and> X' = add_mset old X \<and> map_option w_link (worlds s old) = Some 0"
    and "1 < fuel"
  obtains t where "run (free_worlds_delayed E fuel e old) s = Ok () t" "inv E t w X" "pending E t w = pending E s w"
    "tss t = tss s" "trace t = trace s" "q_world (q t) = q_world (q s)" "blocks t \<le> Suc (blocks s)"
    "spares E (registered s) s w X' t w X"
proof (cases "old = 0")
  case True
  then show ?thesis using assms(1,7,8) by (intro that [of s]) (cases fuel, simp_all)
next
  case False
  obtain g where fuel: "fuel = Suc (Suc g)" using assms(8) by (cases fuel; cases "fuel - 1") auto
  obtain x j where e: "e = (x, j)" by (cases e)
  obtain v where v: "worlds s old = Some v" "w_link v = 0" using assms(7) False by auto
  have self: "fn_ok Fn_owned_pointer_free_world (x_self E)" using ext_ok_parts(3) [OF assms(2)] by simp
  have X: "X' = X + handed Fn_owned_pointer_free_world old" using assms(7) False by (simp add: handed_def)
  obtain d s1 s2 t where r: "run (mulle_aba_storage_alloc_freeentry E) s = Ok d s1" "d \<noteq> 0"
    "run (mulle_aba_freeentry_set d Fn_owned_pointer_free_world old (x_self E)) s1 = Ok () s2"
    "run (entry_add_pointer E (x, j) d) s2 = Ok () t"
    and t: "inv E t w X" "pending E t w = pending E s w
      + image_mset (\<lambda>c. (c, registered s)) (mset (client_calls (delayed_entry Fn_owned_pointer_free_world old (x_self E))))"
    "tss t = tss s" "trace t = trace s" "q_world (q t) = q_world (q s)" "worlds s1 = worlds s" "blocks t \<le> Suc (blocks s)"
    "spares E (registered s) s w X' t w X"
    by (rule delay_one [OF assms(1-5) assms(6) [unfolded e] X self])
  have "run (load_world old) s1 = Ok v s1" using False v(1) t(6) by (simp add: exec)
  with r v(2) have "run (free_worlds_delayed E fuel e old) s = Ok () t"
    using False by (simp add: fuel e exec)
  then show ?thesis using t by (intro that [of t]) (simp_all add: due_def [symmetric])
qed

text \<open>While the bit of the world pointer is clear, the pointer goes on the list of the present timestamp.\<close>

lemma run_free_loop_puts:
  assumes "inv E s w X" "get_bit' (q_world (q s)) = 0" "registered s \<noteq> {}"
  obtains x j where "slot E w (w_timestamp w) = Some (x, j)" "run (free_loop E th (Suc g) f ptr owner (q_world (q s)) old c) s
    = run (free_put E th (Suc g) f ptr owner (get_struct (q_world (q s))) (x, j) old) s"
proof -
  let ?a = "get_struct (q_world (q s))"
  note i = invD [OF assms(1)]
  note l = layoutD [OF coreD(1) [OF i(6)]]
  have "w_n_threads w \<noteq> 0" using l(3,4) assms(3) by (metis card_0_eq unat_eq_zero)
  then have nz: "w_timestamp w \<noteq> 0" using i(4) assms(2) by (simp add: good_state_def)
  note cv = wf_world_covers [OF l(1) nz]
  obtain x j where sl: "slot E w (w_timestamp w) = Some (x, j)" using cv by (auto simp: slot_def)
  have lk: "run (mulle_aba_world_get_timestampentry E th ?a (w_timestamp w)) s = Ok (Some (x, j)) s"
    using run_get_timestampentry_covered [OF i(1,3) l(9) cv] sl by simp
  have ld: "run (load_world ?a) s = Ok w s" using i(1,3) by (simp add: exec)
  with lk sl assms(2) show ?thesis by (intro that) (simp_all add: Let_def run_bnd)
qed

lemma run_free_loop_0:
  assumes "inv E s w X'" "ext_ok E" "room E s (Suc (Suc k))" "get_bit' (q_world (q s)) = 0" "registered s \<noteq> {}"
    and "old = 0 \<and> X' = X + handed f ptr \<or> old \<noteq> 0 \<and> X' = add_mset old (X + handed f ptr) \<and> map_option w_link (worlds s old) = Some 0"
    and "fn_ok f owner" "1 < fuel"
  obtains t where "run (free_loop E th fuel f ptr owner (q_world (q s)) old c) s = Ok 0 t" "inv E t w X"
    "pending E t w = pending E s w + image_mset (\<lambda>c. (c, registered s)) (mset (due f ptr owner))"
    "tss t = tss s" "trace t = trace s" "q_world (q t) = q_world (q s)" "blocks t \<le> blocks s + 2"
    "spares E (registered s) s w X' t w X"
proof -
  let ?a = "get_struct (q_world (q s))"
  obtain g where fuel: "fuel = Suc g" using assms(8) by (cases fuel) auto
  note i = invD [OF assms(1)]
  obtain x j where sl: "slot E w (w_timestamp w) = Some (x, j)" and pt: "run (free_loop E th (Suc g) f ptr owner (q_world (q s)) old c) s
    = run (free_put E th (Suc g) f ptr owner ?a (x, j) old) s" by (rule run_free_loop_puts [OF assms(1,4,5)])
  have sa: "run (mulle_aba_world_assert_sanity E th ?a) s = Ok () s" by (rule run_assert_sanity [OF i(1,3) layoutD(1) [OF coreD(1) [OF i(6)]]])
  define Y where "Y = (if old = 0 then X else add_mset old X)"
  have X: "X' = Y + handed f ptr" using assms(6) by (auto simp: Y_def)
  obtain d s1 s2 t where r: "run (mulle_aba_storage_alloc_freeentry E) s = Ok d s1" "d \<noteq> 0"
    "run (mulle_aba_freeentry_set d f ptr owner) s1 = Ok () s2" "run (entry_add_pointer E (x, j) d) s2 = Ok () t"
    and t: "inv E t w Y" "pending E t w = pending E s w + image_mset (\<lambda>c. (c, registered s)) (mset (due f ptr owner))"
    "tss t = tss s" "trace t = trace s" "q_world (q t) = q_world (q s)" "worlds t = worlds s" "room E t (Suc k)"
    "blocks t \<le> Suc (blocks s)" "spares E (registered s) s w X' t w Y"
    unfolding due_def by (rule delay_one [OF assms(1-5) sl X assms(7)])
  have rg: "registered t = registered s" using t(3) by (simp add: registered_def)
  have o: "old = 0 \<and> Y = X \<or> old \<noteq> 0 \<and> Y = add_mset old X \<and> map_option w_link (worlds t old) = Some 0"
    using assms(6) t(6) by (auto simp: Y_def)
  obtain u where u: "run (free_worlds_delayed E fuel (x, j) old) t = Ok () u" "inv E u w X" "pending E u w = pending E t w"
    "tss u = tss t" "trace u = trace t" "q_world (q u) = q_world (q t)" "blocks u \<le> Suc (blocks t)"
    "spares E (registered t) t w Y u w X"
    by (rule run_free_worlds_delayed [OF t(1) assms(2) t(7) _ _ sl o assms(8)]) (use t(5) rg assms(4,5) in simp_all)
  have "run (free_loop E th fuel f ptr owner (q_world (q s)) old c) s = Ok 0 u"
    unfolding fuel pt using sa r u(1) by (simp add: free_put_def fuel run_bnd run_c_assert del: free_worlds_delayed.simps)
  then show ?thesis using t u spares_trans [OF t(9) u(8) [unfolded rg]] by (intro that [of u]) simp_all
qed

lemma movable_ready:
  assumes "inv E s w X" "ready E fuel 2 s w" "get_bit' (q_world (q s)) = 1" "1 < card (registered s)"
  shows "movable E fuel s w"
proof -
  note i = invD [OF assms(1)] and r = readyD [OF assms(2)]
  note l = layoutD [OF coreD(1) [OF i(6)]]
  have "changeable E s (q_world (q s)) w fuel"
    by (rule inv_changeable [OF assms(1) r(1)]) (use r(3) room_mono [OF r(4)] in simp_all)
  then show ?thesis
    using coreD(1) [OF i(6)] i(2,6) assms(3,4) l(4) r by (simp add: movable_def)
qed

lemma room_moves: "moves E s w a t \<Longrightarrow> room E s (Suc (Suc k)) \<Longrightarrow> room E t k"
  by (auto simp: moves_def room_def)

lemma room_stores: "live t = live s \<Longrightarrow> room E t k = room E s k"
  by (simp add: room_def blocks_def)

text \<open>The next timestamp is opened: \<open>t\<close> is the state right after the new world at \<open>a\<close> is installed, before the references
  of the threads are counted.\<close>

definition opened :: "ext \<Rightarrow> mem \<Rightarrow> world \<Rightarrow> uptr multiset \<Rightarrow> mem \<Rightarrow> uptr \<Rightarrow> world \<Rightarrow> uptr \<Rightarrow> nat \<Rightarrow> timestampstorage \<Rightarrow> bool" where
  "opened E s w X t a w' x j ts \<longleftrightarrow> a \<noteq> 0 \<and> get_struct a = a \<and> get_bit' a = 0 \<and> get_lock a = 0
     \<and> worlds t a = Some w' \<and> slot E w' (w_timestamp w') = Some (x, j) \<and> x \<noteq> 0 \<and> stores t x = Some ts
     \<and> j < length (ts_entries ts) \<and> w_n_threads w' = w_n_threads w \<and> covers E w' (w_timestamp w')
     \<and> wf_shape E w' \<and> q_world (q t) = a \<and> worlds t (get_struct (q_world (q s))) = Some w \<and> get_struct (q_world (q s)) \<noteq> a
     \<and> w_timestamp w' = w_timestamp w + 1
     \<and> inv E (t\<lparr>stores := (stores t)(x \<mapsto> ts_upd j (gain (w_n_threads w)) ts)\<rparr>) w' (add_mset (get_struct (q_world (q s))) X)
     \<and> waiting E (t\<lparr>stores := (stores t)(x \<mapsto> ts_upd j (gain (w_n_threads w)) ts)\<rparr>) w' = waiting E s w
     \<and> grew 2 s w (t\<lparr>stores := (stores t)(x \<mapsto> ts_upd j (gain (w_n_threads w)) ts)\<rparr>) w'
     \<and> tss t = tss s \<and> trace t = trace s \<and> entries t = entries s \<and> room E t 2 \<and> outrun E t w' w
     \<and> spares E UNIV s w X (t\<lparr>stores := (stores t)(x \<mapsto> ts_upd j (gain (w_n_threads w)) ts)\<rparr>) w' (add_mset (get_struct (q_world (q s))) X)"

lemma openedD:
  assumes "opened E s w X t a w' x j ts"
  shows "a \<noteq> 0" "get_struct a = a" "get_bit' a = 0" "get_lock a = 0" "worlds t a = Some w'"
    "slot E w' (w_timestamp w') = Some (x, j)" "x \<noteq> 0" "stores t x = Some ts" "j < length (ts_entries ts)"
    "w_n_threads w' = w_n_threads w" "covers E w' (w_timestamp w')" "wf_shape E w'" "q_world (q t) = a"
    "worlds t (get_struct (q_world (q s))) = Some w" "get_struct (q_world (q s)) \<noteq> a"
    "inv E (t\<lparr>stores := (stores t)(x \<mapsto> ts_upd j (gain (w_n_threads w)) ts)\<rparr>) w' (add_mset (get_struct (q_world (q s))) X)"
    "waiting E (t\<lparr>stores := (stores t)(x \<mapsto> ts_upd j (gain (w_n_threads w)) ts)\<rparr>) w' = waiting E s w"
    "grew 2 s w (t\<lparr>stores := (stores t)(x \<mapsto> ts_upd j (gain (w_n_threads w)) ts)\<rparr>) w'"
    "tss t = tss s" "trace t = trace s" "entries t = entries s" "room E t 2" "w_timestamp w' = w_timestamp w + 1"
    "outrun E t w' w" "spares E UNIV s w X (t\<lparr>stores := (stores t)(x \<mapsto> ts_upd j (gain (w_n_threads w)) ts)\<rparr>) w' (add_mset (get_struct (q_world (q s))) X)"
  using assms unfolding opened_def by blast+

lemma free_opens:
  assumes "inv E s w X" "ready E fuel 4 s w" "get_bit' (q_world (q s)) = 1" "1 < card (registered s)"
  obtains er a c' t w' x j ts where
    "run (mulle_aba_world_get_timestampentry E th (get_struct (q_world (q s))) (w_timestamp w + 1)) s
      = Ok (slot E w (w_timestamp w + 1)) (s\<lparr>errno := er\<rparr>)"
    "run (free_change E th fuel (q_world (q s)) w (slot E w (w_timestamp w + 1)) c) (s\<lparr>errno := er\<rparr>)
      = Ok (\<lparr>new_world_p = a, old_world_p = q_world (q s)\<rparr>, c') t"
    "opened E s w X t a w' x j ts"
proof -
  let ?o = "get_struct (q_world (q s))"
  note i = invD [OF assms(1)] and r = readyD [OF assms(2)]
  obtain er where lk: "run (mulle_aba_world_get_timestampentry E th ?o (w_timestamp w + 1)) s
      = Ok (slot E w (w_timestamp w + 1)) (s\<lparr>errno := er\<rparr>)"
    by (rule run_lookup_next [OF i(1,3) layoutD(1) [OF coreD(1) [OF i(6)]] coreD(2) [OF i(6)] r(5)])
  define s0 where "s0 = s\<lparr>errno := er\<rparr>"
  have s0: "worlds s0 = worlds s" "stores s0 = stores s" "entries s0 = entries s" "q s0 = q s" "tss s0 = tss s"
    "trace s0 = trace s" "registered s0 = registered s" by (simp_all add: s0_def registered_def)
  note c0 = inv_cong [OF s0(1-5)]
  have i0: "inv E s0 w X" using assms(1) c0 by simp
  have lv: "live s0 = live s" using s0 by (simp add: live_def fun_eq_iff)
  have rd: "ready E fuel 4 s0 w" using assms(2) s0(4) room_stores [OF lv] by (simp add: ready_def)
  have r2: "ready E fuel 2 s0 w" using rd room_mono [of E s0 4 2] by (simp add: ready_def)
  have mv: "movable E fuel s0 w" by (rule movable_ready [OF i0 r2]) (use assms(3,4) s0 in simp_all)
  define a where "a = calloc_at E (drained s0)"
  obtain c' t where fc: "run (free_change E th fuel (q_world (q s0)) w (slot E w (w_timestamp w + 1)) c) s0
      = Ok (\<lparr>new_world_p = a, old_world_p = q_world (q s0)\<rparr>, c') t" and ms: "moves E s0 w a t"
    by (rule run_free_change [OF mv a_def])
  have rg: "registered s0 \<noteq> {}" using assms(4) s0(7) by (auto intro: ccontr)
  obtain w' x j ts where v: "worlds t a = Some w'" "slot E w' (w_timestamp w') = Some (x, j)" "x \<noteq> 0"
    "stores t x = Some ts" "j < length (ts_entries ts)" "w_n_threads w' = w_n_threads w" "w_timestamp w' \<noteq> 0"
    "worlds t (get_struct (q_world (q s0))) = Some w" "get_struct (q_world (q s0)) \<noteq> a" "covers E w' (w_timestamp w')"
    "wf_shape E w'" "q_world (q t) = a"
    "inv E (t\<lparr>stores := (stores t)(x \<mapsto> ts_upd j (gain (w_n_threads w)) ts)\<rparr>) w' (add_mset (get_struct (q_world (q s0))) X)"
    "waiting E (t\<lparr>stores := (stores t)(x \<mapsto> ts_upd j (gain (w_n_threads w)) ts)\<rparr>) w' = waiting E s0 w"
    "grew 2 s0 w (t\<lparr>stores := (stores t)(x \<mapsto> ts_upd j (gain (w_n_threads w)) ts)\<rparr>) w'" "outrun E t w' w"
    and sp: "spares E UNIV s0 w X (t\<lparr>stores := (stores t)(x \<mapsto> ts_upd j (gain (w_n_threads w)) ts)\<rparr>) w' (add_mset (get_struct (q_world (q s0))) X)"
    by (rule moves_inv [OF i0 mv ms a_def rg, where R = UNIV])
  note n = changeable_new [OF movableD(1) [OF mv], folded a_def]
  have al: "get_struct a = a" "get_bit' a = 0" "get_lock a = 0"
    using get_struct_aligned [OF n(2)] n(2) by (simp_all add: get_bit_iff get_lock_iff aligned_iff_bits)
  have tt: "tss t = tss s" "trace t = trace s" "entries t = entries s"
    using ms s0(3,5,6) by (auto simp: moves_def moved_def)
  have "room E t (Suc (Suc 0))" by (rule room_moves [OF ms]) (use readyD(4) [OF rd] in \<open>simp add: numeral_eq_Suc\<close>)
  then have rm: "room E t 2" by (simp add: numeral_eq_Suc)
  have "spares E UNIV s w X s0 w X" by (rule spares_kept) (simp_all add: s0 c0(2))
  note sp' = spares_trans [OF this sp]
  have "w_timestamp w' = w_timestamp w + 1" using ms v(1) by (auto simp: moves_def moved_def bumped_def)
  then have "opened E s w X t a w' x j ts"
    unfolding opened_def using n(1) al v tt rm s0(4) c0(2) lv sp'
    by (simp add: grew_def blocks_def)
  with lk fc show ?thesis by (intro that) (simp_all add: s0_def)
qed

lemma run_free_count:
  assumes "opened E s w X t a w' x j ts" "get_struct (q_world (q s)) \<noteq> 0" "get_lock (q_world (q s)) = 0" "w_link w = 0"
  shows "run (free_count E th \<lparr>new_world_p = a, old_world_p = q_world (q s)\<rparr> 0) t
    = Ok (get_struct (q_world (q s))) (t\<lparr>stores := (stores t)(x \<mapsto> ts_upd j (gain (w_n_threads w)) ts)\<rparr>)"
proof -
  let ?o = "get_struct (q_world (q s))" and ?u = "t\<lparr>stores := (stores t)(x \<mapsto> ts_upd j (gain (w_n_threads w)) ts)\<rparr>"
  note v = openedD [OF assms(1)]
  have lw: "run (load_world a) t = Ok w' t" using v(1,5) by (simp add: exec)
  have le: "run (mulle_aba_world_get_timestampentry E th a (w_timestamp w')) t = Ok (Some (x, j)) t"
    using run_get_timestampentry_covered [OF v(1,5,12,11)] v(6) by simp
  have ar: "run (entry_add_rc (x, j) (w_n_threads w')) t = Ok () ?u"
    using run_entry_ops(2) [OF v(7-9), of "w_n_threads w'"] v(10) by (simp add: gain_eq)
  have wo: "worlds ?u ?o = Some w" using v(14) by simp
  have lo: "run (load_world ?o) ?u = Ok w ?u" using assms(2) wo by (simp add: exec)
  have wl: "w\<lparr>w_link := 0\<rparr> = w" using assms(4) by (cases w) simp
  have "?u\<lparr>worlds := (worlds ?u)(?o \<mapsto> w)\<rparr> = ?u" using wo by (simp add: fun_upd_idem)
  then have so: "run (store_world ?o (\<lambda>w. w\<lparr>w_link := 0\<rparr>)) ?u = Ok () ?u"
    using run_store_world [OF assms(2) wo, of "\<lambda>w. w\<lparr>w_link := 0\<rparr>"] wl by simp
  show ?thesis
    using lw le ar lo so v(2,15) assms(2,3,4) by (simp add: free_count_def Let_def run_bnd run_c_assert)
qed

lemma run_free_loop_1:
  assumes "inv E s w X'" "ready E fuel 4 s w" "get_bit' (q_world (q s)) = 1" "1 < card (registered s)"
    and "X' = X + handed f ptr" "fn_ok f owner"
  obtains t w' where "run (free_loop E th fuel f ptr owner (q_world (q s)) 0 c) s = Ok 0 t" "inv E t w' X"
    "pending E t w' = pending E s w + image_mset (\<lambda>c. (c, registered s)) (mset (due f ptr owner))"
    "tss t = tss s" "trace t = trace s" "grew 4 s w t w'" "spares E (registered s) s w X' t w' X"
proof -
  let ?p = "q_world (q s)"
  let ?o = "get_struct ?p"
  note i = invD [OF assms(1)] and r = readyD [OF assms(2)]
  note l = layoutD [OF coreD(1) [OF i(6)]]
  obtain er a c' t w' x j ts where fc:
    "run (mulle_aba_world_get_timestampentry E th ?o (w_timestamp w + 1)) s
      = Ok (slot E w (w_timestamp w + 1)) (s\<lparr>errno := er\<rparr>)"
    "run (free_change E th fuel ?p w (slot E w (w_timestamp w + 1)) c) (s\<lparr>errno := er\<rparr>)
      = Ok (\<lparr>new_world_p = a, old_world_p = ?p\<rparr>, c') t"
    and op: "opened E s w X' t a w' x j ts"
    by (rule free_opens [OF assms(1-4)])
  note v = openedD [OF op]
  obtain u where u: "run (free_count E th \<lparr>new_world_p = a, old_world_p = ?p\<rparr> 0) t = Ok ?o u"
    "u = t\<lparr>stores := (stores t)(x \<mapsto> ts_upd j (gain (w_n_threads w)) ts)\<rparr>"
    using run_free_count [OF op i(1,2) l(2)] by blast
  have i1: "inv E u w' (add_mset ?o X')" "waiting E u w' = waiting E s w" using v(16,17) u(2) by simp_all
  have uu: "q_world (q u) = a" "worlds u = worlds t" "tss u = tss s" "trace u = trace s" "entries u = entries s"
    "registered u = registered s" using v(13,19-21) by (simp_all add: u(2) registered_def)
  have lv: "live u = live t" using v(8) by (auto simp: u(2) live_def fun_eq_iff)
  have ru: "room E u (Suc (Suc 0))" using v(22) room_stores [OF lv] by (simp add: numeral_eq_Suc)
  have o: "?o \<noteq> 0 \<and> add_mset ?o X' = add_mset ?o (X + handed f ptr) \<and> map_option w_link (worlds u ?o) = Some 0"
    using i(1) assms(5) v(14) uu(2) l(2) by simp
  obtain g where fuel: "fuel = Suc g" and g: "1 < g" using r(3) by (cases fuel) auto
  have rg: "registered s \<noteq> {}" using assms(4) by (auto intro: ccontr)
  obtain z where z: "run (free_loop E th g f ptr owner (q_world (q u)) ?o c') u = Ok 0 z" "inv E z w' X"
    "pending E z w' = pending E u w' + image_mset (\<lambda>c. (c, registered u)) (mset (due f ptr owner))"
    "tss z = tss u" "trace z = trace u" "blocks z \<le> blocks u + 2" "spares E (registered u) u w' (add_mset ?o X') z w' X"
    by (rule run_free_loop_0 [OF i1(1) r(1) ru _ _ disjI2 [OF o] assms(6) g]) (use uu(1,6) v(3) rg in simp_all)
  have ld: "run (load_world ?o) s = Ok w s" using i(1,3) by (simp add: exec)
  have "run (free_loop E th fuel f ptr owner ?p 0 c) s = run (free_loop E th g f ptr owner a ?o c') u"
    using ld fc u(1) assms(3) v(1) by (simp add: fuel Let_def run_bnd del: free_loop.simps(1))
  moreover have "pending E u w' = pending E s w" by (rule pending_cong [OF i1(2) uu(5)])
  moreover have "grew 4 s w z w'" using v(18) z(6) by (simp add: grew_def u(2) [symmetric])
  moreover have "spares E (registered s) s w X' u w' (add_mset ?o X')" unfolding u(2) by (rule spares_mono [OF v(25)]) simp
  from spares_trans [OF this z(7) [unfolded uu(6)]] have "spares E (registered s) s w X' z w' X" .
  ultimately show ?thesis using z uu by (intro that [of z w']) simp_all
qed

text \<open>Worlds that are freed move to the cache.\<close>

definition worlds_ok :: "(uptr \<Rightarrow> world option) \<Rightarrow> uptr multiset \<Rightarrow> uptr multiset \<Rightarrow> bool" where
  "worlds_ok W A F \<longleftrightarrow> once (A + F) \<and> set_mset (A + F) = dom W \<and> 0 \<notin># A + F
     \<and> (\<forall>a \<in># F. w_size (the (W a)) = 0)
     \<and> (\<forall>a \<in># A. w_size (the (W a)) \<noteq> 0 \<and> unat (w_size (the (W a))) \<le> length (w_storage (the (W a))))"

lemma wrlds_alt: "wrlds s P X \<longleftrightarrow> worlds_ok (worlds s) (retired s P + mset (q_leaks (q s)) + X) (mset (q_free_worlds (q s)))"
  by (simp only: wrlds_def worlds_ok_def set_mset_mset)

lemma worlds_ok_cleared:
  assumes "worlds_ok W (A + mset ps) F"
  shows "worlds_ok (cleared ps W) A (mset ps + F)"
proof -
  note w = assms [unfolded worlds_ok_def]
  have M: "A + (mset ps + F) = A + mset ps + F" by (simp add: ac_simps)
  have d: "dom (cleared ps W) = dom W" by (auto simp: cleared_def split: if_splits)
  have ps: "w_size (the (cleared ps W a)) = 0" if a: "a \<in># mset ps + F" for a
  proof (cases "a \<in> set ps")
    case True
    then have "a \<in># A + mset ps + F" by simp
    then obtain v where "W a = Some v" using w [THEN conjunct2, THEN conjunct1] by blast
    with True show ?thesis by (simp add: cleared_def)
  next
    case False
    then have "a \<in># F" using a by simp
    then have "w_size (the (W a)) = 0" using w by blast
    with False show ?thesis by (simp add: cleared_def)
  qed
  have "a \<notin> set ps" if "a \<in># A" for a
    using w [THEN conjunct1] that by auto
  then have "w_size (the (cleared ps W a)) \<noteq> 0 \<and> unat (w_size (the (cleared ps W a))) \<le> length (w_storage (the (cleared ps W a)))"
    if "a \<in># A" for a using w that by (simp add: cleared_def)
  with ps show ?thesis
    unfolding worlds_ok_def M d using w by blast
qed

lemma wrlds_freed:
  assumes "wrlds s P (add_mset a X)" "worlds s a = Some v" "entries t = entries s"
    and "worlds t = (worlds s)(a \<mapsto> clear_world v)" "q_leaks (q t) = q_leaks (q s)"
    and "mset (q_free_worlds (q t)) = add_mset a (mset (q_free_worlds (q s)))"
  shows "wrlds t P X"
proof -
  have "retired t P = retired s P" using assms(3) by (simp add: retired_def)
  moreover have "worlds t = cleared [a] (worlds s)" unfolding assms(4) by (rule cleared_single [of "worlds s", OF assms(2)])
  ultimately show ?thesis
    using worlds_ok_cleared [of "worlds s" "retired s P + mset (q_leaks (q s)) + X" "[a]"] assms(1,5,6)
    by (simp add: wrlds_alt)
qed

lemma run_call_free:
  assumes "inv E s w X'" "ext_ok E" "X' = X + handed f ptr" "fn_ok f owner"
  obtains t where "run (call_free E f ptr owner) s = Ok () t" "inv E t w X" "pending E t w = pending E s w"
    "tss t = tss s" "trace t = trace s @ due f ptr owner" "q_world (q t) = q_world (q s)" "blocks t = blocks s"
    "f \<noteq> Fn_owned_pointer_free_world \<Longrightarrow> spares E R s w X' t w X" "stores t = stores s"
proof (cases "f = Fn_owned_pointer_free_world")
  case False
  define t where "t = s\<lparr>trace := trace s @ due f ptr owner\<rparr>"
  have r: "run (call_free E f ptr owner) s = Ok () t"
    using False assms(4) by (cases f) (simp_all add: t_def mulle_aba_no_owner_free_def)
  have t: "worlds t = worlds s" "stores t = stores s" "entries t = entries s" "q t = q s" "tss t = tss s"
    by (simp_all add: t_def)
  have "blocks t = blocks s" using t by (simp add: blocks_def live_def)
  moreover have "X' = X" using assms(3) False by (simp add: handed_def)
  moreover have "spares E R s w X t w X" by (rule spares_kept) (simp_all add: t inv_cong(2) [OF t])
  ultimately show ?thesis using r t assms(1) inv_cong [OF t] pending_cong [OF inv_cong(2) [OF t] t(3)]
    by (intro that [of t]) (simp_all add: t_def)
next
  case True
  note i = invD [OF assms(1)]
  have X: "X' = add_mset ptr X" using assms(3) True by (simp add: handed_def)
  have "ptr \<in># retired s (image_mset fst (waiting E s w)) + mset (q_leaks (q s)) + add_mset (get_struct (q_world (q s))) X'"
    using X by simp
  from wrldsD(5) [OF i(8) this] obtain v where v: "ptr \<noteq> 0" "worlds s ptr = Some v"
    "unat (w_size v) \<le> length (w_storage v)" by blast
  define t where "t = upd_free_worlds (x_add E ptr) (s\<lparr>worlds := (worlds s)(ptr \<mapsto> clear_world v)\<rparr>)"
  have r: "run (call_free E f ptr owner) s = Ok () t"
    using run_owned_pointer_free_world [OF v] assms(4) True by (simp add: t_def)
  have t: "worlds t = (worlds s)(ptr \<mapsto> clear_world v)" "stores t = stores s" "entries t = entries s"
    "q t = (q s)\<lparr>q_free_worlds := x_add E ptr (q_free_worlds (q s))\<rparr>" "tss t = tss s" "trace t = trace s"
    by (simp_all add: t_def)
  note lc = layout_cong [of t s, OF t(5,2)]
  have ne: "get_struct (q_world (q s)) \<noteq> ptr" using i(8) X by (auto simp: wrlds_def)
  have m: "mset (q_free_worlds (q t)) = add_mset ptr (mset (q_free_worlds (q s)))"
    using x_add_mset [OF ext_ok_parts(2) [OF assms(2)]] t(4) by simp
  have "add_mset (get_struct (q_world (q s))) X' = add_mset ptr (add_mset (get_struct (q_world (q s))) X)"
    using X by simp
  with i(8) have "wrlds s (image_mset fst (waiting E s w)) (add_mset ptr (add_mset (get_struct (q_world (q s))) X))" by simp
  from wrlds_freed [OF this v(2) t(3,1) _ m]
  have wr: "wrlds t (image_mset fst (waiting E s w)) (add_mset (get_struct (q_world (q s))) X)" using t(4) by simp
  have en: "ents t (image_mset fst (waiting E s w))" using i(7) ents_cong [of t s] t(3,4) by simp
  have "registered t = registered s" using t(5) by (simp add: registered_def)
  then have "inv E t w X"
    unfolding inv_def lc using i(1-6) en wr t ne by simp
  moreover have "live t = live s" using t v(2) by (auto simp: live_def fun_eq_iff)
  ultimately show ?thesis using r t pending_cong [OF lc(3) t(3)] True by (intro that [of t]) (simp_all add: blocks_def)
qed

text \<open>The whole operation.\<close>

lemma run_free_p:
  assumes "inv E s w X'" "ready E fuel 4 s w" "th \<in> registered s" "ptr \<noteq> 0" "ptr \<noteq> get_struct (q_world (q s))"
    and "X' = X + handed f ptr" "fn_ok f owner" "keyed E s"
  obtains t w' where "run (mulle_aba_free_owned_pointer_p E th fuel f ptr owner) s = Ok 0 t" "inv E t w' X" "tss t = tss s"
    "pending E t w' = pending E s w + (if card (registered s) \<le> 1 then {#}
       else image_mset (\<lambda>c. (c, registered s)) (mset (due f ptr owner)))"
    "trace t = trace s @ (if card (registered s) \<le> 1 then due f ptr owner else [])"
    "card (registered s) \<le> 1 \<Longrightarrow> w' = w \<and> q_world (q t) = q_world (q s)" "grew 4 s w t w'"
    "spares E (if f = Fn_owned_pointer_free_world then registered s - {th} else registered s) s w X' t w' X"
proof -
  let ?p = "q_world (q s)"
  note i = invD [OF assms(1)] and r = readyD [OF assms(2)]
  note l = layoutD [OF coreD(1) [OF i(6)]]
  have th: "tss s th \<noteq> 0" using assms(3) by (simp add: registered_def)
  have ld: "run (load_world (get_struct ?p)) s = Ok w s" using i(1,3) by (simp add: exec)
  have b: "unat (w_n_threads w) < 2 ^ 63" using less_10000(1) l(4,5) by simp
  have start: "run (mulle_aba_free_owned_pointer_p E th fuel f ptr owner) s =
    (if card (registered s) \<le> 1 then run (bnd (call_free E f ptr owner) (\<lambda>_. Ret 0)) s
     else run (free_loop E th fuel f ptr owner ?p 0 \<lparr>ac_ts_storage = 0\<rparr>) s)"
    using assms(4,5) th ld sle_1 [OF b] l(4) fn_ok_not_null [OF assms(7)] assms(8)
    by (simp add: mulle_aba_free_owned_pointer_p_def run_is_registered exec Let_def)
  show ?thesis
  proof (cases "card (registered s) \<le> 1")
    case True
    obtain t where t: "run (call_free E f ptr owner) s = Ok () t" "inv E t w X" "pending E t w = pending E s w"
      "tss t = tss s" "trace t = trace s @ due f ptr owner" "q_world (q t) = q_world (q s)" "blocks t = blocks s"
      "f \<noteq> Fn_owned_pointer_free_world \<longrightarrow> spares E (registered s) s w X' t w X" "stores t = stores s"
      using run_call_free [OF assms(1) r(1) assms(6,7), of "registered s"] by metis
    have none: "registered s - {th} = {}" using True assms(3) l(3) by (auto simp: card_le_Suc0_iff_eq)
    then have "spares E (if f = Fn_owned_pointer_free_world then registered s - {th} else registered s) s w X' t w X"
      unfolding none using t(8,9) by (simp add: spares_def)
    with start True t show ?thesis by (intro that [of t w]) (simp_all add: exec grew_def)
  next
    case False
    then have c: "1 < card (registered s)" "registered s \<noteq> {}" by auto
    show ?thesis
    proof (cases "get_bit' ?p = 0")
      case True
      have X: "0 = (0 :: uptr) \<and> X' = X + handed f ptr" using assms(6) by simp
      obtain g where g: "fuel = Suc g" "1 < fuel" using r(3) by (cases fuel) auto
      obtain t where t: "run (free_loop E th fuel f ptr owner ?p 0 \<lparr>ac_ts_storage = 0\<rparr>) s = Ok 0 t" "inv E t w X"
        "pending E t w = pending E s w + image_mset (\<lambda>c. (c, registered s)) (mset (due f ptr owner))"
        "tss t = tss s" "trace t = trace s" "blocks t \<le> blocks s + 2" "spares E (registered s) s w X' t w X"
        by (rule run_free_loop_0 [OF assms(1) r(1) _ True c(2) disjI1 [OF X] assms(7) g(2), of 2])
          (use r(4) in \<open>simp_all add: numeral_eq_Suc\<close>)
      from spares_mono [OF t(7)] have "spares E (if f = Fn_owned_pointer_free_world then registered s - {th} else registered s) s w X' t w X"
        by simp
      with start False t show ?thesis by (intro that [of t w]) (simp_all add: grew_def)
    next
      case bit: False
      then have b1: "get_bit' ?p = 1" using get_bit_cases by blast
      obtain t w' where t: "run (free_loop E th fuel f ptr owner ?p 0 \<lparr>ac_ts_storage = 0\<rparr>) s = Ok 0 t" "inv E t w' X"
        "pending E t w' = pending E s w + image_mset (\<lambda>c. (c, registered s)) (mset (due f ptr owner))"
        "tss t = tss s" "trace t = trace s" "grew 4 s w t w'" "spares E (registered s) s w X' t w' X"
        by (rule run_free_loop_1 [OF assms(1,2) b1 c(1) assms(6,7)])
      from spares_mono [OF t(7)] have "spares E (if f = Fn_owned_pointer_free_world then registered s - {th} else registered s) s w X' t w' X"
        by simp
      with start False t show ?thesis by (intro that [of t w']) simp_all
    qed
  qed
qed

end
