(* ===== verification/Aba_Outrun.thy ===== *)
theory Aba_Outrun
  imports Aba_Lost Aba_Free
begin

text \<open>
  Two frees that read the same world pointer while its bit is set: both want the next timestamp. One opens it; the other, which
  still works with the replaced world, fails to install its copy, gives back what it allocated and ends up
  as if it had been called after the first.
\<close>

section \<open>The attempt to grow the world\<close>

lemma run_grow_lost:
  assumes "changeable E s p w (Suc f)" "target \<noteq> 0" "ac_ts_storage c = 0" "w_n_threads w \<le>s 1 \<or> get_bit' p = 0"
  obtains c' z where
    "run (mulle_aba_storage_grow_worldpointer E th (Suc f) target (add_storage_and_increment_timestamp E th fuel) c) s
      = Ok (\<lparr>new_world_p = 0, old_world_p = 0\<rparr>, c') z" "stores z = stores s"
    "target \<le> w_size w \<longrightarrow> z = s\<lparr>errno := (errno s)(th := EBUSY)\<rparr>"
    "w_size w < target \<longrightarrow> given_up (calloc_at E (drained s)) (grown target w) E s z \<and> errno z th = refusal w"
proof -
  let ?cb = "add_storage_and_increment_timestamp E th fuel" and ?a = "calloc_at E (drained s)"
  have c: "ext_ok E" "worlds_cached s" "q_world (q s) = p" "get_struct p \<noteq> 0" "worlds s (get_struct p) = Some w"
    "wf_world E w" "length (q_free_worlds (q s)) < Suc f"
    using assms(1) unfolding changeable_def by blast+
  note n = changeable_new [OF assms(1)]
  note sz = wf_world_size [OF c(6)]
  have ld: "run (load_world (get_struct p)) s = Ok w s" using c(4,5) by (simp add: exec)
  have rl: "releasable E c S" "undone c S = S" for S using assms(3) by (simp_all add: releasable_def undone_def)
  show ?thesis
  proof (cases "target \<le> w_size w")
    case True
    have "run (mulle_aba_storage_grow_worldpointer E th (Suc f) target ?cb c) s
      = Ok (\<lparr>new_world_p = 0, old_world_p = 0\<rparr>, c\<lparr>ac_ts_storage := 0\<rparr>) (s\<lparr>errno := (errno s)(th := EBUSY)\<rparr>)"
      using c(3,4) ld True assms(3)
      by (simp add: mulle_aba_storage_grow_worldpointer_def add_storage_and_increment_timestamp_def assert_info_def null_info_def
          Let_def run_bnd run_c_assert run_get_worldpointer run_timestampstorage_free_0 mulle_aba_storage_free_world_def
          run_set_errno run_null_worldpointers del: mulle_aba_storage_alloc_world.simps)
    then show ?thesis by (rule that) (use True in \<open>simp_all add: not_less [symmetric]\<close>)
  next
    case False
    then have lt: "w_size w < target" "unat (w_size w) \<le> unat target" by (simp_all add: word_less_nat_alt word_le_nat_alt)
    let ?b = "placed s ?a (grown target w)" and ?i = "info_of ?a p"
    have al: "run (mulle_aba_storage_alloc_world E th (Suc f) target) s = Ok ?a (placed s ?a (new_world_of target))"
      by (rule run_alloc_placed [OF ext_ok_parts(2) [OF c(1)] c(2) assms(2) c(7) n(1)])
    let ?c = "w\<lparr>w_link := 0, w_storage := take (unat (w_size w)) (w_storage w) @ replicate (unat target - unat (w_size w)) 0\<rparr>"
    have cp: "run (mulle_aba_world_copy ?a (get_struct p)) (placed s ?a (new_world_of target)) = Ok () (placed s ?a ?c)"
      using run_world_copy [of ?a "get_struct p" "placed s ?a (new_world_of target)" w "new_world_of target"]
        n c(4) sz(2) lt(2) by (simp add: placed_def)
    have st: "run (store_world ?a (\<lambda>w. w\<lparr>w_size := target\<rparr>)) (placed s ?a ?c) = Ok () ?b"
      using run_store_world [of ?a "placed s ?a ?c" ?c] n(1) by (simp add: placed_def grown_def)
    have la: "run (load_world ?a) (placed s ?a (new_world_of target)) = Ok (new_world_of target) (placed s ?a (new_world_of target))"
      using n(1) by (simp add: exec)
    have wb: "new_world ?i \<noteq> 0" "old_world ?i \<noteq> new_world ?i" "worlds ?b (new_world ?i) = Some (grown target w)"
      "w_n_threads (grown target w) \<le>s 1 \<or> old_bit ?i = 0"
      using n(1,5) assms(4) by simp_all
    have c0: "c\<lparr>ac_ts_storage := 0\<rparr> = c" using assms(3) by (cases c) simp
    have pc: "run (pre_check_world_for_timestamp_increment E th ?i c) ?b = Ok (refusal w, c) ?b"
      using wb run_handle_discard [OF wb(2) rl(1), of th ?b] rl(2) c0
      by (cases "w_n_threads w \<le>s 1")
        (simp_all add: pre_check_world_for_timestamp_increment_def assert_info_def refusal_def exec placed_def)
    have cb: "run (?cb World_modify ?i c) ?b = Ok (refusal w, ?i, c) ?b"
      using pc wb(2) by (simp add: add_storage_and_increment_timestamp_def assert_info_def run_bnd run_c_assert)
    define z where "z = (upd_free_worlds (x_add E ?a) (?b\<lparr>worlds := (worlds ?b)(?a \<mapsto> clear_world (grown target w))\<rparr>))
      \<lparr>errno := (errno s)(th := refusal w)\<rparr>"
    have fw: "run (mulle_aba_storage_free_world E ?a) ?b
        = Ok () (upd_free_worlds (x_add E ?a) (?b\<lparr>worlds := (worlds ?b)(?a \<mapsto> clear_world (grown target w))\<rparr>))"
      by (rule run_free_world [OF n(1)]) (use sz lt in simp_all)
    have r: "run (mulle_aba_storage_grow_worldpointer E th (Suc f) target ?cb c) s
      = Ok (\<lparr>new_world_p = 0, old_world_p = 0\<rparr>, c) z"
      using c(3,4) n(1) ld al cp st la cb fw False
      by (simp add: mulle_aba_storage_grow_worldpointer_def null_info_def Let_def info_of_def [symmetric] run_bnd
          run_get_worldpointer run_set_errno run_null_worldpointers z_def upd_free_worlds_def del: mulle_aba_storage_alloc_world.simps)
    have z: "given_up ?a (grown target w) E s z" "stores z = stores s" "errno z th = refusal w"
      by (simp_all add: given_up_def z_def upd_free_worlds_def)
    show ?thesis by (rule that [OF r z(2)]) (use False z(1,3) in blast)+
  qed
qed

section \<open>Nothing is lost with the race\<close>

lemma worlds_ok_given_up:
  assumes "worlds_ok W A F" "a \<noteq> 0" "(W |` (- set_mset F)) a = None" "w_size y = 0"
  shows "worlds_ok ((W |` (- set_mset F))(a \<mapsto> y)) A {#a#}"
proof -
  note w = assms(1) [unfolded worlds_ok_def]
  have o: "once A" "set_mset A \<inter> set_mset F = {}" "0 \<notin># A" using w by auto
  have d: "dom (W |` (- set_mset F)) = set_mset A" using w o(2) by (auto simp: dom_def restrict_map_def)
  then have na: "a \<notin># A" using assms(3) by (metis domIff)
  have "((W |` (- set_mset F))(a \<mapsto> y)) b = W b" if b: "b \<in># A" for b
  proof -
    have "b \<noteq> a" "b \<notin># F" using b na o(2) by auto
    then show ?thesis by (simp add: restrict_map_def)
  qed
  with w o na assms(2,4) d show ?thesis by (simp add: worlds_ok_def)
qed

text \<open>What the second thread finds when it has failed: everything as it was, up to the cache of worlds.\<close>

definition unscathed :: "ext \<Rightarrow> mem \<Rightarrow> world \<Rightarrow> uptr multiset \<Rightarrow> mem \<Rightarrow> bool" where
  "unscathed E s w X t \<longleftrightarrow> inv E t w X \<and> waiting E t w = waiting E s w \<and> entries t = entries s \<and> tss t = tss s
     \<and> trace t = trace s \<and> q_world (q t) = q_world (q s) \<and> blocks t \<le> Suc (blocks s) \<and> stores t = stores s
     \<and> (\<forall>a v. worlds s a = Some v \<longrightarrow> w_size v \<noteq> 0 \<longrightarrow> worlds t a = Some v)"

lemma unscathedD:
  assumes "unscathed E s w X t"
  shows "inv E t w X" "pending E t w = pending E s w" "tss t = tss s" "trace t = trace s" "q_world (q t) = q_world (q s)"
    "blocks t \<le> Suc (blocks s)" "registered t = registered s" "stores t = stores s"
    "worlds s a = Some v \<Longrightarrow> w_size v \<noteq> 0 \<Longrightarrow> worlds t a = Some v"
  using assms pending_cong [of E t w s w] by (simp_all add: unscathed_def registered_def)

lemma unscathed_errno: "inv E s w X \<Longrightarrow> unscathed E s w X (s\<lparr>errno := er\<rparr>)"
proof -
  let ?t = "s\<lparr>errno := er\<rparr>"
  assume i: "inv E s w X"
  have "live ?t = live s" by (simp add: live_def fun_eq_iff)
  then have "blocks ?t = blocks s" by (simp add: blocks_def)
  then show ?thesis using i inv_cong [of ?t s] by (simp add: unscathed_def)
qed

lemma unscathed_given_up:
  assumes "inv E s w X" "list_ok E" "a \<noteq> 0" "\<not> live (drained s) a" "given_up a y E s t" "stores t = stores s"
  shows "unscathed E s w X t"
proof -
  note i = invD [OF assms(1)]
  have t: "worlds t = (worlds (drained s))(a \<mapsto> clear_world y)" "q t = (q s)\<lparr>q_free_worlds := x_add E a []\<rparr>"
    "entries t = entries s" "tss t = tss s" "trace t = trace s" using assms(5) by (simp_all add: given_up_def)
  note lc = layout_cong [of t s, OF t(4) assms(6)]
  let ?P = "image_mset fst (waiting E s w)" and ?F = "mset (q_free_worlds (q s))"
  have "worlds_ok (worlds s) (retired s ?P + mset (q_leaks (q s)) + add_mset (get_struct (q_world (q s))) X) ?F"
    using i(8) by (simp only: wrlds_alt)
  from worlds_ok_given_up [OF this assms(3), of "clear_world y"] assms(4)
  have "worlds_ok (worlds t) (retired s ?P + mset (q_leaks (q s)) + add_mset (get_struct (q_world (q s))) X) {#a#}"
    by (simp add: t(1) drained_def live_def)
  moreover have "mset (x_add E a []) = {#a#}" using x_add_mset [OF assms(2)] by simp
  moreover have "retired t ?P = retired s ?P" using t(3) by (simp add: retired_def)
  ultimately have wr: "wrlds t ?P (add_mset (get_struct (q_world (q s))) X)" using t(2) by (simp add: wrlds_alt)
  have en: "ents t ?P" using i(7) ents_cong [of t s] t(2,3) by simp
  have rg: "registered t = registered s" using t(4) by (simp add: registered_def)
  have kept: "worlds (drained s) b = Some v \<and> b \<noteq> a" if "worlds s b = Some v" "w_size v \<noteq> 0" for b v
    using drained_worlds [OF inv_cached(1) [OF assms(1)] that] assms(4) by (auto simp: live_def)
  have "w_size w \<noteq> 0" using wf_world_size [OF layoutD(1) [OF coreD(1) [OF i(6)]]] by simp
  from kept [OF i(3) this] have "inv E t w X"
    unfolding inv_def lc rg using i(1-6) en wr t by simp
  moreover have "blocks t \<le> Suc (blocks s)"
    by (rule blocks_insert [of _ _ a]) (use t assms(6) live_drained [of s] in \<open>auto simp: live_def split: if_splits\<close>)
  ultimately show ?thesis using lc(3) t assms(6) kept by (simp add: unscathed_def)
qed

section \<open>A world pointer that has been overtaken\<close>

text \<open>\<open>p\<close> is the pointer a thread has read, \<open>v\<close> its world; meanwhile \<open>w\<close>, with the next timestamp, has taken its place.\<close>

definition overtaken :: "ext \<Rightarrow> mem \<Rightarrow> world \<Rightarrow> uptr \<Rightarrow> world \<Rightarrow> bool" where
  "overtaken E s w p v \<longleftrightarrow> get_struct p \<noteq> 0 \<and> p \<noteq> q_world (q s) \<and> get_bit' p = 1 \<and> get_lock p = 0
     \<and> worlds s (get_struct p) = Some v \<and> wf_world E v \<and> (w_timestamp v = 0 \<longrightarrow> w_n v = 0)
     \<and> 1 < unat (w_n_threads v) \<and> unat (w_n_threads v) < 10000 \<and> unat (w_timestamp v) < 2 ^ 62 \<and> outrun E s w v"

lemma overtakenD:
  assumes "overtaken E s w p v"
  shows "get_struct p \<noteq> 0" "p \<noteq> q_world (q s)" "get_bit' p = 1" "get_lock p = 0" "worlds s (get_struct p) = Some v" "wf_world E v"
    "w_timestamp v = 0 \<longrightarrow> w_n v = 0" "1 < unat (w_n_threads v)" "unat (w_n_threads v) < 10000" "unat (w_timestamp v) < 2 ^ 62"
    "stores_mapped s v" "\<And>x j. slot E v (w_timestamp v + 1) = Some (x, j) \<Longrightarrow> marked (stores s) x j"
    "slot E v (w_timestamp v + 1) \<noteq> None \<or> w_n v < w_size v \<Longrightarrow> w_size w = w_size v"
    "slot E v (w_timestamp v + 1) = None \<Longrightarrow> w_n v = w_size v \<Longrightarrow>
      w_size w = w_size v \<and> marked (stores s) (w_storage v ! 0) (unat (w_timestamp v + 1) mod n_entries E)
      \<or> (\<forall>i. Suc i < unat (w_n v) \<longrightarrow> \<not> unused s (w_storage v ! i))"
  using assms unfolding overtaken_def outrun_def by blast+

lemma overtaken_changeable:
  assumes "overtaken E s w p v" "inv E s w X" "ext_ok E" "length (q_free_worlds (q s)) < fuel" "room E s 1"
  shows "changeable E (set_q_world p s) p v fuel"
proof -
  note o = overtakenD [OF assms(1)]
  have "worlds_cached (set_q_world p s)" using inv_cached(1) [OF assms(2)] by (simp add: worlds_cached_def)
  moreover have "room E (set_q_world p s) 1" using assms(5) room_cong [of "set_q_world p s" s E 1] by simp
  ultimately show ?thesis using o(1,5,6) assms(3,4) by (simp add: changeable_def)
qed

lemma drained_repointed: "worlds (drained (set_q_world p s)) = worlds (drained s)" "calloc_at E (drained (set_q_world p s)) = calloc_at E (drained s)"
proof -
  show w: "worlds (drained (set_q_world p s)) = worlds (drained s)" by (simp add: drained_def set_q_world_def)
  have "live (drained (set_q_world p s)) = live (drained s)" unfolding live_def fun_eq_iff w by simp
  then show "calloc_at E (drained (set_q_world p s)) = calloc_at E (drained s)" by (simp add: calloc_at_def)
qed

text \<open>The callbacks accept the copy of the overtaken world in the first round.\<close>

lemma overtaken_ready:
  assumes "overtaken E s w p v" "changeable E (set_q_world p s) p v f" "a = calloc_at E (drained s)" "weak_bound E fuel"
  shows "free_ready E fuel (info_of a p) (placed (set_q_world p s) a (copy_of v)) (copy_of v) v"
proof -
  note o = overtakenD [OF assms(1)]
  have "sees E (info_of a p) (placed (set_q_world p s) a (copy_of v)) (copy_of v) v"
    by (rule sees_info [OF assms(2) _ wf_copy_of [OF o(6)]]) (use assms(3) o(9) drained_repointed(2) in simp_all)
  with o(3,4,8,10) assms(4) show ?thesis by (simp add: free_ready_def)
qed

section \<open>The four ways to fail\<close>

definition losing :: "ext \<Rightarrow> nat \<Rightarrow> mem \<Rightarrow> world \<Rightarrow> uptr multiset \<Rightarrow> uptr \<Rightarrow> world \<Rightarrow> bool" where
  "losing E f s w X p v \<longleftrightarrow> overtaken E s w p v \<and> inv E s w X \<and> ext_ok E \<and> length (q_free_worlds (q s)) < f \<and> 1 < f
     \<and> room E s 2 \<and> weak_bound E f \<and> get_bit' (q_world (q s)) = 0 \<and> 1 < card (registered s)"

lemma losingD:
  assumes "losing E f s w X p v"
  shows "overtaken E s w p v" "inv E s w X" "ext_ok E" "room E s 2" "weak_bound E f" "get_bit' (q_world (q s)) = 0"
    "changeable E (set_q_world p s) p v f" "changeable E s (q_world (q s)) w f" "wf_world E w" "refusal w = EBUSY"
    "get_struct (q_world (q s)) \<noteq> 0" "worlds s (get_struct (q_world (q s))) = Some w" "\<exists>g. f = Suc (Suc g)"
    "calloc_at E (drained s) \<noteq> 0" "\<not> live (drained s) (calloc_at E (drained s))" "w_n_threads w \<le>s 1 \<or> get_bit' (q_world (q s)) = 0"
proof -
  have m: "overtaken E s w p v" "inv E s w X" "ext_ok E" "length (q_free_worlds (q s)) < f" "1 < f" "room E s 2" "weak_bound E f"
    "get_bit' (q_world (q s)) = 0" "1 < card (registered s)" using assms unfolding losing_def by blast+
  then show "overtaken E s w p v" "inv E s w X" "ext_ok E" "room E s 2" "weak_bound E f" "get_bit' (q_world (q s)) = 0"
    "w_n_threads w \<le>s 1 \<or> get_bit' (q_world (q s)) = 0" by blast+
  have r1: "room E s 1" by (rule room_mono [OF m(6)]) simp
  show "changeable E (set_q_world p s) p v f" by (rule overtaken_changeable [OF m(1-4) r1])
  show ch: "changeable E s (q_world (q s)) w f" by (rule inv_changeable [OF m(2-4) r1])
  show "calloc_at E (drained s) \<noteq> 0" "\<not> live (drained s) (calloc_at E (drained s))" using changeable_new [OF ch] by blast+
  note i = invD [OF m(2)]
  note l = layoutD [OF coreD(1) [OF i(6)]]
  show "wf_world E w" "get_struct (q_world (q s)) \<noteq> 0" "worlds s (get_struct (q_world (q s))) = Some w" using l(1) i(1,3) by blast+
  have "unat (w_n_threads w) < 2 ^ 63" using less_10000(1) l(4,5) by simp
  then show "refusal w = EBUSY" using sle_1 m(9) l(4) by (simp add: refusal_def)
  show "\<exists>g. f = Suc (Suc g)" using m(5) by (intro exI [of _ "f - 2"]) simp
qed

lemma lost_in_storage:
  assumes "losing E f s w X p v" "slot E v (w_timestamp v + 1) \<noteq> None" "ac_ts_storage c = 0"
  obtains c' t where
    "run (mulle_aba_storage_copy_change_worldpointer E th f Swap_free p (increment_timestamp E th f) c) s
      = Ok (\<lparr>new_world_p = 0, old_world_p = 0\<rparr>, c') t" "unscathed E s w X t" "errno t th = EBUSY"
proof -
  note l = losingD [OF assms(1)]
  note o = overtakenD [OF l(1)]
  let ?a = "calloc_at E (drained s)" and ?v = "copy_of v"
  let ?b = "placed (set_q_world p s) ?a ?v"
  obtain x j where xj: "slot E v (w_timestamp v + 1) = Some (x, j)" using assms(2) by auto
  have sl: "slot E ?v (w_timestamp ?v + 1) = Some (x, j)" using xj slot_copy_of [OF wf_world_shape [OF o(6)]] by simp
  have mk: "marked (stores s) x j" by (rule o(12) [OF xj])
  have "next_covered E ?v ?b" using sl mk by (auto simp: next_covered_def slot_def marked_def split: if_splits)
  then have pre: "inc_pre E f (info_of ?a p) c ?b \<and> ac_ts_storage c = 0"
    unfolding inc_pre_def using overtaken_ready [OF l(1,7) refl l(5)] assms(3) by blast
  obtain g where g: "f = Suc (Suc g)" using l(13) by blast
  have sz: "w_size w = w_size v" by (rule o(13)) (use assms(2) in blast)
  obtain i' u' t u2 z where post: "inc_post E (info_of ?a p) c ?b i' u' t"
    and r: "run (mulle_aba_storage_copy_change_worldpointer E th f Swap_free p (increment_timestamp E th f) c) s
      = Ok (\<lparr>new_world_p = 0, old_world_p = 0\<rparr>, u2) z"
    and z: "given_up ?a (copy_of w) E s z" "stores z = undone u' (stores t)" "errno z th = refusal w"
    unfolding g by (rule lost_increment.run_lost_change [OF l(7) [unfolded g] refl pre [unfolded g] refl o(2) [symmetric] l(11,12,9) sz l(16)])
  have "undone u' (stores t) = stores s"
    using post assms(3) mark_used_marked [OF sl mk] by (auto simp: inc_post_def undone_def advanced_def)
  then have "unscathed E s w X z"
    by (intro unscathed_given_up [OF l(2) ext_ok_parts(2) [OF l(3)] l(14,15) z(1)]) (use z(2) in simp)
  with r z(3) l(10) show ?thesis by (intro that) simp_all
qed

lemma lost_added:
  assumes "losing E f s w X p v" "slot E v (w_timestamp v + 1) = None" "w_n v < w_size v"
  obtains c' t where
    "run (mulle_aba_storage_copy_change_worldpointer E th f Swap_free p (add_storage_and_increment_timestamp E th f) c) s
      = Ok (\<lparr>new_world_p = 0, old_world_p = 0\<rparr>, c') t" "unscathed E s w X t" "errno t th = EBUSY"
proof -
  note l = losingD [OF assms(1)]
  note o = overtakenD [OF l(1)]
  let ?a = "calloc_at E (drained s)" and ?v = "copy_of v" and ?t = "w_timestamp v + 1"
  let ?b = "placed (set_q_world p s) ?a ?v"
  define b where "b = calloc_at E ?b"
  have "room E (set_q_world p s) (Suc (Suc 0))" using l(4) room_cong [of "set_q_world p s" s E 2] by (simp add: numeral_2_eq_2)
  from calloc_at_fresh [OF ext_ok_parts(1) [OF l(3)] room_next [OF this], of ?a ?v, folded b_def]
  have b: "b \<noteq> 0" "\<not> live ?b b" by blast+
  then have nb: "stores s b = None" by (simp add: live_def)
  have n: "w_n ?v < w_size ?v" using assms(3) by simp
  have wf: "wf_world E ?v" by (rule wf_copy_of [OF o(6)])
  have mp: "stores_mapped s ?v"
    using o(11) wf_world_shape [OF o(6)] unfolding wf_shape_def by (auto simp: stores_mapped_def)
  have cv: "covers E (with_storage b ?v) (w_timestamp ?v + 1)" by (rule next_in_added [OF wf n]) (use o(10) in simp)
  have ncv: "\<not> covers E v ?t" using assms(2) by (auto simp: slot_def)
  have ix: "slot_index E (with_storage b ?v) ?t = unat (w_n v)"
    using next_slot_index(1) [OF o(6) ncv o(10,7)] by (simp add: slot_index_def)
  have len: "unat (w_n v) < length (w_storage ?v)"
    using assms(3) wf_world_size(2) [OF wf] by (simp add: word_less_nat_alt)
  have sl: "slot E (with_storage b ?v) ?t = Some (b, unat ?t mod n_entries E)"
    using cv ix len by (simp add: slot_def)
  have nc: "next_covered E (with_storage b ?v) (storage_added E b ?b)"
    using cv ix len by (simp add: next_covered_def)
  have pre: "add_storage_pre E f (info_of ?a p) c ?b"
    unfolding add_storage_pre_def b_def [symmetric]
    using overtaken_ready [OF l(1,7) refl l(5)] n mp b nc by (auto simp: stores_mapped_def)
  obtain g where g: "f = Suc (Suc g)" using l(13) by blast
  have sz: "w_size w = w_size v" by (rule o(13)) (use assms(3) in blast)
  obtain i' u' t u2 z where post: "add_storage_post E (info_of ?a p) c ?b i' u' t"
    and r: "run (mulle_aba_storage_copy_change_worldpointer E th f Swap_free p (add_storage_and_increment_timestamp E th f) c) s
      = Ok (\<lparr>new_world_p = 0, old_world_p = 0\<rparr>, u2) z"
    and z: "given_up ?a (copy_of w) E s z" "stores z = undone u' (stores t)" "errno z th = refusal w"
    unfolding g by (rule lost_add.run_lost_change [OF l(7) [unfolded g] refl pre [unfolded g] refl o(2) [symmetric] l(11,12,9) sz l(16)])
  have "u' = c\<lparr>ac_ts_storage := b\<rparr>" "stores t = mark_used E (with_storage b ?v) ?t ((stores s)(b \<mapsto> fresh_ts E))"
    using post unfolding add_storage_post_def b_def [symmetric] by (auto simp: advanced_def)
  then have "undone u' (stores t) = stores s" using sl b(1) nb by (auto simp: undone_def mark_used_def)
  then have "unscathed E s w X z"
    by (intro unscathed_given_up [OF l(2) ext_ok_parts(2) [OF l(3)] l(14,15) z(1)]) (use z(2) in simp)
  with r z(3) l(10) show ?thesis by (intro that) simp_all
qed

lemma lost_reorganized:
  assumes "losing E f s w X p v" "slot E v (w_timestamp v + 1) = None" "w_n v = w_size v" "ac_ts_storage c = 0"
    and "\<exists>i. Suc i < unat (w_n v) \<and> unused s (w_storage v ! i)"
  obtains c' t where
    "run (mulle_aba_storage_copy_change_worldpointer E th f Swap_free p (reorganize_storage_and_increment_timestamp E th f) c) s
      = Ok (\<lparr>new_world_p = 0, old_world_p = 0\<rparr>, c') t" "unscathed E s w X t" "errno t th = EBUSY"
proof -
  note l = losingD [OF assms(1)]
  note o = overtakenD [OF l(1)]
  let ?a = "calloc_at E (drained s)" and ?v = "copy_of v" and ?t = "w_timestamp v + 1"
  let ?b = "placed (set_q_world p s) ?a ?v"
  have ncv: "\<not> covers E ?v (w_timestamp ?v + 1)" using assms(2) by (auto simp: slot_def covers_iff)
  have nth: "w_storage ?v ! i = w_storage v ! i" if "i < unat (w_n v)" for i using that assms(3) by simp
  have T: "w_timestamp v \<noteq> 0" using o(7) assms(3) wf_world_size(1) [OF o(6)] by auto
  have sb: "stores ?b = stores s" by simp
  note cg = stores_cong [OF sb]
  have ae: "at_end E ?b ?v"
    unfolding cg(1) by (rule at_end_full [OF wf_copy_of [OF o(6)]])
      (use o(10,11) T assms(3) ncv nth in \<open>simp_all add: stores_mapped_def\<close>)
  have "\<exists>k. Suc k < unat (w_n ?v) \<and> unused ?b (w_storage ?v ! k)"
    using assms(5) nth unfolding cg(2) copy_of_sel(6) by (metis Suc_lessD)
  then have pre: "reorg_pre E f (info_of ?a p) c ?b \<and> ac_ts_storage c = 0"
    unfolding reorg_pre_def using overtaken_ready [OF l(1,7) refl l(5)] ae assms(4) by blast
  have mk: "marked (stores s) (w_storage v ! 0) (unat ?t mod n_entries E)" and sz: "w_size w = w_size v"
    using o(14) [OF assms(2,3)] assms(5) by blast+
  obtain g where g: "f = Suc (Suc g)" using l(13) by blast
  obtain i' u' t u2 z where post: "reorg_post E (info_of ?a p) c ?b i' u' t"
    and r: "run (mulle_aba_storage_copy_change_worldpointer E th f Swap_free p (reorganize_storage_and_increment_timestamp E th f) c) s
      = Ok (\<lparr>new_world_p = 0, old_world_p = 0\<rparr>, u2) z"
    and z: "given_up ?a (copy_of w) E s z" "stores z = undone u' (stores t)" "errno z th = refusal w"
    unfolding g by (rule lost_reorganize.run_lost_change
      [OF l(7) [unfolded g] refl pre [unfolded g] refl o(2) [symmetric] l(11,12,9) sz l(16)])
  let ?u = "(rotate_world E ^^ turns ?b ?v) ?v"
  have t: "u' = c" "stores t = mark_used E ?u ?t (stores s)" "0 < turns ?b ?v" "turns ?b ?v < unat (w_n ?v)"
    using post by (auto simp: reorg_post_def advanced_def)
  have "0 < unat (w_n v)" using assms(5) by auto
  then have sl: "slot E ?u ?t = Some (w_storage v ! 0, unat ?t mod n_entries E)"
    using rotated_next(4) [OF ae wf_copy_of [OF o(6)] t(3,4)] nth by simp
  have "undone u' (stores t) = stores s" unfolding t(1,2) mark_used_marked [OF sl mk] using assms(4) by (simp add: undone_def)
  then have "unscathed E s w X z"
    by (intro unscathed_given_up [OF l(2) ext_ok_parts(2) [OF l(3)] l(14,15) z(1)]) (use z(2) in simp)
  with r z(3) l(10) show ?thesis by (intro that) simp_all
qed

lemma lost_grown:
  assumes "losing E f s w X p v" "ac_ts_storage c = 0"
  obtains c' t where
    "run (mulle_aba_storage_grow_worldpointer E th f (w_size v + 1) (add_storage_and_increment_timestamp E th f) c) s
      = Ok (\<lparr>new_world_p = 0, old_world_p = 0\<rparr>, c') t" "unscathed E s w X t" "errno t th = EBUSY"
proof -
  note l = losingD [OF assms(1)]
  note o = overtakenD [OF l(1)]
  obtain g where g: "f = Suc g" using l(13) by blast
  have "unat (w_size v) * n_entries E < 2 ^ 32" using wf_world_shape [OF o(6)] by (simp add: wf_shape_def)
  moreover have "unat (w_size v) * 2 \<le> unat (w_size v) * n_entries E" by (rule mult_le_mono2) (simp add: n_entries_def)
  ultimately have "unat (w_size v) * 2 < 2 ^ 32" by linarith
  then have "unat (w_size v) + 1 < 2 ^ 32" by simp
  then have "unat (w_size v + 1) = unat (w_size v) + 1" by (simp add: unat_word_ariths)
  then have nz: "w_size v + 1 \<noteq> 0" by (metis unat_0 add_is_0 one_neq_zero)
  obtain c' z where r: "run (mulle_aba_storage_grow_worldpointer E th f (w_size v + 1) (add_storage_and_increment_timestamp E th f) c) s
      = Ok (\<lparr>new_world_p = 0, old_world_p = 0\<rparr>, c') z" and z: "stores z = stores s"
    "w_size v + 1 \<le> w_size w \<longrightarrow> z = s\<lparr>errno := (errno s)(th := EBUSY)\<rparr>"
    "w_size w < w_size v + 1 \<longrightarrow> given_up (calloc_at E (drained s)) (grown (w_size v + 1) w) E s z \<and> errno z th = refusal w"
    unfolding g by (rule run_grow_lost [OF l(8) [unfolded g] nz assms(2) l(16), where th = th and fuel = f, unfolded g])
  show ?thesis
  proof (cases "w_size v + 1 \<le> w_size w")
    case True
    then have "z = s\<lparr>errno := (errno s)(th := EBUSY)\<rparr>" using z(2) by blast
    then have "unscathed E s w X z" "errno z th = EBUSY" using unscathed_errno [OF l(2)] by simp_all
    with r show ?thesis by (intro that)
  next
    case False
    then have gu: "given_up (calloc_at E (drained s)) (grown (w_size v + 1) w) E s z" "errno z th = EBUSY" using z(3) l(10) by simp_all
    have "unscathed E s w X z" by (rule unscathed_given_up [OF l(2) ext_ok_parts(2) [OF l(3)] l(14,15) gu(1) z(1)])
    with r gu(2) show ?thesis by (intro that)
  qed
qed

text \<open>Whichever of them the free tries, it fails, and the storage is as it was.\<close>

lemma run_free_change_lost:
  assumes "losing E f s w X p v" "ac_ts_storage c = 0"
  obtains c' t where "run (free_change E th f p v (slot E v (w_timestamp v + 1)) c) s = Ok (\<lparr>new_world_p = 0, old_world_p = 0\<rparr>, c') t"
    "unscathed E s w X t" "errno t th = EBUSY"
proof (cases "slot E v (w_timestamp v + 1) = None")
  case False
  obtain c' t where "run (mulle_aba_storage_copy_change_worldpointer E th f Swap_free p (increment_timestamp E th f) c) s
      = Ok (\<lparr>new_world_p = 0, old_world_p = 0\<rparr>, c') t" "unscathed E s w X t" "errno t th = EBUSY"
    by (rule lost_in_storage [OF assms(1) False assms(2)])
  with False show ?thesis by (intro that) (simp_all add: free_change_def)
next
  case none: True
  note l = losingD [OF assms(1)]
  note o = overtakenD [OF l(1)]
  show ?thesis
  proof (cases "w_n v < w_size v")
    case True
    obtain c' t where "run (mulle_aba_storage_copy_change_worldpointer E th f Swap_free p (add_storage_and_increment_timestamp E th f) c) s
      = Ok (\<lparr>new_world_p = 0, old_world_p = 0\<rparr>, c') t" "unscathed E s w X t" "errno t th = EBUSY"
      by (rule lost_added [OF assms(1) none True])
    with none True show ?thesis by (intro that) (simp_all add: free_change_def)
  next
    case full: False
    moreover have "w_n v \<le> w_size v" using wf_world_shape [OF o(6)] by (simp add: wf_shape_def word_le_nat_alt)
    ultimately have n: "w_n v = w_size v" by simp
    then have T: "w_timestamp v \<noteq> 0" using o(7) wf_world_size(1) [OF o(6)] by auto
    have "at_end E s v" by (rule at_end_full [OF o(6,11) T n _ o(10)]) (use none in \<open>auto simp: slot_def\<close>)
    note cnt = run_count_at_end [OF o(1,5) this, of th]
    note cz = count_unused [where w = v and s = s]
    show ?thesis
    proof (cases "\<exists>i. Suc i < unat (w_n v) \<and> unused s (w_storage v ! i)")
      case True
      obtain c' t where "run (mulle_aba_storage_copy_change_worldpointer E th f Swap_free p (reorganize_storage_and_increment_timestamp E th f) c) s
        = Ok (\<lparr>new_world_p = 0, old_world_p = 0\<rparr>, c') t" "unscathed E s w X t" "errno t th = EBUSY"
        by (rule lost_reorganized [OF assms(1) none n assms(2) True])
      with True full none cnt cz show ?thesis by (intro that) (simp_all add: free_change_def run_bnd)
    next
      case False
      obtain c' t where "run (mulle_aba_storage_grow_worldpointer E th f (w_size v + 1) (add_storage_and_increment_timestamp E th f) c) s
        = Ok (\<lparr>new_world_p = 0, old_world_p = 0\<rparr>, c') t" "unscathed E s w X t" "errno t th = EBUSY"
        by (rule lost_grown [OF assms])
      with False full none cnt cz show ?thesis by (intro that) (simp_all add: free_change_def run_bnd)
    qed
  qed
qed

end
