(* ===== verification/Aba_Checkin.thy ===== *)
theory Aba_Checkin
  imports Aba_Free
begin

text \<open>
  Checking in: the thread gives up its reference to every timestamp since its last check-in; the
  pointers of a timestamp nobody holds any more are freed. Between two rounds of the loop memory satisfies
  the invariant with the thread's own timestamp already past the rounds done (\<open>with_tss\<close>), although the code
  writes thread-specific storage only at the end.
\<close>

section \<open>Holders during the loop\<close>

definition with_tss :: "mem \<Rightarrow> tid \<Rightarrow> uptr \<Rightarrow> mem" where
  "with_tss s th v = s\<lparr>tss := (tss s)(th := v)\<rparr>"

lemma with_tss_sel [simp]:
  "worlds (with_tss s th v) = worlds s" "stores (with_tss s th v) = stores s" "entries (with_tss s th v) = entries s"
  "q (with_tss s th v) = q s" "tss (with_tss s th v) = (tss s)(th := v)" "trace (with_tss s th v) = trace s"
  "tss_key (with_tss s th v) = tss_key s"
  by (simp_all add: with_tss_def)

lemma hold_next:
  assumes "v \<noteq> 0" "unat v \<le> unat (w_timestamp w)" "unat v < 2 ^ 62" "tss t = tss s"
  shows "hold (with_tss t th (v + 1)) w = (hold (with_tss s th v) w)(unat v := hold (with_tss s th v) w (unat v) - {th})"
    "th \<in> hold (with_tss s th v) w (unat v)"
proof -
  have u: "unat (v + 1) = unat v + 1" by (rule unat_plus_1) (use assms(3) in simp)
  then have "v + 1 \<noteq> 0" by (metis unat_0 add_is_0 one_neq_zero)
  with u assms show "hold (with_tss t th (v + 1)) w = (hold (with_tss s th v) w)(unat v := hold (with_tss s th v) w (unat v) - {th})"
    "th \<in> hold (with_tss s th v) w (unat v)"
    by (auto simp: hold_def fun_eq_iff)
qed

text \<open>What the loop does to the entry: one holder less, and without holders nothing is left in the list.\<close>

definition drop_ref :: "bool \<Rightarrow> timestampentry \<Rightarrow> timestampentry" where
  "drop_ref b x = \<lparr>retain_count_1 = retain_count_1 x - 1, pointer_list = (if b then [] else pointer_list x)\<rparr>"

definition strip :: "tid \<Rightarrow> ('a \<times> tid set) multiset \<Rightarrow> ('a \<times> tid set) multiset" where
  "strip th = image_mset (\<lambda>(x, h). (x, h - {th}))"

lemma strip_add [simp]: "strip th (A + B) = strip th A + strip th B" "strip th {#} = {#}"
  by (simp_all add: strip_def)

lemma guards_strip: "r \<noteq> th \<Longrightarrow> guards N (strip th W) r a = guards N W r a"
  by (force simp: guards_def strip_def)

lemma guards_add [simp]: "guards N (A + B) r a \<longleftrightarrow> guards N A r a \<or> guards N B r a"
  by (auto simp: guards_def)

lemma card_word:
  assumes "finite h" "th \<in> h"
  shows "(word_of_nat (card (h - {th})) :: uptr) = word_of_nat (card h) - 1"
proof -
  obtain n where n: "n = card (h - {th})" by blast
  have "card h = Suc n" unfolding n using assms by (rule card.remove)
  then show ?thesis unfolding n [symmetric] by simp
qed

lemma layout_dropped:
  assumes "layout E (with_tss s th v) w" "v \<noteq> 0" "unat v \<le> unat (w_timestamp w)" "unat v < 2 ^ 62" "tss t = tss s"
    and "h = hold (with_tss s th v) w (unat v)"
    and "stores t = (if h = {th} then use_at E w (unat v) 0 (upd_at E w (unat v) (drop_ref True) (stores s))
       else upd_at E w (unat v) (drop_ref False) (stores s))"
  shows "layout E (with_tss t th (v + 1)) w"
    "strip th (waiting E (with_tss s th v) w) = strip th (waiting E (with_tss t th (v + 1)) w)
      + (if h = {th} then image_mset (\<lambda>x. (x, {})) (mset (pointer_list (entry_at E (stores s) w (unat v)))) else {#})"
    "h = {th} \<Longrightarrow> waiting E (with_tss s th v) w = waiting E (with_tss t th (v + 1)) w
        + image_mset (\<lambda>x. (x, h)) (mset (pointer_list (entry_at E (stores s) w (unat v))))"
    "image_mset fst (waiting E (with_tss s th v) w) = image_mset fst (waiting E (with_tss t th (v + 1)) w)
      + (if h = {th} then mset (pointer_list (entry_at E (stores s) w (unat v))) else {#})"
proof -
  let ?n = "unat v" and ?S = "stores s" and ?L = "pointer_list (entry_at E (stores s) w (unat v))"
  note c = layoutD [OF assms(1), simplified]
  note hn = hold_next [OF assms(2-5), of th]
  let ?H = "hold (with_tss s th v) w" and ?H' = "hold (with_tss t th (v + 1)) w"
  have rg: "registered (with_tss t th (v + 1)) = registered (with_tss s th v)"
  proof -
    have "unat (v + 1) = unat v + 1" by (rule unat_plus_1) (use assms(4) in simp)
    then have "v + 1 \<noteq> 0" by (metis unat_0 add_is_0 one_neq_zero)
    then show ?thesis using assms(2,5) by (auto simp: registered_def)
  qed
  have thr: "th \<in> registered (with_tss s th v)" using assms(2) by (simp add: registered_def)
  have iw: "in_window E w ?n"
  proof -
    have "w_timestamp w \<noteq> 0" using assms(2,3) by (auto simp: unat_eq_zero)
    then have "unat (w_timestamp w) < window_hi E w" using c(1) by (simp add: wf_world_def window_hi_def)
    then show ?thesis using c(10) [OF thr] assms(3) by (simp add: in_window_def)
  qed
  have hh: "?H ?n = h" "th \<in> h" "finite h" "?H' = ?H(?n := h - {th})"
    using hn assms(6) finite_subset [OF hold_subset c(3)] by simp_all
  note e = slots_ok_entry [OF c(8) iw, unfolded hh(1)]
  have cw: "retain_count_1 (entry_at E ?S w ?n) - 1 = word_of_nat (card (h - {th})) - 1"
    using e card_word [OF hh(3,2)] by (simp add: entry_ok_def)
  note sh = slots_ok_shape [OF c(8,9) iw]
  have ok: "slots_ok E (stores t) w ?H' \<and> pend E (stores t) w ?H' + image_mset (\<lambda>x. (x, h)) (mset ?L)
    = pend E ?S w ?H + image_mset (\<lambda>x. (x, h - {th})) (if h = {th} then {#} else mset ?L)"
  proof (cases "h = {th}")
    case True
    have "entry_ok (h - {th}) (drop_ref True (entry_at E ?S w ?n)) ((0 :: uptr) \<noteq> 0)"
      using cw True by (simp add: entry_ok_def drop_ref_def)
    note a = slots_ok_upd_use [where S = ?S and f = "drop_ref True" and b = 0, OF c(8,9,6) iw this]
    note p = pend_upd [where S = ?S and f = "drop_ref True" and H' = ?H' and H = ?H, OF c(9,6) iw sh]
    note u = pend_use [where S = "upd_at E w ?n (drop_ref True) ?S" and b = 0 and H = ?H', OF c(9,6) iw
        store_shape_upd(1) [where S = ?S, OF sh]]
    show ?thesis using a p u True hh assms(7) by (simp add: drop_ref_def)
  next
    case False
    then have ne: "h - {th} \<noteq> {}" using hh(2) by blast
    have "entry_ok (h - {th}) (drop_ref False (entry_at E ?S w ?n)) (bit_at E ?S w ?n)"
      using cw ne e hh(2) by (auto simp: entry_ok_def drop_ref_def)
    note a = slots_ok_upd [where S = ?S and f = "drop_ref False", OF c(8,9,6) iw this]
    note p = pend_upd [where S = ?S and f = "drop_ref False" and H' = ?H' and H = ?H, OF c(9,6) iw sh]
    show ?thesis using a p False hh assms(7) by (simp add: drop_ref_def)
  qed
  have ds: "dom (stores t) = dom (stores s)" using assms(7) by simp
  have "unat (v + 1) = unat v + 1" by (rule unat_plus_1) (use assms(4) in simp)
  then have bd: "unat (w_offset w) \<le> unat ((tss (with_tss t th (v + 1))) x)
      \<and> unat ((tss (with_tss t th (v + 1))) x) \<le> unat (w_timestamp w) + 1"
    if "x \<in> registered (with_tss s th v)" for x
    using c(10) [OF that] c(10) [OF thr] assms(3,5) by auto
  then show "layout E (with_tss t th (v + 1)) w"
    unfolding layout_def rg using c ok ds by simp
  have P: "waiting E (with_tss t th (v + 1)) w + image_mset (\<lambda>x. (x, h)) (mset ?L)
    = waiting E (with_tss s th v) w + image_mset (\<lambda>x. (x, h - {th})) (if h = {th} then {#} else mset ?L)"
    using ok by (simp add: waiting_def)
  show "strip th (waiting E (with_tss s th v) w) = strip th (waiting E (with_tss t th (v + 1)) w)
      + (if h = {th} then image_mset (\<lambda>x. (x, {})) (mset ?L) else {#})"
    using arg_cong [OF P, of "strip th"]
    by (cases "h = {th}") (simp_all add: strip_def image_mset.compositionality comp_def)
  show "h = {th} \<Longrightarrow> waiting E (with_tss s th v) w = waiting E (with_tss t th (v + 1)) w
        + image_mset (\<lambda>x. (x, h)) (mset ?L)" using P by simp
  show "image_mset fst (waiting E (with_tss s th v) w) = image_mset fst (waiting E (with_tss t th (v + 1)) w)
      + (if h = {th} then mset ?L else {#})"
    using arg_cong [OF P, of "image_mset fst"]
    by (cases "h = {th}") (simp_all add: image_mset.compositionality comp_def)
qed

section \<open>Freeing a list of entries\<close>

lemma retired_append: "retired s (P + mset xs) = retired s P + mset (worlds_of s xs)"
  by (induction xs) (simp_all add: retired_def worlds_of_def)

lemma zeroed_other: "x \<notin> set xs \<Longrightarrow> zeroed xs N x = N x"
  by (simp add: zeroed_def)

lemma ents_freed:
  assumes "ents s (P + mset xs)" "entries t = zeroed xs (entries s)"
    and "mset (q_free_entries (q t)) = mset xs + mset (q_free_entries (q s))"
  shows "ents t P"
proof -
  note w = assms(1) [unfolded ents_def]
  have M: "P + (mset xs + mset (q_free_entries (q s))) = P + mset xs + mset (q_free_entries (q s))"
    by (simp add: ac_simps)
  have "x \<in> dom (entries s)" if "x \<in> set xs" for x using w [THEN conjunct2, THEN conjunct1] that by auto
  moreover have "dom (zeroed xs (entries s)) = set xs \<union> dom (entries s)" by (auto simp: zeroed_def split: if_splits)
  ultimately have d: "dom (entries t) = dom (entries s)" unfolding assms(2) by blast
  have st: "set (q_free_entries (q t)) = set xs \<union> set (q_free_entries (q s))"
    using arg_cong [OF assms(3), of set_mset] by simp
  have P: "entries t x = entries s x" if "x \<in># P" for x
    using that w [THEN conjunct1] unfolding assms(2) by (auto intro: zeroed_other)
  have Z: "entries t x = Some zero_entry" if "x \<in> set (q_free_entries (q t))" for x
    using that w unfolding st assms(2) by (auto simp: zeroed_def)
  have "fe_free (the (entries t x)) \<noteq> None
      \<and> fn_ok (the (fe_free (the (entries t x)))) (fe_owner (the (entries t x)))"
    if "x \<in># P" for x using w that P [OF that] by simp
  with Z show ?thesis
    unfolding ents_def assms(3) M d using w by blast
qed

lemma wrlds_freed_list:
  assumes "wrlds s (P + mset xs) X" "set_mset P \<inter> set xs = {}" "entries t = zeroed xs (entries s)"
    and "worlds t = cleared (worlds_of s xs) (worlds s)" "q_leaks (q t) = q_leaks (q s)"
    and "mset (q_free_worlds (q t)) = mset (worlds_of s xs) + mset (q_free_worlds (q s))"
  shows "wrlds t P X"
proof -
  have "retired t P = retired s P"
    unfolding retired_def using assms(2,3)
    by (intro arg_cong [of _ _ sum_mset] image_mset_cong) (auto simp: zeroed_other disjoint_iff)
  moreover have "retired s (P + mset xs) + mset (q_leaks (q s)) + X = retired s P + mset (q_leaks (q s)) + X + mset (worlds_of s xs)"
    unfolding retired_append by (simp add: ac_simps)
  ultimately show ?thesis
    using assms(1,4-6) worlds_ok_cleared [of "worlds s" "retired s P + mset (q_leaks (q s)) + X" "worlds_of s xs"]
    by (simp only: wrlds_alt)
qed

lemma listed_callable:
  assumes "ents s (P + mset xs)" "wrlds s (P + mset xs) X" "x \<in> set xs"
  shows "x \<noteq> 0 \<and> (\<exists>e. entries s x = Some e \<and> callable s e)"
proof -
  have "x \<in># P + mset xs" using assms(3) by simp
  from entsD(5) [OF assms(1) this] obtain e where e: "x \<noteq> 0" "entries s x = Some e" "fe_free e \<noteq> None"
    "fn_ok (the (fe_free e)) (fe_owner e)" by blast
  have "fe_pointer e \<noteq> 0 \<and> (\<exists>w. worlds s (fe_pointer e) = Some w \<and> unat (w_size w) \<le> length (w_storage w))"
    if "fe_free e = Some Fn_owned_pointer_free_world"
  proof -
    have "fe_pointer e \<in># mset (worlds_of s xs)"
      using assms(3) e(2) that by (force simp: worlds_of_def world_ptrs_def)
    then have "fe_pointer e \<in># retired s (P + mset xs) + mset (q_leaks (q s)) + X" unfolding retired_append by simp
    from wrldsD(5) [OF assms(2) this] show ?thesis by blast
  qed
  with e show ?thesis by (simp add: callable_def)
qed

section \<open>One round of the loop\<close>

text \<open>The loop neither allocates nor gives anything back to the allocator.\<close>

definition same_blocks :: "mem \<Rightarrow> mem \<Rightarrow> bool" where
  "same_blocks s t \<longleftrightarrow> dom (worlds t) = dom (worlds s) \<and> dom (stores t) = dom (stores s) \<and> dom (entries t) = dom (entries s)"

lemma same_blocks_refl [simp]: "same_blocks s s"
  by (simp add: same_blocks_def)

lemma same_blocks_trans: "same_blocks s t \<Longrightarrow> same_blocks t u \<Longrightarrow> same_blocks s u"
  by (simp add: same_blocks_def)

lemma same_blocks_live: "same_blocks s t \<Longrightarrow> live t = live s"
  by (auto simp: same_blocks_def live_def fun_eq_iff simp flip: domIff)

lemma dom_cleared [simp]: "dom (cleared ps W) = dom W"
  by (auto simp: cleared_def split: if_splits)

lemma dom_zeroed [simp]: "dom (zeroed xs N) = set xs \<union> dom N"
  by (auto simp: zeroed_def split: if_splits)

lemma inv_dropped:
  assumes "inv E (with_tss s th v) w X" "get_bit' (q_world (q s)) = 1" "layout E (with_tss t th (v + 1)) w" "v + 1 \<noteq> 0"
    and "ents t (image_mset fst (waiting E (with_tss t th (v + 1)) w))"
    and "wrlds t (image_mset fst (waiting E (with_tss t th (v + 1)) w)) (add_mset (get_struct (q_world (q s))) X)"
    and "q_world (q t) = q_world (q s)" "worlds t (get_struct (q_world (q s))) = Some w"
  shows "inv E (with_tss t th (v + 1)) w X"
proof -
  note i = invD [OF assms(1), simplified]
  have e: "ents (with_tss t th (v + 1)) P = ents t P" for P by (rule ents_cong) simp_all
  have r: "wrlds (with_tss t th (v + 1)) P Y = wrlds t P Y" for P Y by (simp add: wrlds_def retired_def)
  show ?thesis
    unfolding inv_def e r core_def
    using i(1-4) coreD(2) [OF i(6)] assms(2-8) by (simp add: core_def)
qed

text \<open>The calls behind a multiset of waiting entries.\<close>

definition pend_calls :: "(uptr \<Rightarrow> freeentry option) \<Rightarrow> (uptr \<times> tid set) multiset \<Rightarrow> (event \<times> tid set) multiset" where
  "pend_calls N W = (\<Sum>x \<in># W. image_mset (\<lambda>c. (c, snd x)) (mset (client_calls (the (N (fst x))))))"

lemma pending_alt: "pending E s w = pend_calls (entries s) (waiting E s w)"
  by (simp add: pending_def pend_calls_def)

lemma pend_calls_add [simp]: "pend_calls N (A + B) = pend_calls N A + pend_calls N B" "pend_calls N {#} = {#}"
  by (simp_all add: pend_calls_def)

lemma strip_pend_calls: "strip th (pend_calls N W) = pend_calls N (strip th W)"
  by (induction W) (simp_all add: pend_calls_def strip_def image_mset.compositionality comp_def split_beta)

lemma pend_calls_list: "pend_calls (entries s) (image_mset (\<lambda>x. (x, h)) (mset xs)) = image_mset (\<lambda>c. (c, h)) (mset (calls_of s xs))"
  by (induction xs) (simp_all add: pend_calls_def calls_of_def)

lemma pend_calls_cong: "(\<And>x. x \<in># image_mset fst W \<Longrightarrow> N x = N' x) \<Longrightarrow> pend_calls N W = pend_calls N' W"
  unfolding pend_calls_def by (intro arg_cong [of _ _ sum_mset] image_mset_cong) auto

lemma ts_upd_drop:
  "ts_upd j (\<lambda>x. x\<lparr>retain_count_1 := retain_count_1 x - 1\<rparr>) ts = ts_upd j (drop_ref False) ts"
  "j < length (ts_entries ts) \<Longrightarrow> ts_upd j (\<lambda>x. x\<lparr>pointer_list := []\<rparr>) (ts_upd j (drop_ref False) ts) = ts_upd j (drop_ref True) ts"
  by (cases "ts_entries ts ! j"; simp add: ts_upd_def drop_ref_def)+

lemma held_slot:
  assumes "layout E (with_tss s th v) w" "v \<noteq> 0" "unat v \<le> unat (w_timestamp w)"
  obtains y where "covers E w v" "stores s (stor E w (unat v)) = Some y" "length (ts_entries y) = n_entries E"
    "ts_entries y ! (unat v mod n_entries E) = entry_at E (stores s) w (unat v)" "in_window E w (unat v)"
    "slot E w v = Some (stor E w (unat v), unat v mod n_entries E)" "stor E w (unat v) \<noteq> 0"
proof -
  note c = layoutD [OF assms(1), simplified]
  have thr: "th \<in> registered (with_tss s th v)" using assms(2) by (simp add: registered_def)
  have "w_timestamp w \<noteq> 0" using assms(2,3) by (auto simp: unat_eq_zero)
  then have "unat (w_timestamp w) < window_hi E w" using c(1) by (simp add: wf_world_def window_hi_def)
  then have iw: "in_window E w (unat v)" using c(10) [OF thr] assms(3) by (simp add: in_window_def)
  then have cv: "covers E w v" using in_window_covers [OF c(9) assms(2) refl] by simp
  obtain y where "stores s (stor E w (unat v)) = Some y" "length (ts_entries y) = n_entries E"
    using slots_ok_shape [OF c(8,9) iw] by (auto simp: store_shape_def)
  with cv iw slot_stor [OF c(9) cv] stor_nonzero [OF c(9) iw] show ?thesis
    by (intro that) (simp_all add: entry_at_def)
qed

lemma last_holder:
  assumes "layout E (with_tss s th v) w" "v \<noteq> 0" "unat v \<le> unat (w_timestamp w)" "unat v < 2 ^ 62" "in_window E w (unat v)"
  shows "retain_count_1 (entry_at E (stores s) w (unat v)) = 0 \<longleftrightarrow> hold (with_tss s th v) w (unat v) = {th}"
proof -
  let ?h = "hold (with_tss s th v) w (unat v)"
  note c = layoutD [OF assms(1), simplified]
  have h: "th \<in> ?h" "finite ?h" "?h \<subseteq> registered (with_tss s th v)"
    using hold_next(2) [OF assms(2-4) refl, of th s] finite_subset [OF hold_subset c(3)] hold_subset by blast+
  have "retain_count_1 (entry_at E (stores s) w (unat v)) = word_of_nat (card (?h - {th}))"
    using slots_ok_entry [OF c(8) assms(5)] card_word [OF h(2,1)] by (simp add: entry_ok_def)
  moreover have "card (?h - {th}) < 2 ^ 64"
  proof -
    have "card (?h - {th}) \<le> card (registered (with_tss s th v))" using h(3) c(3) by (intro card_mono) auto
    also have "\<dots> < 10000" by (rule c(5))
    finally show ?thesis by simp
  qed
  then have "(word_of_nat (card (?h - {th})) :: uptr) = 0 \<longleftrightarrow> card (?h - {th}) = 0"
    by (simp add: word_unat_eq_iff unat_of_nat)
  moreover have "card (?h - {th}) = 0 \<longleftrightarrow> ?h - {th} = {}" by (rule card_0_eq) (use h(2) in simp)
  moreover have "?h - {th} = {} \<longleftrightarrow> ?h = {th}" using h(1) by blast
  ultimately show ?thesis by simp
qed

text \<open>Up to the test of the count: \<open>x\<close> and \<open>j\<close> are the storage and the index of the timestamp.\<close>

definition dropped :: "ext \<Rightarrow> world \<Rightarrow> uptr \<Rightarrow> mem \<Rightarrow> mem" where
  "dropped E w v s = s\<lparr>stores := upd_at E w (unat v) (drop_ref False) (stores s)\<rparr>"

lemma dropped_sel [simp]:
  "worlds (dropped E w v s) = worlds s" "entries (dropped E w v s) = entries s" "q (dropped E w v s) = q s"
  "tss (dropped E w v s) = tss s" "trace (dropped E w v s) = trace s"
  "stores (dropped E w v s) = upd_at E w (unat v) (drop_ref False) (stores s)"
  by (simp_all add: dropped_def)

lemma run_round_start:
  assumes inv: "inv E (with_tss s th v) w X" and v: "v \<noteq> 0" "unat v \<le> unat (w_timestamp w)" "unat (w_timestamp w) < 2 ^ 62" "v \<le> new"
    and e: "e = (stor E w (unat v), unat v mod n_entries E)" and a: "a = get_struct (q_world (q s))"
  shows "run (check_timerange_loop E th (Suc f) a v new) s =
    (if hold (with_tss s th v) w (unat v) = {th}
     then run (bnd (entry_get_list e) (\<lambda>free_list. bnd (entry_clear_list e) (\<lambda>_.
       bnd (mulle_aba_timestampstorage_set_usage_bit E (Suc f) (fst e) (word_of_nat (snd e)) 0) (\<lambda>_.
       bnd (mulle_aba_storage_linkedlist_free E free_list) (\<lambda>_. check_timerange_loop E th f a (v + 1) new)))))
       (dropped E w v s)
     else run (check_timerange_loop E th f a (v + 1) new) (dropped E w v s))"
proof -
  let ?j = "unat v mod n_entries E" and ?x = "stor E w (unat v)"
  note i = invD [OF inv, simplified, folded a]
  note l = coreD(1) [OF i(6)]
  note c = layoutD [OF l, simplified]
  have v62: "unat v < 2 ^ 62" using v(2,3) by (rule le_less_trans)
  obtain y where y: "covers E w v" "stores s ?x = Some y" "length (ts_entries y) = n_entries E"
    "ts_entries y ! ?j = entry_at E (stores s) w (unat v)" "in_window E w (unat v)" "slot E w v = Some (?x, ?j)" "?x \<noteq> 0"
    by (rule held_slot [OF l v(1,2)])
  have sx: "w_storage w ! slot_index E w v = ?x" "slot_index E w v < unat (w_n w)" "w_offset w \<le> v"
    using y(1,6) by (simp_all add: slot_def covers_def)
  have j: "?j < length (ts_entries y)" using y(3) by simp
  have ti: "mulle_aba_timestampstorage_get_timestamp_index E v = word_of_nat ?j" "unat (word_of_nat ?j :: uint) = ?j"
    using timestamp_index_word mod_word(1) by blast+
  have lk: "run (mulle_aba_world_get_timestampstorage_index E th a v) s = Ok (word_of_nat (slot_index E w v)) s"
    by (rule run_get_timestampstorage_index [OF i(1,3) sx(3,2)])
  have at: "run (mulle_aba_world_get_timestampstorage_at_index E a (word_of_nat (slot_index E w v))) s = Ok ?x s"
    using run_get_timestampstorage_at_index [OF i(1,3), of "word_of_nat (slot_index E w v)"] slot_index_unat [OF sx(2)]
      sx y(7) wf_shape_storage_nonzero [OF c(9) sx(2)] by simp
  have dc: "run (entry_decrement_rc (?x, ?j)) s = Ok (retain_count_1 (entry_at E (stores s) w (unat v))) (dropped E w v s)"
    using run_entry_ops(1) [OF y(7,2) j] y(2,4) by (simp add: dropped_def ts_upd_drop upd_at_def)
  show ?thesis
    unfolding e using v(4) lk at y(7) dc j y(3) last_holder [OF l v(1,2) v62 y(5)]
    by (cases "hold (with_tss s th v) w (unat v) = {th}")
      (simp_all add: run_bnd run_c_assert ti mulle_aba_timestampstorage_get_timestampentry_at_index_def
        not_less [symmetric] Let_def)
qed

lemma wrlds_cong: "worlds t = worlds s \<Longrightarrow> entries t = entries s \<Longrightarrow> q_leaks (q t) = q_leaks (q s)
    \<Longrightarrow> q_free_worlds (q t) = q_free_worlds (q s) \<Longrightarrow> wrlds t P X = wrlds s P X"
  by (simp only: wrlds_def retired_def)

text \<open>Other threads still hold the timestamp.\<close>

lemma round_keeps:
  assumes inv: "inv E (with_tss s th v) w X" and bit: "get_bit' (q_world (q s)) = 1"
    and v: "v \<noteq> 0" "unat v \<le> unat (w_timestamp w)" "unat (w_timestamp w) < 2 ^ 62"
    and h: "hold (with_tss s th v) w (unat v) \<noteq> {th}"
  shows "inv E (with_tss (dropped E w v s) th (v + 1)) w X"
    "strip th (pending E (with_tss s th v) w) = strip th (pending E (with_tss (dropped E w v s) th (v + 1)) w)"
    "spares E (- {th}) (with_tss s th v) w X (with_tss (dropped E w v s) th (v + 1)) w X"
proof -
  let ?s = "dropped E w v s" and ?h = "hold (with_tss s th v) w (unat v)"
  note i = invD [OF inv, simplified]
  have v62: "unat v < 2 ^ 62" using v(2,3) by (rule le_less_trans)
  have "unat (v + 1) = unat v + 1" by (rule unat_plus_1) (use v62 in simp)
  then have v1: "v + 1 \<noteq> 0" by (metis unat_0 add_is_0 one_neq_zero)
  have S: "stores ?s = (if ?h = {th} then use_at E w (unat v) 0 (upd_at E w (unat v) (drop_ref True) (stores s))
       else upd_at E w (unat v) (drop_ref False) (stores s))" using h by simp
  note d = layout_dropped [OF coreD(1) [OF i(6)] v(1,2) v62 _ refl S]
  have P: "image_mset fst (waiting E (with_tss ?s th (v + 1)) w) = image_mset fst (waiting E (with_tss s th v) w)"
    using d(4) h by simp
  have "ents ?s (image_mset fst (waiting E (with_tss s th v) w))"
    using i(7) ents_cong [of ?s "with_tss s th v"] by simp
  moreover have "wrlds ?s (image_mset fst (waiting E (with_tss s th v) w)) (add_mset (get_struct (q_world (q s))) X)"
    using i(8) wrlds_cong [of ?s "with_tss s th v"] by simp
  ultimately show "inv E (with_tss ?s th (v + 1)) w X"
    using i(3) by (intro inv_dropped [OF inv bit d(1) v1]) (simp_all add: P)
  show "strip th (pending E (with_tss s th v) w) = strip th (pending E (with_tss ?s th (v + 1)) w)"
    using d(2) h by (simp add: pending_alt strip_pend_calls)
  have "guards N (waiting E (with_tss ?s th (v + 1)) w) r a = guards N (waiting E (with_tss s th v) w) r a" if "r \<noteq> th" for N r a
    using guards_strip [OF that, of N "waiting E (with_tss s th v) w" a] guards_strip [OF that, of N "waiting E (with_tss ?s th (v + 1)) w" a]
      d(2) h by simp
  then show "spares E (- {th}) (with_tss s th v) w X (with_tss ?s th (v + 1)) w X"
    by (simp add: spares_def readable_def)
qed

text \<open>What is released at the end of a round waited for no other thread.\<close>

lemma spares_released:
  assumes "wrlds s3 (image_mset fst W' + mset L) (add_mset p X)"
    and "strip th W = strip th W' + image_mset (\<lambda>x. (x, {})) (mset L)" "set_mset (image_mset fst W') \<inter> set L = {}"
    and "waiting E s w = W" "waiting E t w = W'" "worlds s = worlds s3" "entries s = entries s3"
    and "worlds t = cleared (worlds_of s3 L) (worlds s3)" "entries t = zeroed L (entries s3)"
    and "q_leaks (q s) = q_leaks (q s3)" "q_leaks (q t) = q_leaks (q s3)" "get_struct (q_world (q s)) = p"
    and "q_world (q t) = q_world (q s)" "dom (stores t) = dom (stores s)"
  shows "spares E (- {th}) s w X t w X"
proof -
  let ?A = "retired s3 (image_mset fst W') + mset (q_leaks (q s3)) + add_mset p X"
  have dj: "a \<notin> set (worlds_of s3 L)" if "a \<in># ?A" for a
    using assms(1) that unfolding wrlds_def retired_append by auto
  have zo: "entries t (fst x) = entries s3 (fst x)" if "x \<in># W'" for x
    unfolding assms(9) by (rule zeroed_other) (use assms(3) that in auto)
  have "readable E t w X r a v" if r: "r \<noteq> th" and a: "readable E s w X r a v" for r a v
  proof -
    have "\<not> guards N (image_mset (\<lambda>x. (x, {})) (mset L)) r a" for N by (auto simp: guards_def)
    then have "guards (entries s3) W r a = guards (entries s3) W' r a"
      using guards_strip [OF r, of "entries s3" W a] guards_strip [OF r, of "entries s3" W' a] assms(2) by simp
    moreover have "guards (entries t) W' r a \<and> a \<in># ?A" if "guards (entries s3) W' r a"
      using that zo by (auto simp: guards_def retired_def)
    ultimately have "a \<in># ?A \<and> (a = get_struct (q_world (q t)) \<or> a \<in> set (q_leaks (q t)) \<or> a \<in># X \<or> guards (entries t) W' r a)"
      using a assms(4,7,10-13) by (auto simp: readable_def)
    then show ?thesis using a dj assms(5,6,8) by (auto simp: readable_def cleared_def)
  qed
  then show ?thesis using assms(14) by (simp add: spares_def)
qed

text \<open>The thread was the last holder: the list is emptied, the entry marked unused, its pointers are freed.\<close>

lemma round_frees:
  assumes inv: "inv E (with_tss s th v) w X" and E: "ext_ok E" and bit: "get_bit' (q_world (q s)) = 1"
    and v: "v \<noteq> 0" "unat v \<le> unat (w_timestamp w)" "unat (w_timestamp w) < 2 ^ 62" and F: "weak_bound E (Suc f)"
    and h: "hold (with_tss s th v) w (unat v) = {th}" and e: "e = (stor E w (unat v), unat v mod n_entries E)"
  obtains t cs where "run (bnd (entry_get_list e) (\<lambda>free_list. bnd (entry_clear_list e) (\<lambda>_.
       bnd (mulle_aba_timestampstorage_set_usage_bit E (Suc f) (fst e) (word_of_nat (snd e)) 0) (\<lambda>_.
       bnd (mulle_aba_storage_linkedlist_free E free_list) (\<lambda>_. p))))) (dropped E w v s) = run p t"
    "inv E (with_tss t th (v + 1)) w X"
    "strip th (pending E (with_tss s th v) w) = strip th (pending E (with_tss t th (v + 1)) w) + image_mset (\<lambda>c. (c, {})) (mset cs)"
    "trace t = trace s @ cs" "tss t = tss s" "q_world (q t) = q_world (q s)" "same_blocks s t"
    "spares E (- {th}) (with_tss s th v) w X (with_tss t th (v + 1)) w X"
proof -
  let ?j = "unat v mod n_entries E" and ?x = "stor E w (unat v)" and ?L = "pointer_list (entry_at E (stores s) w (unat v))"
  let ?a = "get_struct (q_world (q s))" and ?P = "image_mset fst (waiting E (with_tss s th v) w)"
  note i = invD [OF inv, simplified]
  note l = coreD(1) [OF i(6)]
  note c = layoutD [OF l, simplified]
  have v62: "unat v < 2 ^ 62" using v(2,3) by (rule le_less_trans)
  have "unat (v + 1) = unat v + 1" by (rule unat_plus_1) (use v62 in simp)
  then have v1: "v + 1 \<noteq> 0" by (metis unat_0 add_is_0 one_neq_zero)
  obtain y where y: "covers E w v" "stores s ?x = Some y" "length (ts_entries y) = n_entries E"
    "ts_entries y ! ?j = entry_at E (stores s) w (unat v)" "in_window E w (unat v)" "slot E w v = Some (?x, ?j)" "?x \<noteq> 0"
    by (rule held_slot [OF l v(1,2)])
  have j: "?j < length (ts_entries y)" using y(3) by simp
  let ?y1 = "ts_upd ?j (drop_ref False) y" and ?y2 = "ts_upd ?j (drop_ref True) y"
  have s1: "stores (dropped E w v s) ?x = Some ?y1" "?j < length (ts_entries ?y1)" using y(2) j by (simp_all add: upd_at_def)
  have gl: "run (entry_get_list e) (dropped E w v s) = Ok ?L (dropped E w v s)"
    unfolding e using run_entry_ops(4) [OF y(7) s1] j y(4) by (simp add: drop_ref_def)
  define s2 where "s2 = s\<lparr>stores := upd_at E w (unat v) (drop_ref True) (stores s)\<rparr>"
  have cl: "run (entry_clear_list e) (dropped E w v s) = Ok () s2"
    unfolding e using run_entry_ops(5) [OF y(7) s1] ts_upd_drop(2) [OF j] y(2)
    by (simp add: s2_def dropped_def upd_at_def)
  have st2: "stores s2 ?x = Some ?y2" using y(2) by (simp add: s2_def upd_at_def)
  obtain m where ub: "run (mulle_aba_timestampstorage_set_usage_bit E (Suc f) ?x (word_of_nat ?j) 0) s2
      = Ok (usage_result (set_mask (usage_bits ?y2) (word_of_nat ?j) 0))
        (s2\<lparr>nops := m, stores := (stores s2)(?x \<mapsto> ?y2\<lparr>usage_bits := set_mask (usage_bits ?y2) (word_of_nat ?j) 0\<rparr>)\<rparr>)"
    using run_set_usage_bit [OF y(7) st2 F] by blast
  define s3 where "s3 = s2\<lparr>nops := m, stores := use_at E w (unat v) 0 (stores s2)\<rparr>"
  have ub3: "run (mulle_aba_timestampstorage_set_usage_bit E (Suc f) ?x (word_of_nat ?j) 0) s2
      = Ok (usage_result (set_mask (usage_bits ?y2) (word_of_nat ?j) 0)) s3"
    using ub st2 by (simp add: s3_def use_at_def)
  have s3: "stores s3 = use_at E w (unat v) 0 (upd_at E w (unat v) (drop_ref True) (stores s))" "entries s3 = entries s"
    "worlds s3 = worlds s" "q s3 = q s" "tss s3 = tss s" "trace s3 = trace s"
    by (simp_all add: s3_def s2_def)
  let ?P' = "image_mset fst (waiting E (with_tss s3 th (v + 1)) w)"
  have S: "stores s3 = (if {th} = {th} then use_at E w (unat v) 0 (upd_at E w (unat v) (drop_ref True) (stores s))
       else upd_at E w (unat v) (drop_ref False) (stores s))" using s3(1) by simp
  note d = layout_dropped [OF l v(1,2) v62 s3(5) h [symmetric] S]
  have P: "?P = ?P' + mset ?L" using d(4) by simp
  have en: "ents s3 (?P' + mset ?L)" using i(7) ents_cong [of s3 "with_tss s th v"] s3 P by simp
  have wr: "wrlds s3 (?P' + mset ?L) (add_mset ?a X)" using i(8) wrlds_cong [of s3 "with_tss s th v"] s3 P by simp
  note o = entsD(1) [OF en]
  then have dj: "distinct ?L" "set_mset ?P' \<inter> set ?L = {}" by auto
  have call: "\<forall>x \<in> set ?L. x \<noteq> 0 \<and> (\<exists>e. entries s3 x = Some e \<and> callable s3 e)"
    using listed_callable [OF en wr] by blast
  obtain A B where fr: "run (mulle_aba_storage_linkedlist_free E ?L) s3 = Ok () (s3\<lparr>worlds := cleared (worlds_of s3 ?L) (worlds s3),
        entries := zeroed ?L (entries s3), q := (q s3)\<lparr>q_free_entries := A, q_free_worlds := B\<rparr>,
        trace := trace s3 @ calls_of s3 ?L\<rparr>)"
    and AB: "mset A = mset ?L + mset (q_free_entries (q s3))" "mset B = mset (worlds_of s3 ?L) + mset (q_free_worlds (q s3))"
    using run_linkedlist_free [OF E dj(1) call] by blast
  define t where "t = s3\<lparr>worlds := cleared (worlds_of s3 ?L) (worlds s3),
        entries := zeroed ?L (entries s3), q := (q s3)\<lparr>q_free_entries := A, q_free_worlds := B\<rparr>,
        trace := trace s3 @ calls_of s3 ?L\<rparr>"
  have t: "worlds t = cleared (worlds_of s3 ?L) (worlds s3)" "entries t = zeroed ?L (entries s3)" "stores t = stores s3"
    "q_free_entries (q t) = A" "q_free_worlds (q t) = B" "q_leaks (q t) = q_leaks (q s3)" "q_world (q t) = q_world (q s)"
    "tss t = tss s" "trace t = trace s @ calls_of s3 ?L"
    using s3 by (simp_all add: t_def)
  have lt: "layout E (with_tss t th (v + 1)) w = layout E (with_tss s3 th (v + 1)) w"
    "waiting E (with_tss t th (v + 1)) w = waiting E (with_tss s3 th (v + 1)) w"
    using layout_cong [of "with_tss t th (v + 1)" "with_tss s3 th (v + 1)"] t(3,8) s3(5) by simp_all
  have et: "ents t ?P'" by (rule ents_freed [OF en t(2)]) (simp add: t(4) AB(1))
  have wt: "wrlds t ?P' (add_mset ?a X)" by (rule wrlds_freed_list [OF wr dj(2) t(2,1,6)]) (simp add: t(5) AB(2))
  have "?a \<notin> set (worlds_of s3 ?L)"
    using wr unfolding wrlds_def retired_append by auto
  then have wa: "worlds t ?a = Some w" using t(1) s3(3) i(3) by (simp add: cleared_def)
  have I: "inv E (with_tss t th (v + 1)) w X"
    by (rule inv_dropped [OF inv bit _ v1 _ _ t(7) wa]) (use lt d(1) et wt in simp_all)
  have pc: "pend_calls (entries t) (waiting E (with_tss t th (v + 1)) w) = pend_calls (entries s) (waiting E (with_tss s3 th (v + 1)) w)"
    unfolding lt(2) t(2) s3(2) using dj(2) by (intro pend_calls_cong) (auto simp: zeroed_other disjoint_iff)
  have PE: "strip th (pending E (with_tss s th v) w) = strip th (pending E (with_tss t th (v + 1)) w)
      + image_mset (\<lambda>c. (c, {})) (mset (calls_of s3 ?L))"
    using d(2) pc pend_calls_list [of s "{}" ?L] s3(2)
    by (simp add: pending_alt strip_pend_calls calls_of_def)
  have SP: "spares E (- {th}) (with_tss s th v) w X (with_tss t th (v + 1)) w X"
    by (rule spares_released [OF wr d(2) [unfolded if_P [OF refl]] dj(2)]) (use t s3 lt(2) in simp_all)
  have "run (bnd (entry_get_list e) (\<lambda>free_list. bnd (entry_clear_list e) (\<lambda>_.
       bnd (mulle_aba_timestampstorage_set_usage_bit E (Suc f) (fst e) (word_of_nat (snd e)) 0) (\<lambda>_.
       bnd (mulle_aba_storage_linkedlist_free E free_list) (\<lambda>_. p))))) (dropped E w v s) = run p t"
    using gl cl ub3 fr by (simp add: run_bnd e t_def [symmetric] del: mulle_aba_timestampstorage_set_usage_bit.simps)
  moreover have "same_blocks s t"
    using call unfolding same_blocks_def t(1-3) s3(1-3) by auto
  ultimately show ?thesis using I PE t(9,8,7) SP by (intro that)
qed

section \<open>The loop\<close>

lemma run_timerange:
  assumes E: "ext_ok E" and F: "weak_bound E F"
  shows "\<lbrakk>inv E (with_tss s th v) w X; get_bit' (q_world (q s)) = 1; v \<noteq> 0; unat v \<le> unat (w_timestamp w) + 1;
      unat (w_timestamp w) < 2 ^ 62; F + (unat (w_timestamp w) + 1 - unat v) < fuel\<rbrakk> \<Longrightarrow>
    \<exists>t cs. run (check_timerange_loop E th fuel (get_struct (q_world (q s))) v (w_timestamp w)) s = Ok () t
      \<and> inv E (with_tss t th (w_timestamp w + 1)) w X
      \<and> strip th (pending E (with_tss s th v) w)
        = strip th (pending E (with_tss t th (w_timestamp w + 1)) w) + image_mset (\<lambda>c. (c, {})) (mset cs)
      \<and> trace t = trace s @ cs \<and> tss t = tss s \<and> q_world (q t) = q_world (q s) \<and> same_blocks s t
      \<and> spares E (- {th}) (with_tss s th v) w X (with_tss t th (w_timestamp w + 1)) w X"
proof (induction fuel arbitrary: s v)
  case 0
  then show ?case by simp
next
  case (Suc f)
  have u: "unat (w_timestamp w + 1) = unat (w_timestamp w) + 1" by (rule unat_plus_1) (use Suc.prems(5) in simp)
  show ?case
  proof (cases "unat v = unat (w_timestamp w) + 1")
    case True
    then have v: "v = w_timestamp w + 1" using u by (simp add: word_unat_eq_iff)
    then have "w_timestamp w < v" using u by (simp add: word_less_nat_alt)
    then have "run (check_timerange_loop E th (Suc f) (get_struct (q_world (q s))) v (w_timestamp w)) s = Ok () s" by simp
    with v Suc.prems(1) show ?thesis by (intro exI [of _ s] exI [of _ "[]"]) simp
  next
    case False
    then have v: "unat v \<le> unat (w_timestamp w)" "v \<le> w_timestamp w" using Suc.prems(4) by (simp_all add: word_le_nat_alt)
    have uv: "unat (v + 1) = unat v + 1" by (rule unat_plus_1) (use v(1) Suc.prems(5) in simp)
    then have v1: "v + 1 \<noteq> 0" by (metis unat_0 add_is_0 one_neq_zero)
    have wb: "weak_bound E (Suc f)" by (rule weak_bound_mono [OF F]) (use Suc.prems(6) in simp)
    define e where "e = (stor E w (unat v), unat v mod n_entries E)"
    note start = run_round_start [OF Suc.prems(1,3) v(1) Suc.prems(5) v(2) e_def refl, of f]
    obtain t cs where t: "run (check_timerange_loop E th (Suc f) (get_struct (q_world (q s))) v (w_timestamp w)) s
        = run (check_timerange_loop E th f (get_struct (q_world (q s))) (v + 1) (w_timestamp w)) t"
      "inv E (with_tss t th (v + 1)) w X"
      "strip th (pending E (with_tss s th v) w) = strip th (pending E (with_tss t th (v + 1)) w) + image_mset (\<lambda>c. (c, {})) (mset cs)"
      "trace t = trace s @ cs" "tss t = tss s" "q_world (q t) = q_world (q s)" "same_blocks s t"
      "spares E (- {th}) (with_tss s th v) w X (with_tss t th (v + 1)) w X"
    proof (cases "hold (with_tss s th v) w (unat v) = {th}")
      case True
      obtain t cs where r: "run (bnd (entry_get_list e) (\<lambda>free_list. bnd (entry_clear_list e) (\<lambda>_.
         bnd (mulle_aba_timestampstorage_set_usage_bit E (Suc f) (fst e) (word_of_nat (snd e)) 0) (\<lambda>_.
         bnd (mulle_aba_storage_linkedlist_free E free_list) (\<lambda>_.
           check_timerange_loop E th f (get_struct (q_world (q s))) (v + 1) (w_timestamp w)))))) (dropped E w v s)
        = run (check_timerange_loop E th f (get_struct (q_world (q s))) (v + 1) (w_timestamp w)) t"
        "inv E (with_tss t th (v + 1)) w X"
        "strip th (pending E (with_tss s th v) w) = strip th (pending E (with_tss t th (v + 1)) w) + image_mset (\<lambda>c. (c, {})) (mset cs)"
        "trace t = trace s @ cs" "tss t = tss s" "q_world (q t) = q_world (q s)" "same_blocks s t"
        "spares E (- {th}) (with_tss s th v) w X (with_tss t th (v + 1)) w X"
        by (rule round_frees [OF Suc.prems(1) E Suc.prems(2,3) v(1) Suc.prems(5) wb True e_def])
      with start True show ?thesis by (intro that [of t cs]) simp_all
    next
      case False
      note k = round_keeps [OF Suc.prems(1-3) v(1) Suc.prems(5) False]
      with start False show ?thesis by (intro that [of "dropped E w v s" "[]"]) (simp_all add: same_blocks_def)
    qed
    have "unat (v + 1) \<le> unat (w_timestamp w) + 1" "F + (unat (w_timestamp w) + 1 - unat (v + 1)) < f"
      using uv v(1) Suc.prems(6) by simp_all
    with Suc.IH [of t "v + 1"] t(2,6) v1 Suc.prems(2,5) obtain z ds where z:
      "run (check_timerange_loop E th f (get_struct (q_world (q s))) (v + 1) (w_timestamp w)) t = Ok () z"
      "inv E (with_tss z th (w_timestamp w + 1)) w X"
      "strip th (pending E (with_tss t th (v + 1)) w)
        = strip th (pending E (with_tss z th (w_timestamp w + 1)) w) + image_mset (\<lambda>c. (c, {})) (mset ds)"
      "trace z = trace t @ ds" "tss z = tss t" "q_world (q z) = q_world (q t)" "same_blocks t z"
      "spares E (- {th}) (with_tss t th (v + 1)) w X (with_tss z th (w_timestamp w + 1)) w X" by auto
    with t same_blocks_trans [OF t(7) z(7)] spares_trans [OF t(8) z(8)] show ?thesis by (intro exI [of _ z] exI [of _ "cs @ ds"]) (simp add: add.commute add.left_commute)
  qed
qed

section \<open>Checking in\<close>

lemma waiting_holders:
  assumes "layout E s w" "x \<in># waiting E s w"
  obtains t where "snd x = hold s w t" "snd x \<noteq> {}"
proof -
  obtain t where t: "t \<in> {unat (w_offset w)..<window_hi E w}" "fst x \<in> set (pointer_list (entry_at E (stores s) w t))"
    "snd x = hold s w t"
    using assms(2) unfolding waiting_def pend_def by (subst (asm) set_mset_sum) auto
  then have "in_window E w t" by (simp add: in_window_def)
  from slots_ok_entry [OF layoutD(8) [OF assms(1)] this] t show ?thesis
    by (intro that [of t]) (auto simp: entry_ok_def)
qed

lemma strip_waiting:
  assumes "layout E s w" "\<And>t. th \<notin> hold s w t"
  shows "strip th (pending E s w) = pending E s w"
proof -
  have "strip th (waiting E s w) = image_mset id (waiting E s w)"
    unfolding strip_def
  proof (rule image_mset_cong)
    fix x assume "x \<in># waiting E s w"
    then obtain t where "snd x = hold s w t" using waiting_holders [OF assms(1)] by blast
    then have "snd x - {th} = snd x" using assms(2) by blast
    then show "(case x of (x, h) \<Rightarrow> (x, h - {th})) = id x" by (cases x) simp
  qed
  then show ?thesis by (simp add: pending_alt strip_pend_calls)
qed

lemma not_held: "tss s th = 0 \<or> unat (w_timestamp w) < unat (tss s th) \<Longrightarrow> th \<notin> hold s w t"
  by (auto simp: hold_def)

lemma with_tss_same: "with_tss s th (tss s th) = s"
  by (simp add: with_tss_def)

text \<open>The bit of the world pointer is set in place, unless it is set already.\<close>

definition checked_p :: "uptr \<Rightarrow> uptr" where
  "checked_p p = get_struct p OR 1"

lemma checked_p_parts [simp]:
  "get_struct (checked_p p) = get_struct p" "get_bit' (checked_p p) = 1" "get_lock (checked_p p) = 0"
  using new_pointer [of "get_struct p" 1] by (simp_all add: checked_p_def)

lemma inv_checked:
  assumes "inv E s w X" "w_n_threads w \<noteq> 0"
  shows "inv E (set_q_world (checked_p (q_world (q s))) s) w X"
    "pending E (set_q_world (checked_p (q_world (q s))) s) w = pending E s w"
    "spares E R s w X (set_q_world (checked_p (q_world (q s))) s) w X"
proof -
  let ?t = "set_q_world (checked_p (q_world (q s))) s"
  note i = invD [OF assms(1)]
  note l = layout_cong [of ?t s, simplified]
  have r: "registered ?t = registered s" by (simp add: registered_def)
  have "ents ?t P = ents s P" for P by (rule ents_cong) simp_all
  moreover have "wrlds ?t P Y = wrlds s P Y" for P Y by (rule wrlds_cong) simp_all
  ultimately show "inv E ?t w X" unfolding inv_def l r using i assms(2) by (simp add: good_state_def)
  show "pending E ?t w = pending E s w" by (rule pending_cong) (simp_all add: l)
  show "spares E R s w X ?t w X" by (rule spares_kept) (simp_all add: l)
qed

lemma run_checkin_change:
  assumes "inv E s w X" "w_timestamp w \<noteq> 0" "0 < fuel"
  shows "run (mulle_aba_storage_change_worldpointer_2 E th fuel Swap_checkin (q_world (q s)) set_bit ()) s
    = Ok (\<lparr>new_world_p = checked_p (q_world (q s)), old_world_p = q_world (q s)\<rparr>, ()) (set_q_world (checked_p (q_world (q s))) s)"
proof -
  let ?p = "q_world (q s)"
  note i = invD [OF assms(1)]
  note l = layoutD [OF coreD(1) [OF i(6)]]
  obtain f where f: "fuel = Suc f" using assms(3) by (cases fuel) auto
  have mk: "run (mulle_aba_worldpointer_make E (get_struct ?p) 1) s = Ok (checked_p ?p) s"
    using run_make [of 1 "get_struct ?p" E s] by (simp add: checked_p_def)
  have cp: "checked_p ?p \<noteq> 0" using i(1) by (metis checked_p_parts(1) get_bits_const(9))
  have sa: "run (mulle_aba_world_assert_sanity E th (get_struct ?p)) s = Ok () s" by (rule run_assert_sanity [OF i(1,3) l(1)])
  have "run (mulle_aba_storage_change_worldpointer E th fuel Swap_checkin ?p set_bit ()) s
    = Ok (\<lparr>new_world_p = checked_p ?p, old_world_p = ?p\<rparr>, ()) (set_q_world (checked_p ?p) s)"
  proof (cases "checked_p ?p = ?p")
    case True
    then have "set_q_world (checked_p ?p) s = s" using set_q_world_same [of s] by simp
    with True i(1,2) mk show ?thesis by (simp add: f set_bit_def run_bnd run_done_worldpointers)
  next
    case False
    have b0: "get_bit' ?p = 0"
    proof (rule ccontr)
      assume "get_bit' ?p \<noteq> 0"
      then have "get_bit' ?p = 1" using get_bit_cases by blast
      have "checked_p ?p = ?p" by (rule worldpointer_eqI [of "checked_p ?p" ?p]) (simp_all add: i(2) \<open>get_bit' ?p = 1\<close>)
      with False show False by blast
    qed
    have n: "w_n_threads w \<noteq> 0" "1 < unat (w_n_threads w)"
      using l(1) assms(2) i(4) b0 by (auto simp: wf_world_def good_state_def)
    have n10: "unat (w_n_threads w) < 10000" using l(4,5) by simp
    note b = less_10000 [OF n10]
    have st: "valid_transition (mulle_aba_worldpointer_state (checked_p ?p) w) (mulle_aba_worldpointer_state ?p w) Swap_checkin"
      unfolding state_alt [OF b(1)] using b0 i(2) assms(2) n(2) by (simp add: valid_transition_def)
    have ok: "swap_worlds_ok E Swap_checkin (checked_p ?p) ?p w w"
      using i(2) b0 b l(2) by (simp add: swap_worlds_ok_def)
    have "swap_ready E Swap_checkin s (checked_p ?p) ?p"
      unfolding swap_ready_def using i(1,3) st ok False by simp
    then have "run (mulle_aba_storage_swap_worlds E Swap_checkin (checked_p ?p) ?p) s = Ok 0 (set_q_world (checked_p ?p) s)"
      by (rule run_swap_worlds) simp_all
    with False i(1,2) mk sa show ?thesis by (simp add: f set_bit_def run_bnd run_done_worldpointers)
  qed
  with cp show ?thesis
    by (simp add: mulle_aba_storage_change_worldpointer_2_def run_bnd del: mulle_aba_storage_change_worldpointer.simps)
qed

lemma new_less_last:
  assumes "inv E s w X" "tss s th \<noteq> 0" "unat (w_timestamp w) < 2 ^ 62"
  shows "w_timestamp w <s tss s th \<longleftrightarrow> unat (tss s th) = unat (w_timestamp w) + 1"
    "unat (tss s th) \<le> unat (w_timestamp w) + 1"
proof -
  note i = invD [OF assms(1)]
  have "th \<in> registered s" using assms(2) by (simp add: registered_def)
  from layoutD(10) [OF coreD(1) [OF i(6)] this] show le: "unat (tss s th) \<le> unat (w_timestamp w) + 1" by blast
  have "unat (w_timestamp w) < 2 ^ 63" "unat (tss s th) < 2 ^ 63" using assms(3) le by simp_all
  from sless_unat [OF this] le show "w_timestamp w <s tss s th \<longleftrightarrow> unat (tss s th) = unat (w_timestamp w) + 1" by auto
qed

text \<open>The loop of a check-in or an unregistration, started at the thread's own timestamp.\<close>

lemma run_check_timerange:
  assumes "inv E s w X" "ready E fuel 0 s w" "get_bit' (q_world (q s)) = 1" "tss s th \<noteq> 0" "\<not> w_timestamp w <s tss s th"
  obtains t cs where
    "run (mulle_aba_world_check_timerange E th fuel (get_struct (q_world (q s))) (tss s th) (w_timestamp w)) s = Ok () t"
    "inv E (with_tss t th (w_timestamp w + 1)) w X"
    "strip th (pending E s w) = pending E (with_tss t th (w_timestamp w + 1)) w + image_mset (\<lambda>c. (c, {})) (mset cs)"
    "trace t = trace s @ cs" "tss t = tss s" "q_world (q t) = q_world (q s)" "same_blocks s t"
    "spares E (- {th}) s w X (with_tss t th (w_timestamp w + 1)) w X"
proof -
  note i = invD [OF assms(1)] and r = readyD [OF assms(2)]
  note l = layoutD [OF coreD(1) [OF i(6)]]
  note ll = new_less_last [OF assms(1,4) r(5)]
  have th: "th \<in> registered s" using assms(4) by (simp add: registered_def)
  have le: "unat (tss s th) \<le> unat (w_timestamp w)" using ll assms(5) by linarith
  then have nz: "w_timestamp w \<noteq> 0" using assms(4) by (auto simp: unat_eq_zero)
  obtain F where F: "weak_bound E F" "F + unat (w_n w) * n_entries E + length (q_free_worlds (q s)) + 4 \<le> fuel"
    using r(7) by blast
  have "unat (w_timestamp w) < unat (w_offset w) + unat (w_n w) * n_entries E" "unat (w_offset w) \<le> unat (tss s th)"
    using l(1,10) nz th by (simp_all add: wf_world_def)
  then have fl: "F + (unat (w_timestamp w) + 1 - unat (tss s th)) < fuel" using F(2) by linarith
  have I: "inv E (with_tss s th (tss s th)) w X" using assms(1) by (simp add: with_tss_same)
  from run_timerange [OF r(1) F(1) I assms(3,4) ll(2) r(5) fl] obtain t cs where t:
    "run (check_timerange_loop E th fuel (get_struct (q_world (q s))) (tss s th) (w_timestamp w)) s = Ok () t"
    "inv E (with_tss t th (w_timestamp w + 1)) w X"
    "strip th (pending E s w) = strip th (pending E (with_tss t th (w_timestamp w + 1)) w) + image_mset (\<lambda>c. (c, {})) (mset cs)"
    "trace t = trace s @ cs" "tss t = tss s" "q_world (q t) = q_world (q s)" "same_blocks s t"
    "spares E (- {th}) s w X (with_tss t th (w_timestamp w + 1)) w X"
    unfolding with_tss_same by blast
  have u: "unat (w_timestamp w + 1) = unat (w_timestamp w) + 1" by (rule unat_plus_1) (use r(5) in simp)
  have "strip th (pending E (with_tss t th (w_timestamp w + 1)) w) = pending E (with_tss t th (w_timestamp w + 1)) w"
    by (rule strip_waiting [OF coreD(1) [OF invD(6) [OF t(2)]] not_held]) (simp add: u)
  moreover have "run (load_world (get_struct (q_world (q s)))) s = Ok w s" using i(1,3) by (simp add: exec)
  moreover have "run (mulle_aba_world_assert_sanity E th (get_struct (q_world (q s)))) s = Ok () s"
    by (rule run_assert_sanity [OF i(1,3) l(1)])
  ultimately show ?thesis
    using t nz by (intro that [of t cs]) (simp_all add: mulle_aba_world_check_timerange_def run_bnd del: check_timerange_loop.simps)
qed

lemma ready_cong:
  "live t = live s \<Longrightarrow> q_free_worlds (q t) = q_free_worlds (q s) \<Longrightarrow> ready E fuel k t w = ready E fuel k s w"
  using room_stores [of t s] by (simp only: ready_def)

lemma run_checkin:
  assumes "inv E s w X" "ready E fuel 0 s w"
  obtains t cs where "run (mulle_aba_checkin_current_thread E th fuel) s = Ok 0 t" "inv E t w X"
    "strip th (pending E s w) = pending E t w + image_mset (\<lambda>c. (c, {})) (mset cs)" "trace t = trace s @ cs"
    "tss t = (tss s)(th := if tss s th = 0 then 0 else w_timestamp w + 1)"
    "get_struct (q_world (q t)) = get_struct (q_world (q s))" "same_blocks s t" "spares E (- {th}) s w X t w X"
proof -
  let ?p = "q_world (q s)"
  note i = invD [OF assms(1)] and r = readyD [OF assms(2)]
  note l = layoutD [OF coreD(1) [OF i(6)]]
  have ld: "run (load_world (get_struct ?p)) s = Ok w s" using i(1,3) by (simp add: exec)
  have u: "unat (w_timestamp w + 1) = unat (w_timestamp w) + 1" by (rule unat_plus_1) (use r(5) in simp)
  consider "tss s th = 0" | "tss s th \<noteq> 0" "w_timestamp w <s tss s th" | "tss s th \<noteq> 0" "\<not> w_timestamp w <s tss s th" by blast
  then show ?thesis
  proof cases
    case 1
    then have "strip th (pending E s w) = pending E s w" by (intro strip_waiting [OF coreD(1) [OF i(6)] not_held]) simp
    with 1 assms(1) show ?thesis by (intro that [of s "[]"]) (simp_all add: mulle_aba_checkin_current_thread_def exec fun_upd_idem)
  next
    case 2
    then have v: "unat (tss s th) = unat (w_timestamp w) + 1" using new_less_last(1) [OF assms(1) 2(1) r(5)] by blast
    then have "strip th (pending E s w) = pending E s w" by (intro strip_waiting [OF coreD(1) [OF i(6)] not_held]) simp
    moreover have "tss s th = w_timestamp w + 1" using v u by (simp add: word_unat_eq_iff)
    ultimately show ?thesis using 2 ld assms(1)
      by (intro that [of s "[]"]) (simp_all add: mulle_aba_checkin_current_thread_def exec fun_upd_idem Let_def)
  next
    case 3
    let ?s = "set_q_world (checked_p ?p) s"
    have "unat (tss s th) \<le> unat (w_timestamp w)" using new_less_last [OF assms(1) 3(1) r(5)] 3(2) by linarith
    then have nz: "w_timestamp w \<noteq> 0" using 3(1) by (auto simp: unat_eq_zero)
    then have "w_n_threads w \<noteq> 0" using l(1) by (simp add: wf_world_def)
    note ic = inv_checked [OF assms(1) this]
    have ch: "run (mulle_aba_storage_change_worldpointer_2 E th fuel Swap_checkin ?p set_bit ()) s
      = Ok (\<lparr>new_world_p = checked_p ?p, old_world_p = ?p\<rparr>, ()) ?s"
      by (rule run_checkin_change [OF assms(1) nz]) (use r(3) in simp)
    have cp: "checked_p ?p \<noteq> 0" using i(1) by (metis checked_p_parts(1) get_bits_const(9))
    have rd: "ready E fuel 0 ?s w" using assms(2) by (subst ready_cong) simp_all
    obtain t cs where t:
      "run (mulle_aba_world_check_timerange E th fuel (get_struct ?p) (tss s th) (w_timestamp w)) ?s = Ok () t"
      "inv E (with_tss t th (w_timestamp w + 1)) w X"
      "strip th (pending E ?s w) = pending E (with_tss t th (w_timestamp w + 1)) w + image_mset (\<lambda>c. (c, {})) (mset cs)"
      "trace t = trace s @ cs" "tss t = tss s" "q_world (q t) = checked_p ?p" "same_blocks ?s t"
      "spares E (- {th}) ?s w X (with_tss t th (w_timestamp w + 1)) w X"
      using run_check_timerange [OF ic(1) rd, of th] 3 by auto
    have "run (mulle_aba_checkin_current_thread E th fuel) s = Ok 0 (with_tss t th (w_timestamp w + 1))"
      using 3 ld ch cp t(1)
      by (simp add: mulle_aba_checkin_current_thread_def exec Let_def free_world_if_needed_def
          mulle_aba_check_timestamp_range_def with_tss_def del: mulle_aba_storage_change_worldpointer.simps)
    moreover have "same_blocks s (with_tss t th (w_timestamp w + 1))" using t(7) by (simp add: same_blocks_def)
    ultimately show ?thesis using t ic(2) 3(1) spares_trans [OF ic(3) t(8)] by (intro that [of "with_tss t th (w_timestamp w + 1)" cs]) simp_all
  qed
qed

end
