(* ===== verification/Aba_Threads.thy ===== *)
theory Aba_Threads
  imports Aba_Checkin
begin

text \<open>
  Registering and unregistering threads, initialisation and teardown, on a storage that satisfies the
  invariant. The last thread that unregisters gives all timestamp storages, entries and retired worlds
  back; teardown gives back the rest.
\<close>

section \<open>Registering\<close>

lemma changeable_locked:
  assumes "changeable E s p w fuel"
  shows "changeable E (set_q_world (set_lock p 1) s) (set_lock p 1) w fuel"
    "calloc_at E (drained (set_q_world (set_lock p 1) s)) = calloc_at E (drained s)"
proof -
  let ?s = "set_q_world (set_lock p 1) s"
  show "changeable E ?s (set_lock p 1) w fuel"
    using assms room_stores [of ?s s E 1] by (simp add: changeable_def worlds_cached_def)
  have "live (drained ?s) = live (drained s)" by (simp add: live_def fun_eq_iff)
  then show "calloc_at E (drained ?s) = calloc_at E (drained s)" by (simp add: calloc_at_def)
qed

lemma one_more_sel [simp]:
  "w_link (one_more w) = w_link w" "w_timestamp (one_more w) = w_timestamp w" "w_n_threads (one_more w) = w_n_threads w + 1"
  "w_offset (one_more w) = w_offset w" "w_size (one_more w) = w_size w" "w_n (one_more w) = w_n w"
  "w_storage (one_more w) = w_storage w"
  by (simp_all add: one_more_def)

text \<open>A world with another number of threads has the same slots.\<close>

lemma same_slots_threads:
  assumes "w_offset w' = w_offset w" "w_n w' = w_n w" "w_storage w' = w_storage w"
  shows "storages w' = storages w" "slots_ok E S w' H = slots_ok E S w H" "pend E S w' H = pend E S w H"
  using assms by (simp_all add: storages_def slots_ok_def pend_def in_window_def window_hi_def entry_at_def bit_at_def stor_def)

lemma layout_threads:
  assumes "layout E s w" "wf_world E w'" "w_offset w' = w_offset w" "w_n w' = w_n w" "w_storage w' = w_storage w"
    and "w_timestamp w' = w_timestamp w" "w_link w' = 0" "hold t w' = hold s w" "stores t = stores s"
    and "finite (registered t)" "unat (w_n_threads w') = card (registered t)" "card (registered t) < 10000"
    and "\<And>th. th \<in> registered t \<Longrightarrow> tss t th = tss s th \<and> th \<in> registered s \<or> unat (tss t th) = unat (w_timestamp w) + 1"
  shows "layout E t w'" "waiting E t w' = waiting E s w"
proof -
  note c = layoutD [OF assms(1)]
  note ss = same_slots_threads [OF assms(3-5)]
  have o: "unat (w_offset w) \<le> unat (w_timestamp w)" using c(1) by (auto simp: wf_world_def word_le_nat_alt)
  have "unat (w_offset w) \<le> unat (tss t th) \<and> unat (tss t th) \<le> unat (w_timestamp w) + 1" if "th \<in> registered t" for th
    using assms(13) [OF that] c(10) [of th] o by auto
  then show "layout E t w'" using c assms ss by (simp add: layout_def)
  show "waiting E t w' = waiting E s w" using assms(8,9) ss by (simp add: waiting_def)
qed

lemma inv_registered:
  assumes "inv E s w X" "tss s th = 0" "card (registered s) + 1 < 10000" "unat (w_timestamp w) < 2 ^ 62"
    and "a \<noteq> 0" "aligned a" "\<not> live (drained s) a"
    and "worlds t = (worlds (drained s))(a \<mapsto> one_more (copy_of w))" "stores t = stores s" "entries t = entries s"
    and "q t = (q s)\<lparr>q_world := a OR 1, q_free_worlds := []\<rparr>" "tss t = (tss s)(th := w_timestamp w + 1)"
  shows "inv E t (one_more (copy_of w)) (add_mset (get_struct (q_world (q s))) X)"
    "pending E t (one_more (copy_of w)) = pending E s w" "registered t = insert th (registered s)"
    "spares E R s w X t (one_more (copy_of w)) (add_mset (get_struct (q_world (q s))) X)"
proof -
  let ?v = "one_more (copy_of w)"
  note i = invD [OF assms(1)]
  note l = layoutD [OF coreD(1) [OF i(6)]]
  note lc = layout_copy_of [OF coreD(1) [OF i(6)]]
  note np = new_pointer [OF assms(6) order_refl]
  have u: "unat (w_timestamp w + 1) = unat (w_timestamp w) + 1" by (rule unat_plus_1) (use assms(4) in simp)
  then have tz: "w_timestamp w + 1 \<noteq> 0" by (metis unat_0 add_is_0 one_neq_zero)
  show r: "registered t = insert th (registered s)" using assms(12) tz by (auto simp: registered_def)
  have thn: "th \<notin> registered s" using assms(2) by (simp add: registered_def)
  have n: "unat (w_n_threads w + 1) = unat (w_n_threads w) + 1"
    by (rule unat_plus_1) (use l(4) assms(3) in simp)
  then have nz: "w_n_threads ?v \<noteq> 0" by (auto simp: word_unat_eq_iff)
  have wf: "wf_world E ?v" using wf_copy_of [OF l(1)] nz by (simp add: wf_world_def wf_shape_def)
  have h: "hold t ?v = hold s (copy_of w)"
    using u assms(2,12) by (auto simp: hold_def fun_eq_iff)
  have rt: "finite (registered t)" "unat (w_n_threads ?v) = card (registered t)" "card (registered t) < 10000"
    using r l(3,4) thn n assms(3) by simp_all
  have L: "layout E t ?v" "waiting E t ?v = waiting E s (copy_of w)"
    by (rule layout_threads [OF lc(1) wf _ _ _ _ _ h assms(9) rt]; use assms(12) thn r u in \<open>auto split: if_splits\<close>)+
  have W: "waiting E t ?v = waiting E s w" using L(2) lc(2) by simp
  have en: "ents t P = ents s P" for P by (rule ents_cong) (simp_all add: assms(10,11))
  have wr: "wrlds t (image_mset fst (waiting E s w)) (add_mset a (add_mset (get_struct (q_world (q s))) X))"
    by (rule once_drained [OF i(8) assms(5,7,8,11,10)]) (use wf_world_size [OF wf] in simp_all)
  show "inv E t ?v (add_mset (get_struct (q_world (q s))) X)"
    unfolding inv_def W en core_def
    using i(7) L(1) coreD(2) [OF i(6)] wr assms(5,8,11) np nz by (simp add: good_state_def)
  show "pending E t ?v = pending E s w" by (rule pending_cong [OF W assms(10)])
  show "spares E R s w X t ?v (add_mset (get_struct (q_world (q s))) X)"
  proof (rule spares_kept [OF _ _ W assms(10)])
    show "worlds t b = Some y" if "worlds s b = Some y" "w_size y \<noteq> 0" for b y
      using drained_worlds [OF inv_cached(1) [OF assms(1)] that] assms(7,8) by (auto simp: live_def)
  qed (use assms(9,11) in \<open>auto simp: subset_insertI\<close>)
qed

lemma run_register:
  assumes "inv E s w X" "ready E fuel 5 s w" "tss s th = 0" "card (registered s) + 1 < 10000" "keyed E s"
  obtains t w' where "run (mulle_aba_register_current_thread E th fuel) s = Ok 0 t" "inv E t w' X"
    "pending E t w' = pending E s w" "trace t = trace s" "registered t = insert th (registered s)"
    "\<And>x. x \<noteq> th \<Longrightarrow> tss t x = tss s x" "grew 5 s w t w'" "spares E (registered s) s w X t w' X"
proof -
  let ?p = "q_world (q s)"
  let ?lp = "set_lock ?p 1" and ?o = "get_struct ?p"
  let ?s = "set_q_world ?lp s" and ?v = "copy_of w"
  note i = invD [OF assms(1)] and r = readyD [OF assms(2)]
  note l = layoutD [OF coreD(1) [OF i(6)]]
  define a where "a = calloc_at E (drained s)"
  obtain f where f: "fuel = Suc f" "0 < f" using r(3) by (cases fuel) auto
  have ch: "changeable E s ?p w fuel"
    by (rule inv_changeable [OF assms(1) r(1)]) (use r(3) room_mono [OF r(4)] in simp_all)
  note n = changeable_new [OF ch, folded a_def]
  note cl = changeable_locked [OF ch]
  have n10: "unat (w_n_threads w) < 10000" using l(4,5) by simp
  have sn: "sees E (info_of a ?lp) (placed ?s a ?v) ?v w"
    by (rule sees_info [OF cl(1) _ wf_copy_of [OF l(1)]]) (simp_all add: cl(2) a_def n10)
  have gs: "good_state (q_world (q (placed ?s a ?v))) w" "old_locked (info_of a ?lp) = 1" "unat (w_n_threads w) + 1 < 10000"
    using i(4) l(4) assms(4) by (simp_all add: good_state_def)
  have "add_pre E (info_of a ?lp) () (placed ?s a ?v)" unfolding add_pre_def using sn gs by blast
  then obtain i' u' t where
    cr: "run (mulle_aba_storage_copy_lock_worldpointer E th fuel (add_thread E) ()) s =
       Ok (\<lparr>new_world_p = result_p i', old_world_p = ?lp\<rparr>, u', ?o) (set_q_world (result_p i') t)"
    and post: "add_post (info_of a ?lp) () (placed ?s a ?v) i' u' t"
    by (rule add_thread_change.run_copy_lock [OF ch a_def refl i(2) l(2)])
  then have rp: "result_p i' = a OR 1" and t: "t = (placed ?s a ?v)\<lparr>worlds := (worlds (placed ?s a ?v))(a \<mapsto> one_more ?v)\<rparr>"
    by (simp_all add: add_post_def result_p_def)
  define u where "u = with_tss (set_q_world (a OR 1) t) th (w_timestamp w + 1)"
  have dw: "worlds (drained ?s) = worlds (drained s)" by (simp add: fun_eq_iff)
  have u: "worlds u = (worlds (drained s))(a \<mapsto> one_more ?v)" "stores u = stores s" "entries u = entries s"
    "q u = (q s)\<lparr>q_world := a OR 1, q_free_worlds := []\<rparr>" "tss u = (tss s)(th := w_timestamp w + 1)" "trace u = trace s"
    by (simp_all add: u_def t dw)
  have kt: "tss_key t = tss_key s" by (simp add: t)
  then have ku: "keyed E u" using assms(5) by (simp add: u_def keyed_def)
  note ir = inv_registered [OF assms(1,3,4) r(5) n(1-3) u(1-5)]
  have np: "get_struct (a OR 1) = a" "a OR 1 \<noteq> 0"
    using new_pointer(1) [OF n(2) order_refl] n(1) by (simp, metis get_bits_const(9))
  have lw: "run (load_world a) (set_q_world (a OR 1) t) = Ok (one_more ?v) (set_q_world (a OR 1) t)"
    using n(1) t by (simp add: exec)
  have "unat (w_timestamp w + 1) = unat (w_timestamp w) + 1" by (rule unat_plus_1) (use r(5) in simp)
  then have tz: "w_timestamp w + 1 \<noteq> 0" by (metis unat_0 add_is_0 one_neq_zero)
  have lv: "live u x \<Longrightarrow> live s x \<or> x = a" for x
    using u(1-3) by (auto simp: live_def restrict_map_def split: if_splits)
  have "room E u 4" by (rule room_insert [OF _ lv]) (use r(4) in simp)
  moreover obtain F where "weak_bound E F" "F + unat (w_n w) * n_entries E + length (q_free_worlds (q s)) + 4 \<le> fuel"
    using r(7) by blast
  ultimately have rd: "ready E fuel 4 u (one_more ?v)"
    unfolding ready_def using r(1,5,6) u(4) by (intro conjI exI [of _ F]) simp_all
  have o: "?o \<noteq> 0" "?o \<noteq> a" "worlds u ?o = Some w" using i(1) n(4,5) u(1) by simp_all
  obtain z w' where z: "run (mulle_aba_free_owned_pointer_p E th fuel Fn_owned_pointer_free_world ?o (x_self E)) u = Ok 0 z"
    "inv E z w' X" "tss z = tss u"
    "pending E z w' = pending E u (one_more ?v) + (if card (registered u) \<le> 1 then {#}
       else image_mset (\<lambda>c. (c, registered u)) (mset (due Fn_owned_pointer_free_world ?o (x_self E))))"
    "trace z = trace u @ (if card (registered u) \<le> 1 then due Fn_owned_pointer_free_world ?o (x_self E) else [])"
    "grew 4 u (one_more ?v) z w'" "spares E (registered u - {th}) u (one_more ?v) (add_mset ?o X) z w' X"
    by (rule run_free_p [OF ir(1) rd, of th ?o X Fn_owned_pointer_free_world "x_self E"])
      (use o np u(4) ir(3) ext_ok_parts(3) [OF r(1)] ku in \<open>simp_all add: handed_def\<close>)
  have fw: "run (free_world_chain E th fuel ?o) u = Ok 0 z"
  proof -
    obtain g where "f = Suc g" using f(2) by (cases f) auto
    with o z(1) l(2) show ?thesis by (simp add: f(1) exec del: free_loop.simps)
  qed
  have "run (mulle_aba_register_current_thread E th fuel) s = Ok 0 z"
    using cr lw fw [unfolded u_def with_tss_def] np tz assms(5) kt
    by (simp add: mulle_aba_register_current_thread_def run_bnd rp Let_def run_tss_set run_assert_key keyed_def
        del: free_world_chain.simps)
  moreover have "registered z = insert th (registered s)" "\<And>x. x \<noteq> th \<Longrightarrow> tss z x = tss s x"
    using z(3) ir(3) u(5) by (simp_all add: registered_def)
  moreover have "blocks u \<le> Suc (blocks s)" by (rule blocks_insert [OF lv])
  then have "grew 5 s w z w'" using z(6) by (simp add: grew_def)
  moreover have "registered s \<subseteq> registered u - {th}" using ir(3) assms(3) by (auto simp: registered_def)
  from spares_trans [OF ir(4) spares_mono [OF z(7) this]] have "spares E (registered s) s w X z w' X" .
  ultimately show ?thesis using z(2,4,5) ir(2) u(6) by (intro that [of z w']) simp_all
qed

end
