(* ===== verification/Aba_Unregister.thy ===== *)
theory Aba_Unregister
  imports Aba_Threads
begin

text \<open>
  Unregistering a thread: it checks in, locks the world pointer and installs a world without the
  thread. The last thread gives all timestamp storages, free entries and retired worlds back; any
  other leaves the world it locked for the last one to free.
\<close>

section \<open>Checking in first\<close>

lemma run_unregister_checkin:
  assumes "inv E s w X" "ready E fuel 0 s w" "tss s th \<noteq> 0"
  obtains t cs where
    "run (unregister_checkin E th fuel (tss s th) (w_timestamp w) (q_world (q s))) s = Ok (0, q_world (q t)) t" "inv E t w X"
    "strip th (pending E s w) = pending E t w + image_mset (\<lambda>c. (c, {})) (mset cs)" "trace t = trace s @ cs"
    "tss t = (tss s)(th := w_timestamp w + 1)" "get_struct (q_world (q t)) = get_struct (q_world (q s))" "same_blocks s t"
    "spares E (- {th}) s w X t w X"
proof -
  let ?p = "q_world (q s)"
  note i = invD [OF assms(1)] and r = readyD [OF assms(2)]
  note l = layoutD [OF coreD(1) [OF i(6)]]
  note nl = new_less_last [OF assms(1,3) r(5)]
  have u: "unat (w_timestamp w + 1) = unat (w_timestamp w) + 1" by (rule unat_plus_1) (use r(5) in simp)
  show ?thesis
  proof (cases "w_timestamp w <s tss s th")
    case True
    then have v: "unat (tss s th) = unat (w_timestamp w) + 1" using nl(1) by blast
    then have "strip th (pending E s w) = pending E s w" by (intro strip_waiting [OF coreD(1) [OF i(6)] not_held]) simp
    moreover have "tss s th = w_timestamp w + 1" using v u by (simp add: word_unat_eq_iff)
    ultimately show ?thesis using True assms(1)
      by (intro that [of s "[]"]) (simp_all add: unregister_checkin_def fun_upd_idem)
  next
    case False
    let ?s = "set_q_world (checked_p ?p) s"
    have "unat (tss s th) \<le> unat (w_timestamp w)" using nl False by linarith
    then have nz: "w_timestamp w \<noteq> 0" using assms(3) by (auto simp: unat_eq_zero)
    then have "w_n_threads w \<noteq> 0" using l(1) by (simp add: wf_world_def)
    note ic = inv_checked [OF assms(1) this]
    have ch: "run (mulle_aba_storage_change_worldpointer_2 E th fuel Swap_checkin ?p set_bit ()) s
      = Ok (\<lparr>new_world_p = checked_p ?p, old_world_p = ?p\<rparr>, ()) ?s"
      by (rule run_checkin_change [OF assms(1) nz]) (use r(3) in simp)
    have cp: "checked_p ?p \<noteq> 0" using i(1) by (metis checked_p_parts(1) get_bits_const(9))
    have rd: "ready E fuel 0 ?s w" using assms(2) by (subst ready_cong) simp_all
    obtain t cs where t:
      "run (mulle_aba_world_check_timerange E th fuel (get_struct ?p) (tss s th) (w_timestamp w)) ?s = Ok () t"
      "inv E (with_tss t th (w_timestamp w + 1)) w X"
      "strip th (pending E ?s w) = pending E (with_tss t th (w_timestamp w + 1)) w + image_mset (\<lambda>c. (c, {})) (mset cs)"
      "trace t = trace s @ cs" "tss t = tss s" "q_world (q t) = checked_p ?p" "same_blocks ?s t"
      "spares E (- {th}) ?s w X (with_tss t th (w_timestamp w + 1)) w X"
      using run_check_timerange [OF ic(1) rd, of th] False assms(3) by auto
    let ?t = "with_tss t th (w_timestamp w + 1)"
    note it = invD [OF t(2)]
    have sa: "run (mulle_aba_world_assert_sanity E th (get_struct ?p)) ?s = Ok () ?s"
      "run (mulle_aba_world_assert_sanity E th (get_struct ?p)) ?t = Ok () ?t"
      using run_assert_sanity [OF i(1), of ?s w E th] i(3) l(1)
        run_assert_sanity [OF i(1), of ?t w E th] it(3) t(6) by simp_all
    have "run (unregister_checkin E th fuel (tss s th) (w_timestamp w) ?p) s = Ok (0, checked_p ?p) ?t"
      using False ch cp t(1) sa [unfolded with_tss_def]
      by (simp add: unregister_checkin_def exec Let_def free_world_if_needed_def with_tss_def
          del: mulle_aba_storage_change_worldpointer.simps)
    moreover have "same_blocks s ?t" using t(7) by (simp add: same_blocks_def)
    ultimately show ?thesis using t ic(2) spares_trans [OF ic(3) t(8)] by (intro that [of ?t cs]) simp_all
  qed
qed

section \<open>Removing the thread from the world\<close>

lemma run_remove_change:
  assumes "inv E s w X" "ext_ok E" "length (q_free_worlds (q s)) < fuel" "room E s 1" "w_n_threads w \<noteq> 0"
    and "a = calloc_at E (drained s)"
  shows "run (mulle_aba_storage_copy_change_worldpointer E th fuel Swap_unregister (set_lock (q_world (q s)) 1) (remove_thread E)
      \<lparr>rc_timestamp = w_timestamp w, rc_locked_world = get_struct (q_world (q s))\<rparr>) (set_q_world (set_lock (q_world (q s)) 1) s)
    = Ok (\<lparr>new_world_p = (if w_n_threads w = 1 then set_lock a 1 else a OR 1), old_world_p = set_lock (q_world (q s)) 1\<rparr>,
        \<lparr>rc_timestamp = w_timestamp w, rc_locked_world = get_struct (q_world (q s))\<rparr>)
      (set_q_world (if w_n_threads w = 1 then set_lock a 1 else a OR 1) (placed s a (removed (copy_of w))))"
proof -
  let ?p = "q_world (q s)" and ?c = "\<lparr>rc_timestamp = w_timestamp w, rc_locked_world = get_struct (q_world (q s))\<rparr>"
  let ?lp = "set_lock ?p 1" and ?v = "copy_of w"
  let ?s = "set_q_world ?lp s"
  note i = invD [OF assms(1)]
  note l = layoutD [OF coreD(1) [OF i(6)]]
  have ch: "changeable E s ?p w fuel" by (rule inv_changeable [OF assms(1-4)])
  note n = changeable_new [OF ch, folded assms(6)]
  note cl = changeable_locked [OF ch]
  have a: "a = calloc_at E (drained ?s)" using cl(2) assms(6) by simp
  have sn: "sees E (info_of a ?lp) (placed ?s a ?v) ?v w"
    by (rule sees_info [OF cl(1) a wf_copy_of [OF l(1)]]) (use l(4,5) in simp_all)
  have gs: "good_state (q_world (q (placed ?s a ?v))) w" "old_locked (info_of a ?lp) = 1" "rc_timestamp ?c = w_timestamp w"
    "rc_locked_world ?c = old_world (info_of a ?lp)"
    using i(4) by (simp_all add: good_state_def)
  have "remove_pre E (info_of a ?lp) ?c (placed ?s a ?v)" unfolding remove_pre_def using sn gs assms(5) by blast
  then obtain i' c' t where
    cr: "run (mulle_aba_storage_copy_change_worldpointer E th fuel Swap_unregister ?lp (remove_thread E) ?c) ?s =
       Ok (\<lparr>new_world_p = result_p i', old_world_p = ?lp\<rparr>, c') (set_q_world (result_p i') t)"
    and post: "remove_post (info_of a ?lp) ?c (placed ?s a ?v) i' c' t"
    by (rule remove_thread_change.run_copy_change [OF cl(1) a])
  have rp: "result_p i' = (if w_n_threads w = 1 then set_lock a 1 else a OR 1)" and c': "c' = ?c"
    using post by (simp_all add: remove_post_def result_p_def)
  have "t = set_q_world ?lp (placed s a (removed ?v))"
    using post by (simp add: remove_post_def placed_def drained_def set_q_world_def)
  with cr show ?thesis unfolding rp c' by simp
qed

text \<open>Other threads remain: the locked world is kept until the last of them leaves.\<close>

lemma run_finish_more:
  assumes "worlds s (get_struct p) = Some w" "get_struct p \<noteq> 0" "w_n_threads w \<noteq> 1" "old_world_p ps = p"
  shows "run (unregister_finish E th fuel ps p) s = Ok 0 (upd_leaks (x_add E (get_struct p)) (with_tss s th 0))"
  using assms by (simp add: unregister_finish_def exec with_tss_def mulle_aba_storage_add_leak_world_def Let_def)

lemma inv_left:
  assumes "inv E s w X" "ext_ok E" "tss s th = w_timestamp w + 1" "unat (w_timestamp w) < 2 ^ 62"
    and "a \<noteq> 0" "aligned a" "\<not> live (drained s) a" "w_n_threads w \<noteq> 1"
    and "worlds t = (worlds (drained s))(a \<mapsto> one_less (copy_of w))" "stores t = stores s" "entries t = entries s"
    and "q t = (q s)\<lparr>q_world := a OR 1, q_free_worlds := [], q_leaks := x_add E (get_struct (q_world (q s))) (q_leaks (q s))\<rparr>"
    and "tss t = (tss s)(th := 0)"
  shows "inv E t (one_less (copy_of w)) X" "pending E t (one_less (copy_of w)) = pending E s w"
    "registered t = registered s - {th}" "spares E R s w X t (one_less (copy_of w)) X"
proof -
  let ?v = "one_less (copy_of w)" and ?o = "get_struct (q_world (q s))"
  note i = invD [OF assms(1)]
  note l = layoutD [OF coreD(1) [OF i(6)]]
  note lc = layout_copy_of [OF coreD(1) [OF i(6)]]
  note np = new_pointer [OF assms(6) order_refl]
  have u: "unat (w_timestamp w + 1) = unat (w_timestamp w) + 1" by (rule unat_plus_1) (use assms(4) in simp)
  then have tz: "w_timestamp w + 1 \<noteq> 0" by (metis unat_0 add_is_0 one_neq_zero)
  show r: "registered t = registered s - {th}" using assms(13) by (auto simp: registered_def)
  have thr: "th \<in> registered s" using tz assms(3) by (simp add: registered_def)
  have "0 < card (registered s)" using thr l(3) card_gt_0_iff by blast
  then have n0: "w_n_threads w \<noteq> 0" using l(4) by (metis less_irrefl unat_0)
  have n: "unat (w_n_threads ?v) = card (registered s - {th})"
    using l(3,4) thr unat_minus_1_64 [OF n0] by (simp add: card_Diff_singleton)
  have nz: "w_n_threads ?v \<noteq> 0" using assms(8) by simp
  have wf: "wf_world E ?v" by (rule wf_one_less [OF wf_copy_of [OF l(1)]]) (use assms(8) in simp)
  have h: "hold t ?v = hold s (copy_of w)"
    using u assms(3,13) by (auto simp: hold_def fun_eq_iff)
  have rt: "finite (registered t)" "unat (w_n_threads ?v) = card (registered t)" "card (registered t) < 10000"
    using r l(3,5) n card_Diff1_le [of "registered s" th] by simp_all
  have L: "layout E t ?v" "waiting E t ?v = waiting E s (copy_of w)"
    by (rule layout_threads [OF lc(1) wf _ _ _ _ _ h assms(10) rt]; use assms(13) r in simp)+
  have W: "waiting E t ?v = waiting E s w" using L(2) lc(2) by simp
  have en: "ents t P = ents s P" for P by (rule ents_cong) (simp_all add: assms(11,12))
  let ?t = "t\<lparr>q := (q s)\<lparr>q_world := a OR 1, q_free_worlds := []\<rparr>\<rparr>"
  have wr: "wrlds ?t (image_mset fst (waiting E s w)) (add_mset a (add_mset ?o X))"
    by (rule once_drained [where v = ?v, OF i(8) assms(5,7)]) (use wf_world_size [OF wf] assms(9,11) in simp_all)
  have "retired ?t P = retired t P" for P by (simp add: retired_def)
  moreover have "mset (q_leaks (q t)) + add_mset a X = mset (q_leaks (q ?t)) + add_mset a (add_mset ?o X)"
    using x_add_mset [OF ext_ok_parts(2) [OF assms(2)]] assms(12) by simp
  ultimately have wt: "wrlds t (image_mset fst (waiting E s w)) (add_mset a X)"
    using wr assms(12) by (simp only: wrlds_alt add.assoc) simp
  show "inv E t ?v X"
    unfolding inv_def W en core_def
    using i(7) L(1) coreD(2) [OF i(6)] wt assms(5,9,12) np nz by (simp add: good_state_def)
  show "pending E t ?v = pending E s w" by (rule pending_cong [OF W assms(11)])
  show "spares E R s w X t ?v X"
  proof (rule spares_kept [OF _ _ W assms(11)])
    show "worlds t b = Some y" if "worlds s b = Some y" "w_size y \<noteq> 0" for b y
      using drained_worlds [OF inv_cached(1) [OF assms(1)] that] assms(7,9) by (auto simp: live_def)
  qed (use assms(10,12) x_add_set [OF ext_ok_parts(2) [OF assms(2)]] in \<open>auto simp del: set_mset_mset\<close>)
qed

text \<open>The last thread: every storage, entry and retired world goes back to the allocator, the world the thread locked
  goes to the cache, and the world it installed is unlocked.\<close>

definition all_given_back :: "ext \<Rightarrow> tid \<Rightarrow> uptr \<Rightarrow> world \<Rightarrow> mem \<Rightarrow> mem" where
  "all_given_back E th old w s = s\<lparr>worlds := (worlds s |` (- set (q_leaks (q s))))(old \<mapsto> clear_world w),
     stores := (\<lambda>_. None), entries := (\<lambda>_. None), tss := (tss s)(th := 0),
     q := (q s)\<lparr>q_leaks := [], q_free_worlds := x_add E old (q_free_worlds (q s)), q_free_entries := []\<rparr>\<rparr>"

lemma storages_nonzero:
  assumes "wf_shape E w"
  shows "filter (\<lambda>a. a \<noteq> 0) (take (unat (w_size w)) (w_storage w)) = storages w"
proof -
  let ?n = "unat (w_n w)" and ?z = "unat (w_size w)" and ?xs = "w_storage w"
  have sh: "?n \<le> ?z" "?z \<le> length ?xs" "\<And>i. i < ?z \<Longrightarrow> ?xs ! i = 0 \<longleftrightarrow> ?n \<le> i" using assms by (simp_all add: wf_shape_def)
  have "take ?z ?xs = take ?n ?xs @ drop ?n (take ?z ?xs)"
    using sh(1) by (metis append_take_drop_id min.absorb1 take_take)
  moreover have "filter (\<lambda>a. a \<noteq> 0) (drop ?n (take ?z ?xs)) = []"
    using sh by (auto simp: filter_empty_conv in_set_conv_nth)
  moreover have "filter (\<lambda>a. a \<noteq> 0) (take ?n ?xs) = take ?n ?xs"
    using sh by (intro filter_True) (auto simp: in_set_conv_nth)
  ultimately show ?thesis unfolding storages_def by (metis append_Nil2 filter_append)
qed

lemma run_free_all_storages:
  assumes "wf_shape E w" "distinct (storages w)" "dom (stores s) = set (storages w)"
  shows "run (each mulle_aba_timestampstorage_free_unchecked (take (unat (w_size w)) (w_storage w))) s
    = Ok () (s\<lparr>stores := (\<lambda>_. None)\<rparr>)"
proof -
  let ?xs = "take (unat (w_size w)) (w_storage w)"
  note f = storages_nonzero [OF assms(1)]
  have st: "set (storages w) = set ?xs - {0}" unfolding f [symmetric] by auto
  have "stores s a \<noteq> None" if "a \<in> set ?xs" "a \<noteq> 0" for a
  proof -
    have "a \<in> dom (stores s)" unfolding assms(3) st using that by simp
    then show ?thesis by blast
  qed
  moreover have "stores s |` (- (set ?xs - {0})) = (\<lambda>_. None)"
    unfolding st [symmetric] assms(3) [symmetric] by (auto simp: restrict_map_def)
  ultimately show ?thesis
    using run_each_dealloc_ts [of ?xs s] assms(2) f by simp
qed

lemma run_finish_last:
  assumes "ext_ok E" "worlds s (get_struct p) = Some w" "get_struct p \<noteq> 0" "w_n_threads w = 1" "old_world_p ps = p" "w_link w = 0"
    and "wf_shape E w" "distinct (storages w)" "dom (stores s) = set (storages w)"
    and "distinct (q_leaks (q s))" "set (q_leaks (q s)) \<subseteq> dom (worlds s)" "get_struct p \<notin> set (q_leaks (q s))"
    and "distinct (q_free_entries (q s))" "set (q_free_entries (q s)) = dom (entries s)"
    and "get_lock (new_world_p ps) = 1" "q_world (q s) = new_world_p ps" "0 < fuel"
    and "swap_ready E Swap_unlock (all_given_back E th (get_struct p) w s) (set_lock (new_world_p ps) 0) (new_world_p ps)"
  shows "run (unregister_finish E th fuel ps p) s
    = Ok 0 (set_q_world (set_lock (new_world_p ps) 0) (all_given_back E th (get_struct p) w s))"
proof -
  let ?o = "get_struct p" and ?np = "new_world_p ps"
  define s1 where "s1 = with_tss s th 0"
  define s2 where "s2 = s1\<lparr>stores := (\<lambda>_. None)\<rparr>"
  define s3 where "s3 = upd_leaks (\<lambda>_. []) (s2\<lparr>worlds := worlds s2 |` (- set (q_leaks (q s)))\<rparr>)"
  define s4 where "s4 = upd_free_worlds (x_add E ?o) (s3\<lparr>worlds := (worlds s3)(?o \<mapsto> clear_world w)\<rparr>)"
  have len: "unat (w_size w) \<le> length (w_storage w)" using assms(7) by (simp add: wf_shape_def)
  have fs: "run (each mulle_aba_timestampstorage_free_unchecked (take (unat (w_size w)) (w_storage w))) s1 = Ok () s2"
    unfolding s2_def by (rule run_free_all_storages [OF assms(7,8)]) (simp add: s1_def assms(9))
  have fl: "run mulle_aba_storage_free_leak_worlds s2 = Ok () s3"
    using run_free_leak_worlds [of s2] assms(10,11) by (auto simp: s1_def s2_def s3_def domIff)
  have w3: "worlds s3 ?o = Some w" using assms(2,12) by (simp add: s1_def s2_def s3_def)
  have fw: "run (mulle_aba_storage_free_world E ?o) s3 = Ok () s4"
    unfolding s4_def by (rule run_free_world [OF assms(3) w3 len])
  have e4: "q_free_entries (q s4) = q_free_entries (q s)" "entries s4 = entries s"
    by (simp_all add: s1_def s2_def s3_def s4_def)
  have "entries s |` (- dom (entries s)) = (\<lambda>_. None)" by (auto simp: restrict_map_def)
  then have "upd_free_entries (\<lambda>_. []) (s4\<lparr>entries := entries s4 |` (- set (q_free_entries (q s4)))\<rparr>)
      = all_given_back E th ?o w s"
    unfolding e4 assms(14)
    by (simp add: s1_def s2_def s3_def s4_def all_given_back_def with_tss_def upd_leaks_def upd_free_worlds_def upd_free_entries_def)
  moreover have "\<forall>a \<in> set (q_free_entries (q s4)). entries s4 a \<noteq> None" unfolding e4 assms(14) by blast
  ultimately have fe: "run mulle_aba_storage_free_unused_free_entries s4 = Ok () (all_given_back E th ?o w s)"
    using run_free_unused_free_entries [of s4] assms(13) e4 by simp
  have ul: "run (mulle_aba_storage_try_unlock_worldpointer E fuel ?np) (all_given_back E th ?o w s)
      = Ok (set_lock ?np 0) (set_q_world (set_lock ?np 0) (all_given_back E th ?o w s))"
    by (rule run_try_unlock [OF assms(15) _ assms(17,18)]) (simp add: all_given_back_def assms(16))
  have lw: "run (load_world ?o) s1 = Ok w s1" using assms(2,3) by (simp add: exec s1_def)
  have ts: "run (tss_set th 0) s = Ok () s1" by (simp add: s1_def with_tss_def exec)
  show ?thesis
    using ts lw fs fl fw fe ul assms(4-6,15) len
    by (simp add: unregister_finish_def run_bnd run_c_assert check_bound_def Let_def)
qed

text \<open>A world without threads, storages and timestamp satisfies the invariant.\<close>

lemma core_idle:
  assumes "wf_world E v" "w_link v = 0" "w_n v = 0" "w_timestamp v = 0" "w_n_threads v = 0" "registered s = {}" "stores s = (\<lambda>_. None)"
  shows "core E s v" "waiting E s v = {#}"
  using assms by (auto simp: core_def layout_def waiting_def pend_def slots_ok_def storages_def in_window_def window_hi_def)

lemma inv_idle:
  assumes "wf_world E v" "w_link v = 0" "w_n v = 0" "w_timestamp v = 0" "w_n_threads v = 0" "registered s = {}" "stores s = (\<lambda>_. None)"
    and "entries s = (\<lambda>_. None)" "q_free_entries (q s) = []" "q_world (q s) = a" "a \<noteq> 0" "aligned a" "worlds s a = Some v"
    and "wrlds s {#} (add_mset a X)"
  shows "inv E s v X" "pending E s v = {#}"
proof -
  note c = core_idle [OF assms(1-7)]
  have g: "get_struct a = a" "get_bit' a = 0" "get_lock a = 0"
    using new_pointer [OF assms(12), of 0] by simp_all
  show "inv E s v X"
    unfolding inv_def c(2) using c(1) g assms by (simp add: good_state_def ents_def)
  show "pending E s v = {#}" by (simp add: pending_def c(2))
qed

text \<open>The only thread registered has checked in: nothing waits any more.\<close>

lemma waiting_last:
  assumes "layout E s w" "registered s = {th}" "unat (w_timestamp w) < unat (tss s th)"
  shows "waiting E s w = {#}"
proof (rule ccontr)
  assume "waiting E s w \<noteq> {#}"
  then obtain x where "x \<in># waiting E s w" by blast
  then obtain t where "snd x = hold s w t" "snd x \<noteq> {}" by (rule waiting_holders [OF assms(1)])
  moreover have "th \<notin> hold s w t" using assms(3) by (simp add: not_held)
  ultimately show False using hold_subset [of s w t] unfolding assms(2) by auto
qed

lemma wrlds_swept:
  assumes "wrlds s {#} (add_mset a (add_mset old X))" "worlds s old = Some w" "ext_ok E"
    and "worlds t = (worlds s |` (- set (q_leaks (q s))))(old \<mapsto> clear_world w)" "q_leaks (q t) = []"
    and "q_free_worlds (q t) = x_add E old (q_free_worlds (q s))"
  shows "wrlds t {#} (add_mset a X)"
proof -
  let ?L = "set (q_leaks (q s))" and ?F = "mset (q_free_worlds (q s))" and ?A = "add_mset a (add_mset old X)"
  have r: "retired s {#} = {#}" "retired t {#} = {#}" by (simp_all add: retired_def)
  have w: "worlds_ok (worlds s) (mset (q_leaks (q s)) + ?A) ?F" using assms(1) by (simp add: wrlds_alt r)
  note ws = w [unfolded worlds_ok_def]
  have dj: "?L \<inter> set_mset (?A + ?F) = {}" using ws [THEN conjunct1] by auto
  have dm: "dom (worlds s) = ?L \<union> set_mset (?A + ?F)"
    using ws [THEN conjunct2, THEN conjunct1] by auto
  have "worlds_ok (worlds s |` (- ?L)) ?A ?F"
    unfolding worlds_ok_def
  proof (intro conjI ballI)
    show "once (?A + ?F)" using ws [THEN conjunct1] by auto
    have "set_mset (?A + ?F) = dom (worlds s) - ?L" unfolding dm using dj by blast
    then show "set_mset (?A + ?F) = dom (worlds s |` (- ?L))" by auto
    show "0 \<notin># ?A + ?F" using ws by simp
  next
    fix b assume b: "b \<in># ?F"
    then have e: "(worlds s |` (- ?L)) b = worlds s b" using dj by (auto simp: restrict_map_def)
    have "w_size (the (worlds s b)) = 0" using ws b by blast
    then show "w_size (the ((worlds s |` (- ?L)) b)) = 0" using e by simp
  next
    fix b assume b: "b \<in># ?A"
    then have e: "(worlds s |` (- ?L)) b = worlds s b" using dj by (auto simp: restrict_map_def)
    have "b \<in># mset (q_leaks (q s)) + ?A" using b by auto
    then have "w_size (the (worlds s b)) \<noteq> 0 \<and> unat (w_size (the (worlds s b))) \<le> length (w_storage (the (worlds s b)))"
      using ws by blast
    then show "w_size (the ((worlds s |` (- ?L)) b)) \<noteq> 0"
      "unat (w_size (the ((worlds s |` (- ?L)) b))) \<le> length (w_storage (the ((worlds s |` (- ?L)) b)))"
      unfolding e by blast+
  qed
  then have "worlds_ok (worlds s |` (- ?L)) (add_mset a X + mset [old]) ?F" by (simp add: add_mset_commute)
  note c = worlds_ok_cleared [OF this]
  have "old \<notin> ?L" using dj by auto
  then have "worlds t = cleared [old] (worlds s |` (- ?L))"
    unfolding assms(4) by (intro cleared_single) (simp add: assms(2))
  moreover have "mset (q_free_worlds (q t)) = mset [old] + ?F"
    using x_add_mset [OF ext_ok_parts(2) [OF assms(3)]] assms(6) by simp
  ultimately show ?thesis using c assms(5) by (simp add: wrlds_alt r)
qed

lemma inv_emptied:
  assumes "inv E s w X" "ext_ok E" "registered s = {th}" "unat (w_timestamp w) < unat (tss s th)"
    and "a \<noteq> 0" "aligned a" "\<not> live (drained s) a" "w_n_threads w = 1" "r = set_lock a 1" "o' = get_struct (q_world (q s))"
    and "z = set_q_world r (placed s a (removed (copy_of w)))" "t = set_q_world a (all_given_back E th o' w z)"
  shows "inv E t (removed (copy_of w)) X" "pending E t (removed (copy_of w)) = {#}" "pending E s w = {#}"
    "swap_ready E Swap_unlock (all_given_back E th o' w z) a r"
    "set (q_free_entries (q s)) = dom (entries s)" "distinct (q_leaks (q s))" "distinct (q_free_entries (q s))"
    "o' \<notin> set (q_leaks (q s))" "set (q_leaks (q s)) \<subseteq> dom (worlds (drained s))"
proof -
  let ?v = "removed (copy_of w)"
  note i = invD [OF assms(1)]
  note l = layoutD [OF coreD(1) [OF i(6)]]
  have v: "?v = reset_world (one_less (copy_of w))" using assms(8) by (simp add: removed_def)
  have wt: "waiting E s w = {#}" by (rule waiting_last [OF coreD(1) [OF i(6)] assms(3,4)])
  then show pe: "pending E s w = {#}" by (simp add: pending_def)
  have sh: "wf_shape E (one_less (copy_of w))" using wf_world_shape [OF wf_copy_of [OF l(1)]] by (simp add: wf_shape_def)
  have wf: "wf_world E ?v" unfolding v by (rule wf_reset_world [OF sh])
  have g: "get_struct a = a" "get_bit' a = 0" "get_lock a = 0" using new_pointer [OF assms(6), of 0] by simp_all
  have gr: "get_struct r = a" "get_bit' r = 0" "get_lock r = 1" unfolding assms(9) using g by simp_all
  have en: "ents s {#}" using i(7) wt by simp
  then show "set (q_free_entries (q s)) = dom (entries s)" "distinct (q_free_entries (q s))" by (simp_all add: ents_def)
  have ws: "wrlds s {#} (add_mset o' X)" using i(8) wt assms(10) by simp
  then show "distinct (q_leaks (q s))" and ol: "o' \<notin> set (q_leaks (q s))"
    using wrldsD(2) [OF ws] by (simp_all add: wrlds_def)
  have lk: "set (q_leaks (q s)) \<subseteq> dom (worlds s)" "set (q_free_worlds (q s)) \<inter> set (q_leaks (q s)) = {}"
    using ws wrldsD(3) [OF ws] by (auto simp: wrlds_def)
  then show "set (q_leaks (q s)) \<subseteq> dom (worlds (drained s))" by auto
  have dw: "worlds (drained s) o' = Some w"
    using drained_worlds [OF inv_cached(1) [OF assms(1)] i(3)] wf_world_size(1) [OF l(1)] assms(10) by simp
  then have ao: "a \<noteq> o'" using assms(7) by (auto simp: live_def)
  have z: "worlds z = (worlds (drained s))(a \<mapsto> ?v)" "q z = (q s)\<lparr>q_world := r, q_free_worlds := []\<rparr>" "entries z = entries s"
    using assms(11) by simp_all
  have wz: "wrlds z {#} (add_mset a (add_mset o' X))"
    by (rule once_drained [where v = ?v, OF ws assms(5,7) z]) (use wf_world_size [OF wf] in simp_all)
  have zo: "worlds z o' = Some w" using z(1) dw ao by simp
  have t: "worlds t = (worlds z |` (- set (q_leaks (q z))))(o' \<mapsto> clear_world w)" "q_leaks (q t) = []"
    "q_free_worlds (q t) = x_add E o' (q_free_worlds (q z))" "stores t = (\<lambda>_. None)" "entries t = (\<lambda>_. None)"
    "q_free_entries (q t) = []" "q_world (q t) = a" "tss t = (tss s)(th := 0)"
    unfolding assms(12) all_given_back_def using assms(11) by simp_all
  have wr: "wrlds t {#} (add_mset a X)" by (rule wrlds_swept [OF wz zo assms(2) t(1-3)])
  have rg: "registered t = {}" using assms(3) t(8) by (auto simp: registered_def)
  have "\<not> live s a \<or> a \<in> set (q_free_worlds (q s))" using assms(7) by (auto simp: live_def)
  then have "a \<notin> set (q_leaks (q s))" using lk by (auto simp: live_def)
  then have ta: "worlds t a = Some ?v" using t(1) z(1,2) ao by simp
  show "inv E t ?v X" "pending E t ?v = {#}"
    by (rule inv_idle [OF wf _ _ _ _ rg t(4-7) assms(5,6) ta wr]; simp add: v)+
  have st: "valid_transition (mulle_aba_worldpointer_state a ?v) (mulle_aba_worldpointer_state r ?v) Swap_unlock"
    unfolding worldpointer_state g gr v by (simp add: valid_transition_def word_sless_alt)
  have ok: "swap_worlds_ok E Swap_unlock a r ?v ?v"
    unfolding swap_worlds_ok_def g gr v by (simp add: Let_def word_sless_alt)
  have "worlds (all_given_back E th o' w z) a = Some ?v" using ta assms(12) by simp
  moreover have "a \<noteq> r" using g(3) gr(3) by auto
  ultimately show "swap_ready E Swap_unlock (all_given_back E th o' w z) a r"
    unfolding swap_ready_def g gr using st ok assms(5) by blast
qed

section \<open>The whole operation\<close>

lemma lone_thread:
  assumes "inv E s w X" "th \<in> registered s" "w_n_threads w = 1"
  shows "registered s = {th}"
proof -
  note l = layoutD [OF coreD(1) [OF invD(6) [OF assms(1)]]]
  have "card (registered s) = 1" using l(4) assms(3) by simp
  then show ?thesis using assms(2) by (auto simp: card_1_singleton_iff)
qed

lemma cached_le: "wrlds s P X \<Longrightarrow> length (q_free_worlds (q s)) \<le> card (dom (worlds s))"
proof -
  assume w: "wrlds s P X"
  have "set (q_free_worlds (q s)) \<subseteq> dom (worlds s)" using w by (auto simp: wrlds_def)
  then have "card (set (q_free_worlds (q s))) \<le> card (dom (worlds s))" by (intro card_mono) simp_all
  then show ?thesis using wrldsD(1) [OF w] by (simp add: distinct_card)
qed

text \<open>From the state after the check-in on.\<close>

lemma run_unregister_rest:
  assumes "inv E s w X" "ext_ok E" "card (dom (worlds s)) < fuel" "room E s 1" "tss s th = w_timestamp w + 1"
    and "unat (w_timestamp w) < 2 ^ 62"
    and "locked = set_lock (q_world (q s)) 1" "c = \<lparr>rc_timestamp = w_timestamp w, rc_locked_world = get_struct locked\<rparr>"
  obtains ps z t w' where
    "run (mulle_aba_storage_try_lock_worldpointer E fuel (q_world (q s))) s = Ok locked (set_q_world locked s)"
    "run (mulle_aba_storage_copy_change_worldpointer E th fuel Swap_unregister locked (remove_thread E) c) (set_q_world locked s) = Ok (ps, c) z"
    "new_world_p ps \<noteq> 0" "run (unregister_finish E th fuel ps locked) z = Ok 0 t" "inv E t w' X"
    "pending E t w' = pending E s w" "trace t = trace s" "tss t = (tss s)(th := 0)"
    "registered s = {th} \<longrightarrow> stores t = (\<lambda>_. None) \<and> entries t = (\<lambda>_. None) \<and> q_leaks (q t) = []"
    "grew 1 s w t w'" "registered s \<noteq> {th} \<longrightarrow> spares E (- {th}) s w X t w' X"
proof -
  let ?p = "q_world (q s)" and ?o = "get_struct (q_world (q s))"
  note i = invD [OF assms(1)]
  note l = layoutD [OF coreD(1) [OF i(6)]]
  have u: "unat (w_timestamp w + 1) = unat (w_timestamp w) + 1" by (rule unat_plus_1) (use assms(6) in simp)
  then have "w_timestamp w + 1 \<noteq> 0" by (metis unat_0 add_is_0 one_neq_zero)
  then have thr: "th \<in> registered s" using assms(5) by (simp add: registered_def)
  have fu: "length (q_free_worlds (q s)) < fuel" "0 < fuel" using cached_le [OF i(8)] assms(3) by linarith+
  have lk: "run (mulle_aba_storage_try_lock_worldpointer E fuel ?p) s = Ok locked (set_q_world locked s)"
    unfolding assms(7) by (rule run_try_lock [OF get_struct_nonzero [OF i(1)] i(2) refl fu(2)])
  define a where "a = calloc_at E (drained s)"
  note n = changeable_new [OF inv_changeable [OF assms(1,2) fu(1) assms(4)], folded a_def]
  have "0 < card (registered s)" using thr l(3) card_gt_0_iff by blast
  then have n0: "w_n_threads w \<noteq> 0" using l(4) by (metis less_irrefl unat_0)
  define ps where "ps = \<lparr>new_world_p = (if w_n_threads w = 1 then set_lock a 1 else a OR 1), old_world_p = locked\<rparr>"
  define z where "z = set_q_world (new_world_p ps) (placed s a (removed (copy_of w)))"
  have cr: "run (mulle_aba_storage_copy_change_worldpointer E th fuel Swap_unregister locked (remove_thread E) c) (set_q_world locked s)
      = Ok (ps, c) z"
    using run_remove_change [OF assms(1,2) fu(1) assms(4) n0 a_def, of th] by (simp add: ps_def z_def assms(7,8))
  have "a OR 1 \<noteq> 0" using new_pointer(1) [OF n(2) order_refl] n(1) by (metis get_bits_const(9))
  then have np: "new_world_p ps \<noteq> 0" by (simp add: ps_def)
  have gl: "get_struct locked = ?o" by (simp add: assms(7))
  have zo: "worlds z ?o = Some w" using n(4,5) by (simp add: z_def)
  have lv: "live z x \<Longrightarrow> live s x \<or> x = a" for x
    by (auto simp: z_def live_def restrict_map_def split: if_splits)
  have bz: "blocks z \<le> Suc (blocks s)" by (rule blocks_insert [OF lv])
  show ?thesis
  proof (cases "w_n_threads w = 1")
    case True
    have rg: "registered s = {th}" by (rule lone_thread [OF assms(1) thr True])
    have pl: "new_world_p ps = set_lock a 1" using True by (simp add: ps_def)
    have za: "z = set_q_world (set_lock a 1) (placed s a (removed (copy_of w)))" by (simp add: z_def pl)
    define t where "t = set_q_world a (all_given_back E th ?o w z)"
    note e = inv_emptied [OF assms(1,2) rg _ n(1-3) True refl refl za t_def, unfolded assms(5)]
    have al: "set_lock a 0 = a" "get_lock (set_lock a 1) = 1"
      using new_pointer [OF n(2), of 0] set_lock_same [of a] by simp_all
    have wd: "worlds z = (worlds (drained s))(a \<mapsto> removed (copy_of w))" "q z = (q s)\<lparr>q_world := set_lock a 1, q_free_worlds := []\<rparr>"
      "entries z = entries s" "stores z = stores s" "tss z = tss s" "trace z = trace s"
      by (simp_all add: za)
    have "run (unregister_finish E th fuel ps locked) z
        = Ok 0 (set_q_world (set_lock (new_world_p ps) 0) (all_given_back E th (get_struct locked) w z))"
      by (rule run_finish_last [OF assms(2)])
        (use e u zo gl i(1) True l(2,6,7,9) wd al fu pl in \<open>simp_all add: ps_def subset_insertI2\<close>)
    then have f: "run (unregister_finish E th fuel ps locked) z = Ok 0 t" by (simp add: pl al gl t_def)
    have "live t x \<Longrightarrow> live z x" for x
      using zo by (auto simp: t_def all_given_back_def live_def restrict_map_def split: if_splits)
    then have "blocks t \<le> blocks z" unfolding blocks_def by (intro card_mono) auto
    then have "grew 1 s w t (removed (copy_of w))" using bz True by (simp add: grew_def removed_def)
    then show ?thesis
      by (intro that [OF lk cr np f e(1)]) (use e(2,3) u wd rg in \<open>simp_all add: t_def all_given_back_def\<close>)
  next
    case False
    define t where "t = upd_leaks (x_add E ?o) (with_tss z th 0)"
    have f: "run (unregister_finish E th fuel ps locked) z = Ok 0 t"
      using run_finish_more [of z locked w ps E th fuel] zo i(1) False gl by (simp add: t_def ps_def)
    have rv: "removed (copy_of w) = one_less (copy_of w)" using False by (simp add: removed_def)
    have ne: "registered s \<noteq> {th}"
    proof
      assume "registered s = {th}"
      then have "unat (w_n_threads w) = unat (1 :: uptr)" using l(4) by simp
      then show False using False by (simp only: word_unat_eq_iff)
    qed
    have zz: "z = set_q_world (a OR 1) (placed s a (one_less (copy_of w)))" using False by (simp add: z_def ps_def rv)
    have td: "worlds t = (worlds (drained s))(a \<mapsto> one_less (copy_of w))" "stores t = stores s" "entries t = entries s"
      "q t = (q s)\<lparr>q_world := a OR 1, q_free_worlds := [], q_leaks := x_add E ?o (q_leaks (q s))\<rparr>"
      "tss t = (tss s)(th := 0)" "trace t = trace s"
      by (simp_all add: t_def zz)
    note v = inv_left [OF assms(1,2,5,6) n(1-3) False td(1-5)]
    have "live t = live z" by (simp add: t_def live_def fun_eq_iff)
    then have "grew 1 s w t (one_less (copy_of w))" using bz by (simp add: grew_def blocks_def)
    then show ?thesis by (intro that [OF lk cr np f v(1,2) td(6,5)]) (use ne v(4) in simp_all)
  qed
qed

lemma run_unregister:
  assumes "inv E s w X" "ready E fuel 1 s w" "card (dom (worlds s)) < fuel" "keyed E s"
  obtains t w' cs where "grew 1 s w t w'" "run (mulle_aba_unregister_current_thread E th fuel) s = Ok 0 t" "inv E t w' X"
    "strip th (pending E s w) = pending E t w' + image_mset (\<lambda>c. (c, {})) (mset cs)" "trace t = trace s @ cs"
    "tss t = (tss s)(th := 0)"
    "registered s = {th} \<longrightarrow> stores t = (\<lambda>_. None) \<and> entries t = (\<lambda>_. None) \<and> q_leaks (q t) = []"
    "registered s \<noteq> {th} \<longrightarrow> spares E (- {th}) s w X t w' X"
proof (cases "tss s th = 0")
  case True
  note i = invD [OF assms(1)]
  obtain f where "fuel = Suc f" using assms(3) by (cases fuel) auto
  moreover have "strip th (pending E s w) = pending E s w"
    by (rule strip_waiting [OF coreD(1) [OF i(6)]]) (simp add: not_held True)
  moreover have "registered s \<noteq> {th}" using True by (auto simp: registered_def)
  ultimately show ?thesis using True assms(1)
    using assms(4)
    by (intro that [of s w "[]"]) (simp_all add: mulle_aba_unregister_current_thread_def run_assert_key exec fun_upd_idem grew_def)
next
  case False
  let ?p = "q_world (q s)"
  note i = invD [OF assms(1)] and r = readyD [OF assms(2)]
  note l = layoutD [OF coreD(1) [OF i(6)]]
  obtain f where f: "fuel = Suc f" using assms(3) by (cases fuel) auto
  have rd: "ready E fuel 0 s w" using assms(2) room_mono [of E s 1 0] by (simp add: ready_def)
  obtain s1 cs where c: "run (unregister_checkin E th fuel (tss s th) (w_timestamp w) ?p) s = Ok (0, q_world (q s1)) s1"
    "inv E s1 w X" "strip th (pending E s w) = pending E s1 w + image_mset (\<lambda>c. (c, {})) (mset cs)" "trace s1 = trace s @ cs"
    "tss s1 = (tss s)(th := w_timestamp w + 1)" "get_struct (q_world (q s1)) = get_struct ?p" "same_blocks s s1"
    "spares E (- {th}) s w X s1 w X"
    by (rule run_unregister_checkin [OF assms(1) rd False])
  define locked where "locked = set_lock (q_world (q s1)) 1"
  define c0 where "c0 = \<lparr>rc_timestamp = w_timestamp w, rc_locked_world = get_struct locked\<rparr>"
  have b: "card (dom (worlds s1)) < fuel" "room E s1 1" "tss s1 th = w_timestamp w + 1"
    using assms(3) c(5,7) r(4) room_stores [OF same_blocks_live [OF c(7)], of E 1] by (simp_all add: same_blocks_def)
  have rg: "registered s1 = registered s" 
  proof -
    have "unat (w_timestamp w + 1) = unat (w_timestamp w) + 1" by (rule unat_plus_1) (use r(5) in simp)
    then have "w_timestamp w + 1 \<noteq> 0" by (metis unat_0 add_is_0 one_neq_zero)
    then show ?thesis using False c(5) by (auto simp: registered_def)
  qed
  obtain ps z t w' where e:
    "run (mulle_aba_storage_try_lock_worldpointer E fuel (q_world (q s1))) s1 = Ok locked (set_q_world locked s1)"
    "run (mulle_aba_storage_copy_change_worldpointer E th fuel Swap_unregister locked (remove_thread E) c0) (set_q_world locked s1) = Ok (ps, c0) z"
    "new_world_p ps \<noteq> 0" "run (unregister_finish E th fuel ps locked) z = Ok 0 t" "inv E t w' X"
    "pending E t w' = pending E s1 w" "trace t = trace s1" "tss t = (tss s1)(th := 0)"
    "registered s1 = {th} \<longrightarrow> stores t = (\<lambda>_. None) \<and> entries t = (\<lambda>_. None) \<and> q_leaks (q t) = []"
    "grew 1 s1 w t w'" "registered s1 \<noteq> {th} \<longrightarrow> spares E (- {th}) s1 w X t w' X"
    by (rule run_unregister_rest [OF c(2) r(1) b(1,2,3) r(5) locked_def c0_def])
  have ln: "locked \<noteq> 0" by (simp add: locked_def)
  have ld: "run (load_world (get_struct ?p)) s = Ok w s" using i(1,3) by (simp add: exec)
  have sa: "run (mulle_aba_world_assert_sanity E th (get_struct ?p)) s = Ok () s" by (rule run_assert_sanity [OF i(1,3) l(1)])
  have "run (mulle_aba_unregister_current_thread E th fuel) s = Ok 0 t"
    using False ld sa c(1) e(1-4) ln assms(4)
    by (simp add: mulle_aba_unregister_current_thread_def run_assert_key f run_bnd run_tss_get run_get_worldpointer Let_def c0_def split_beta)
  moreover have "grew 1 s w t w'" using e(10) same_blocks_live [OF c(7)] by (simp add: grew_def blocks_def)
  ultimately show ?thesis
    by (intro that [OF _ _ e(5)]) (use c(3,4,5) e(6-9) rg spares_trans [OF c(8)] e(11) in simp_all)
qed

end
