(* ===== verification/Aba_Lifecycle.thy ===== *)
theory Aba_Lifecycle
  imports Aba_Unregister
begin

text \<open>
  Setting up a storage establishes the invariant; tearing it down, when no thread is registered,
  gives every block back.
\<close>

section \<open>Setting up\<close>

text \<open>No block of the library is allocated.\<close>

definition blank :: "mem \<Rightarrow> bool" where
  "blank s \<longleftrightarrow> worlds s = (\<lambda>_. None) \<and> stores s = (\<lambda>_. None) \<and> entries s = (\<lambda>_. None)"

lemma blocks_blank: "blank s \<Longrightarrow> blocks s = 0"
  by (simp add: blank_def blocks_def live_def)

lemma wf_new_world: "wf_world E (new_world_of (initial_size E))"
  by (simp add: wf_world_def wf_shape_def initial_size_def n_entries_def)

lemma run_init_p:
  assumes "ext_ok E" "blank s" "allocator \<noteq> 0" "tss_key s = 0 \<or> ndebug E" "x_tss_key E = Some k" "room E s 1"
  obtains t where "run (mulle_aba_init_p E th allocator) s = Ok 0 t" "inv E t (new_world_of (initial_size E)) {#}"
    "pending E t (new_world_of (initial_size E)) = {#}" "trace t = trace s" "tss t = (\<lambda>_. 0)" "blocks t = 1"
    "tss_key t = k" "q_allocator (q t) = allocator" "aba_global t = aba_global s" "allocator_aba t = allocator_aba s"
proof -
  let ?v = "new_world_of (initial_size E)"
  define s1 where "s1 = s\<lparr>tss_key := k, tss := (\<lambda>_. 0)\<rparr>"
  have b: "worlds s1 = (\<lambda>_. None)" "stores s1 = (\<lambda>_. None)" "entries s1 = (\<lambda>_. None)"
    using assms(2) by (simp_all add: s1_def blank_def)
  define a where "a = calloc_at E (inited s1 allocator)"
  have "room E (inited s1 allocator) (Suc 0)"
    by (rule room_less_live [where s = s]) (use assms(6) b in \<open>simp_all add: live_def inited_def\<close>)
  note al = calloc_at_fresh [OF ext_ok_parts(1) [OF assms(1)] this, folded a_def]
  define t where "t = s1\<lparr>nops := Suc (nops s1), worlds := (worlds s1)(a \<mapsto> ?v),
     q := empty_storage\<lparr>q_allocator := allocator, q_world := a\<rparr>\<rparr>"
  have st: "run (mulle_aba_storage_init E th allocator) s1 = Ok 0 t"
    unfolding t_def a_def using al(1) by (intro run_storage_init [OF ext_ok_parts(2) [OF assms(1)] assms(3)]) (simp add: a_def)
  have r: "run (mulle_aba_init_p E th allocator) s = Ok 0 t"
    using assms(4,5) st by (auto simp: mulle_aba_init_p_def exec s1_def run_c_assert)
  have t: "worlds t = [a \<mapsto> ?v]" "stores t = (\<lambda>_. None)" "entries t = (\<lambda>_. None)" "q_world (q t) = a"
    "q_free_entries (q t) = []" "q_free_worlds (q t) = []" "q_leaks (q t) = []" "tss t = (\<lambda>_. 0)"
    using b by (simp_all add: t_def empty_storage_def s1_def)
  have rg: "registered t = {}" using t(8) by (simp add: registered_def)
  have wr: "wrlds t {#} (add_mset a {#})"
    using t al(1) by (simp add: wrlds_def retired_def initial_size_def)
  have i: "inv E t ?v {#}" "pending E t ?v = {#}"
    by (rule inv_idle [OF wf_new_world _ _ _ _ rg t(2,3,5,4) al(1,2) _ wr]; simp add: t(1))+
  have "{x. live t x} = {a}" using t(1-3) by (auto simp: live_def split: if_splits)
  then have "blocks t = 1" by (simp add: blocks_def)
  with r i t(8) show ?thesis by (intro that [of t]) (simp_all add: t_def s1_def empty_storage_def)
qed

section \<open>Tearing down\<close>

lemma idle_waiting:
  assumes "inv E s w X" "registered s = {}"
  shows "waiting E s w = {#}" "stores s = (\<lambda>_. None)" "w_n_threads w = 0" "w_timestamp w = 0"
proof -
  note i = invD [OF assms(1)]
  note l = layoutD [OF coreD(1) [OF i(6)]]
  show n: "w_n_threads w = 0" using l(4) assms(2) by (simp add: unat_eq_zero)
  then show ts: "w_timestamp w = 0" using i(4) by (simp add: good_state_def)
  then have "storages w = []" using coreD(2) [OF i(6)] by (simp add: storages_def)
  then show "stores s = (\<lambda>_. None)" using l(7) by auto
  show "waiting E s w = {#}"
  proof (rule ccontr)
    assume "waiting E s w \<noteq> {#}"
    then obtain x where "x \<in># waiting E s w" by blast
    then obtain t where "snd x = hold s w t" "snd x \<noteq> {}" by (rule waiting_holders [OF coreD(1) [OF i(6)]])
    then show False using hold_subset [of s w t] assms(2) by auto
  qed
qed

lemma run_done_p:
  assumes "inv E s w {#}" "ext_ok E" "registered s = {}"
  obtains t where "run (mulle_aba_done_p E) s = Ok () t" "blank t" "trace t = trace s" "tss t = tss s" "tss_key t = 0"
    "q t = empty_storage" "aba_global t = aba_global s" "allocator_aba t = allocator_aba s"
proof -
  let ?a = "get_struct (q_world (q s))"
  note i = invD [OF assms(1)]
  note l = layoutD [OF coreD(1) [OF i(6)]]
  note d = idle_waiting [OF assms(1,3)]
  have r: "retired s {#} = {#}" by (simp add: retired_def)
  have ws: "wrlds s {#} {#?a#}" using i(8) d(1) by simp
  have dm: "dom (worlds s) = insert ?a (set (q_leaks (q s)) \<union> set (q_free_worlds (q s)))"
    and nl: "?a \<notin> set (q_leaks (q s))" "?a \<notin> set (q_free_worlds (q s))"
    using ws by (auto simp: wrlds_def r)
  have en: "set (q_free_entries (q s)) = dom (entries s)" "distinct (q_free_entries (q s))"
    using i(7) d(1) by (simp_all add: ents_def)
  define s1 where "s1 = upd_leaks (\<lambda>_. []) (s\<lparr>worlds := worlds s |` (- set (q_leaks (q s)))\<rparr>)"
  define s2 where "s2 = upd_free_worlds (x_add E ?a) (s1\<lparr>worlds := (worlds s1)(?a \<mapsto> clear_world w)\<rparr>)"
  define s4 where "s4 = upd_free_entries (\<lambda>_. []) ((drained s2)\<lparr>entries := entries s |` (- set (q_free_entries (q s)))\<rparr>)"
  have lm: "\<forall>x \<in> set (q_leaks (q s)). worlds s x \<noteq> None" using dm by blast
  have r1: "run mulle_aba_storage_free_leak_worlds s = Ok () s1"
    unfolding s1_def by (rule run_free_leak_worlds [OF wrldsD(2) [OF ws] lm])
  have w1: "worlds s1 ?a = Some w" using i(3) nl by (simp add: s1_def)
  have r2: "run (mulle_aba_storage_free_world E ?a) s1 = Ok () s2"
    unfolding s2_def by (rule run_free_world [OF i(1) w1 wf_world_size(2) [OF l(1)]])
  have m: "mset (q_free_worlds (q s2)) = add_mset ?a (mset (q_free_worlds (q s)))"
    using x_add_mset [OF ext_ok_parts(2) [OF assms(2)]] by (simp add: s2_def s1_def)
  then have "distinct (?a # q_free_worlds (q s)) \<longleftrightarrow> distinct (q_free_worlds (q s2))"
    by (intro mset_eq_imp_distinct_iff) simp
  then have fd: "distinct (q_free_worlds (q s2))" using wrldsD(1) [OF ws] nl by simp
  have fs: "set (q_free_worlds (q s2)) = insert ?a (set (q_free_worlds (q s)))"
    using arg_cong [OF m, of set_mset] by simp
  have d2: "dom (worlds s2) = insert ?a (set (q_free_worlds (q s)))"
    using dm nl wrldsD(3) [OF ws] by (auto simp: s2_def s1_def)
  have r3: "run mulle_aba_storage_free_unused_worlds s2 = Ok () (drained s2)"
    by (rule run_free_unused_worlds [OF fd]) (use fs d2 in blast)
  have e2: "entries (drained s2) = entries s" "q_free_entries (q (drained s2)) = q_free_entries (q s)"
    by (simp_all add: s2_def s1_def)
  have em: "\<forall>x \<in> set (q_free_entries (q s)). entries s x \<noteq> None" unfolding en(1) by blast
  have r4: "run mulle_aba_storage_free_unused_free_entries (drained s2) = Ok () s4"
    using run_free_unused_free_entries [of "drained s2"] en(2) em e2 by (simp add: s4_def)
  define t where "t = (if ndebug E then s4 else set_q_world 0xAFAFAFAFAFAFAFAF s4)\<lparr>tss_key := 0, q := empty_storage\<rparr>"
  have run: "run (mulle_aba_done_p E) s = Ok () t"
    using r1 r2 r3 r4 by (simp add: mulle_aba_done_p_def mulle_aba_storage_done_def run_bnd run_get_worldpointer Let_def t_def)
  have "worlds t = worlds s2 |` (- dom (worlds s2))" unfolding d2 fs [symmetric] by (simp add: t_def s4_def)
  then have "worlds t = (\<lambda>_. None)" by (auto simp: restrict_map_def)
  moreover have "stores t = (\<lambda>_. None)" using d(2) by (simp add: t_def s4_def s2_def s1_def)
  moreover have "entries t = entries s |` (- dom (entries s))" unfolding en(1) [symmetric] by (simp add: t_def s4_def)
  then have "entries t = (\<lambda>_. None)" by (auto simp: restrict_map_def)
  ultimately have "blank t" by (simp add: blank_def)
  with run show ?thesis
    by (intro that [of t]) (simp_all add: t_def s4_def s2_def s1_def upd_free_entries_def upd_free_worlds_def upd_leaks_def drained_def)
qed

end
