(* ===== verification/Aba_Spec.thy ===== *)
theory Aba_Spec
  imports Aba_Lifecycle
begin

text \<open>
  What the library promises, without worlds and timestamps: a state has the registered threads, the
  calls that are due with the threads each still waits for, and the calls made. The interface
  \<open>deferred_free\<close> states what every operation does to these three; its lemmas say when a pointer is
  freed, whatever the implementation.
\<close>

section \<open>Operations\<close>

datatype api_op = Register tid | Checkin tid | Free tid fnptr uptr uptr | Unregister tid

text \<open>The calls an operation asks for, the threads it makes quiescent, the threads registered after it.\<close>

fun op_calls :: "api_op \<Rightarrow> event list" where
  "op_calls (Free th f ptr owner) = due f ptr owner"
| "op_calls _ = []"

fun op_quiet :: "api_op \<Rightarrow> tid set" where
  "op_quiet (Checkin th) = {th}"
| "op_quiet (Unregister th) = {th}"
| "op_quiet _ = {}"

fun op_threads :: "api_op \<Rightarrow> tid set \<Rightarrow> tid set" where
  "op_threads (Register th) R = insert th R"
| "op_threads (Unregister th) R = R - {th}"
| "op_threads _ R = R"

definition freed :: "api_op list \<Rightarrow> event list" where
  "freed ops = concat (map op_calls ops)"

definition quiesced :: "api_op list \<Rightarrow> tid set" where
  "quiesced ops = (\<Union>x \<in> set ops. op_quiet x)"

definition threads :: "api_op list \<Rightarrow> tid set \<Rightarrow> tid set" where
  "threads ops R = fold op_threads ops R"

lemma freed_simps [simp]: "freed [] = []" "freed (x # ops) = op_calls x @ freed ops" "freed (ops @ ops') = freed ops @ freed ops'"
  by (simp_all add: freed_def)

lemma quiesced_simps [simp]: "quiesced [] = {}" "quiesced (x # ops) = op_quiet x \<union> quiesced ops"
  by (simp_all add: quiesced_def)

lemma threads_simps [simp]: "threads [] R = R" "threads (x # ops) R = threads ops (op_threads x R)"
  "threads (ops @ ops') R = threads ops' (threads ops R)"
  by (simp_all add: threads_def)

text \<open>Runs of a step relation.\<close>

inductive runs :: "('s \<Rightarrow> api_op \<Rightarrow> 's \<Rightarrow> bool) \<Rightarrow> 's \<Rightarrow> api_op list \<Rightarrow> 's \<Rightarrow> bool" for step where
  runs_Nil: "runs step s [] s"
| runs_Cons: "step s x t \<Longrightarrow> runs step t ops u \<Longrightarrow> runs step s (x # ops) u"

inductive_cases runs_NilE: "runs step s [] t"
inductive_cases runs_ConsE: "runs step s (x # ops) t"

lemma runs_append: "runs step s (ops @ ops') u \<Longrightarrow> \<exists>t. runs step s ops t \<and> runs step t ops' u"
proof (induction ops arbitrary: s)
  case (Cons x ops)
  then show ?case by (auto elim!: runs_ConsE intro: runs_Cons) (metis runs_Cons)
qed (auto intro: runs_Nil)

section \<open>The abstract specification\<close>

record spec =
  sp_threads :: "tid set"
  sp_pending :: "(event \<times> tid set) multiset"
  sp_calls :: "event list"

text \<open>A thread becomes quiescent: no call waits for it any more, and those that wait for nobody are made, in any order.\<close>

definition quiet :: "tid \<Rightarrow> (event \<times> tid set) multiset \<Rightarrow> event list \<Rightarrow> (event \<times> tid set) multiset \<Rightarrow> event list \<Rightarrow> bool" where
  "quiet th P T P' T' \<longleftrightarrow> P' = filter_mset (\<lambda>x. snd x \<noteq> {}) (strip th P)
     \<and> (\<exists>cs. T' = T @ cs \<and> mset cs = image_mset fst (filter_mset (\<lambda>x. snd x = {}) (strip th P)))"

inductive spec_step :: "spec \<Rightarrow> api_op \<Rightarrow> spec \<Rightarrow> bool" where
  spec_register: "spec_step \<lparr>sp_threads = R, sp_pending = P, sp_calls = T\<rparr> (Register th)
     \<lparr>sp_threads = insert th R, sp_pending = P, sp_calls = T\<rparr>"
| spec_checkin: "quiet th P T P' T' \<Longrightarrow> spec_step \<lparr>sp_threads = R, sp_pending = P, sp_calls = T\<rparr> (Checkin th)
     \<lparr>sp_threads = R, sp_pending = P', sp_calls = T'\<rparr>"
| spec_free_now: "card R \<le> 1 \<Longrightarrow> spec_step \<lparr>sp_threads = R, sp_pending = P, sp_calls = T\<rparr> (Free th f ptr owner)
     \<lparr>sp_threads = R, sp_pending = P, sp_calls = T @ due f ptr owner\<rparr>"
| spec_free_later: "1 < card R \<Longrightarrow> spec_step \<lparr>sp_threads = R, sp_pending = P, sp_calls = T\<rparr> (Free th f ptr owner)
     \<lparr>sp_threads = R, sp_pending = P + image_mset (\<lambda>c. (c, R)) (mset (due f ptr owner)), sp_calls = T\<rparr>"
| spec_unregister: "quiet th P T P' T' \<Longrightarrow> spec_step \<lparr>sp_threads = R, sp_pending = P, sp_calls = T\<rparr> (Unregister th)
     \<lparr>sp_threads = R - {th}, sp_pending = P', sp_calls = T'\<rparr>"

inductive_cases spec_RegisterE: "spec_step s (Register th) t"
inductive_cases spec_CheckinE: "spec_step s (Checkin th) t"
inductive_cases spec_FreeE: "spec_step s (Free th f ptr owner) t"
inductive_cases spec_UnregisterE: "spec_step s (Unregister th) t"

text \<open>Every pending call waits for somebody, and only for registered threads.\<close>

definition spec_ok :: "spec \<Rightarrow> bool" where
  "spec_ok s \<longleftrightarrow> (\<forall>x \<in># sp_pending s. snd x \<noteq> {} \<and> snd x \<subseteq> sp_threads s)"

lemma quietI:
  assumes "strip th P = P' + image_mset (\<lambda>c. (c, {})) (mset cs)" "\<forall>x \<in># P'. snd x \<noteq> {}" "T' = T @ cs"
  shows "quiet th P T P' T'"
proof -
  have "filter_mset (\<lambda>x. snd x \<noteq> {}) P' = P'" "filter_mset (\<lambda>x. snd x = {}) P' = {#}"
    using assms(2) by (auto simp: filter_mset_eq_conv)
  then show ?thesis
    unfolding quiet_def assms(1) using assms(3)
    by (auto simp: filter_mset_image_mset image_mset.compositionality comp_def)
qed

text \<open>A thread's quiescence loses no call.\<close>

lemma quiet_calls:
  assumes "quiet th P T P' T'"
  shows "mset T' + image_mset fst P' = mset T + image_mset fst P"
proof -
  obtain cs where cs: "T' = T @ cs" "mset cs = image_mset fst (filter_mset (\<lambda>x. snd x = {}) (strip th P))"
    and P': "P' = filter_mset (\<lambda>x. snd x \<noteq> {}) (strip th P)" using assms by (auto simp: quiet_def)
  have "image_mset fst (strip th P) = image_mset fst P"
    by (simp add: strip_def image_mset.compositionality comp_def split_beta)
  moreover have "filter_mset (\<lambda>x. snd x = {}) (strip th P) + filter_mset (\<lambda>x. snd x \<noteq> {}) (strip th P) = strip th P"
    using multiset_partition [of "strip th P" "\<lambda>x. snd x = {}"] by simp
  ultimately show ?thesis
    unfolding cs P' by (metis (no_types, lifting) add.assoc image_mset_union mset_append cs(2))
qed

lemma quiet_waits:
  assumes "quiet th P T P' T'" "\<forall>x \<in># P. snd x \<subseteq> R"
  shows "\<forall>x \<in># P'. snd x \<noteq> {} \<and> snd x \<subseteq> R - {th}"
proof
  fix x assume "x \<in># P'"
  then have x: "x \<in># strip th P" "snd x \<noteq> {}" using assms(1) by (auto simp: quiet_def)
  then obtain c h where "(c, h) \<in># P" "x = (c, h - {th})" by (auto simp: strip_def)
  moreover from this have "h \<subseteq> R" using assms(2) by force
  ultimately show "snd x \<noteq> {} \<and> snd x \<subseteq> R - {th}" using x(2) by auto
qed

text \<open>A call that waits for \<open>h\<close> is made if \<open>h\<close> is the thread alone, and waits on for the others otherwise.\<close>

lemma quiet_fate:
  assumes "quiet th P T P' T'" "(c, h) \<in># P"
  shows "h \<subseteq> {th} \<Longrightarrow> c \<in> set T'" "\<not> h \<subseteq> {th} \<Longrightarrow> (c, h - {th}) \<in># P'"
proof -
  obtain cs where cs: "T' = T @ cs" "mset cs = image_mset fst (filter_mset (\<lambda>x. snd x = {}) (strip th P))"
    and P': "P' = filter_mset (\<lambda>x. snd x \<noteq> {}) (strip th P)" using assms(1) by (auto simp: quiet_def)
  have st: "(c, h - {th}) \<in># strip th P" using assms(2) by (force simp: strip_def)
  show "\<not> h \<subseteq> {th} \<Longrightarrow> (c, h - {th}) \<in># P'" using st by (auto simp: P')
  show "c \<in> set T'" if "h \<subseteq> {th}"
  proof -
    have "(c, {}) \<in># strip th P" using st that by (metis Diff_eq_empty_iff)
    then have "c \<in># mset cs" unfolding cs(2) by force
    then show ?thesis using cs(1) by simp
  qed
qed

section \<open>The interface\<close>

locale deferred_free =
  fixes step :: "'s \<Rightarrow> api_op \<Rightarrow> 's \<Rightarrow> bool" and ok :: "'s \<Rightarrow> bool" and abs :: "'s \<Rightarrow> spec"
  assumes refines: "ok s \<Longrightarrow> step s x t \<Longrightarrow> ok t \<and> spec_step (abs s) x (abs t)"
    and waits: "ok s \<Longrightarrow> spec_ok (abs s)"
begin

lemma step_threads: "ok s \<Longrightarrow> step s x t \<Longrightarrow> sp_threads (abs t) = op_threads x (sp_threads (abs s))"
  using refines [of s x t] by (auto elim!: spec_step.cases)

text \<open>No call is lost and none is made twice: calls made and calls pending are those asked for.\<close>

lemma step_calls:
  assumes "ok s" "step s x t"
  shows "mset (sp_calls (abs t)) + image_mset fst (sp_pending (abs t))
    = mset (sp_calls (abs s)) + image_mset fst (sp_pending (abs s)) + mset (op_calls x)"
proof -
  have "spec_step (abs s) x (abs t)" using refines [OF assms] by blast
  then show ?thesis
    by cases (simp_all add: quiet_calls image_mset.compositionality comp_def)
qed

lemma runs_ok: "runs step s ops t \<Longrightarrow> ok s \<Longrightarrow> ok t"
  by (induction rule: runs.induct) (use refines in blast)+

lemma runs_threads: "runs step s ops t \<Longrightarrow> ok s \<Longrightarrow> sp_threads (abs t) = threads ops (sp_threads (abs s))"
  by (induction rule: runs.induct) (use refines step_threads in auto)

lemma runs_calls:
  "runs step s ops t \<Longrightarrow> ok s \<Longrightarrow> mset (sp_calls (abs t)) + image_mset fst (sp_pending (abs t))
    = mset (sp_calls (abs s)) + image_mset fst (sp_pending (abs s)) + mset (freed ops)"
proof (induction rule: runs.induct)
  case (runs_Cons s x t ops u)
  have "ok t" using refines [OF runs_Cons.prems runs_Cons.hyps(1)] by blast
  from runs_Cons.IH [OF this] step_calls [OF runs_Cons.prems runs_Cons.hyps(1)] show ?case by (simp add: add.assoc)
qed simp

text \<open>Calls are never taken back.\<close>

lemma step_kept:
  assumes "ok s" "step s x t"
  shows "set (sp_calls (abs s)) \<subseteq> set (sp_calls (abs t))"
proof -
  have "spec_step (abs s) x (abs t)" using refines [OF assms] by blast
  then show ?thesis by cases (auto simp: quiet_def)
qed

lemma runs_kept: "runs step s ops t \<Longrightarrow> ok s \<Longrightarrow> set (sp_calls (abs s)) \<subseteq> set (sp_calls (abs t))"
  by (induction rule: runs.induct) (use refines step_kept in blast)+

lemma step_fate:
  assumes "ok s" "step s x t" "(c, h) \<in># sp_pending (abs s)"
  shows "h \<subseteq> op_quiet x \<Longrightarrow> c \<in> set (sp_calls (abs t))" "\<not> h \<subseteq> op_quiet x \<Longrightarrow> (c, h - op_quiet x) \<in># sp_pending (abs t)"
proof -
  have st: "spec_step (abs s) x (abs t)" using refines [OF assms(1,2)] by blast
  have ne: "h \<noteq> {}" using waits [OF assms(1)] assms(3) by (force simp: spec_ok_def)
  show "h \<subseteq> op_quiet x \<Longrightarrow> c \<in> set (sp_calls (abs t))"
    using st by cases (use ne assms(3) quiet_fate(1) in auto)
  show "\<not> h \<subseteq> op_quiet x \<Longrightarrow> (c, h - op_quiet x) \<in># sp_pending (abs t)"
    using st by cases (use assms(3) quiet_fate(2) in auto)
qed

text \<open>A pending call is made when, and only when, every thread it waits for has become quiescent.\<close>

lemma runs_fate:
  "runs step s ops t \<Longrightarrow> ok s \<Longrightarrow> (c, h) \<in># sp_pending (abs s) \<Longrightarrow>
    if h \<subseteq> quiesced ops then c \<in> set (sp_calls (abs t)) else (c, h - quiesced ops) \<in># sp_pending (abs t)"
proof (induction arbitrary: h rule: runs.induct)
  case (runs_Nil s)
  then have "h \<noteq> {}" using waits by (force simp: spec_ok_def)
  with runs_Nil show ?case by auto
next
  case (runs_Cons s x t ops u)
  have ok: "ok t" using refines [OF runs_Cons.prems(1) runs_Cons.hyps(1)] by blast
  note f = step_fate [OF runs_Cons.prems(1) runs_Cons.hyps(1) runs_Cons.prems(2)]
  show ?case
  proof (cases "h \<subseteq> op_quiet x")
    case True
    then show ?thesis using f(1) runs_kept [OF runs_Cons.hyps(2) ok] by auto
  next
    case False
    have "h - op_quiet x \<subseteq> quiesced ops \<longleftrightarrow> h \<subseteq> quiesced (x # ops)" "h - op_quiet x - quiesced ops = h - quiesced (x # ops)"
      by auto
    with runs_Cons.IH [OF ok f(2) [OF False]] show ?thesis by (simp only:)
  qed
qed

text \<open>A pointer freed in the middle of a run.\<close>

lemma freed_iff_quiesced:
  assumes "ok s" "runs step s ops t" "step t (Free th f ptr owner) u" "runs step u ops' v"
    and "due f ptr owner = [c]" "c \<notin># mset (sp_calls (abs s)) + image_mset fst (sp_pending (abs s))"
    and "c \<notin> set (freed ops)" "c \<notin> set (freed ops')"
  shows "c \<in> set (sp_calls (abs v)) \<longleftrightarrow> card (sp_threads (abs t)) \<le> 1 \<or> sp_threads (abs t) \<subseteq> quiesced ops'"
    "count (mset (sp_calls (abs v))) c \<le> 1"
proof -
  let ?x = "Free th f ptr owner" and ?all = "\<lambda>s. mset (sp_calls (abs s)) + image_mset fst (sp_pending (abs s))"
  have ok: "ok t" "ok u" using runs_ok [OF assms(2,1)] refines [OF _ assms(3)] by blast+
  have "c \<notin># ?all t" using runs_calls [OF assms(2,1)] assms(6,7) by simp
  then have t0: "count (?all t) c = 0" by (simp only: not_in_iff)
  have "count (?all u) c = count (?all t) c + 1"
    using step_calls [OF ok(1) assms(3)] assms(5) by simp
  moreover have "count (?all v) c = count (?all u) c"
    using runs_calls [OF assms(4) ok(2)] assms(8) by (simp add: count_mset_0_iff)
  ultimately have v1: "count (?all v) c = 1" using t0 by simp
  then show "count (mset (sp_calls (abs v))) c \<le> 1" by simp
  have st: "spec_step (abs t) ?x (abs u)" using refines [OF ok(1) assms(3)] by blast
  show "c \<in> set (sp_calls (abs v)) \<longleftrightarrow> card (sp_threads (abs t)) \<le> 1 \<or> sp_threads (abs t) \<subseteq> quiesced ops'"
  proof (cases "card (sp_threads (abs t)) \<le> 1")
    case True
    then have "c \<in> set (sp_calls (abs u))" using st assms(5) by (auto elim: spec_FreeE)
    then show ?thesis using True runs_kept [OF assms(4) ok(2)] by blast
  next
    case False
    then have "(c, sp_threads (abs t)) \<in># sp_pending (abs u)" using st assms(5) by (auto elim: spec_FreeE)
    note f = runs_fate [OF assms(4) ok(2) this]
    show ?thesis
    proof (cases "sp_threads (abs t) \<subseteq> quiesced ops'")
      case False
      then have "(c, sp_threads (abs t) - quiesced ops') \<in># sp_pending (abs v)" using f by simp
      then have "fst (c, sp_threads (abs t) - quiesced ops') \<in># image_mset fst (sp_pending (abs v))" by (simp only: set_image_mset imageI)
      then have "0 < count (image_mset fst (sp_pending (abs v))) c" by simp
      then have "count (mset (sp_calls (abs v))) c = 0" using v1 unfolding count_union by linarith
      then show ?thesis using False \<open>\<not> card (sp_threads (abs t)) \<le> 1\<close> by (simp add: count_mset_0_iff)
    qed (use f in simp)
  qed
qed

text \<open>When no thread is registered any more, every call asked for has been made.\<close>

lemma all_called:
  assumes "ok s" "runs step s ops t" "sp_calls (abs s) = []" "sp_pending (abs s) = {#}" "threads ops (sp_threads (abs s)) = {}"
  shows "mset (sp_calls (abs t)) = mset (freed ops)"
proof -
  have "sp_threads (abs t) = {}" using runs_threads [OF assms(2,1)] assms(5) by simp
  then have "x \<notin># sp_pending (abs t)" for x using waits [OF runs_ok [OF assms(2,1)]] by (cases x) (auto simp: spec_ok_def)
  then have "sp_pending (abs t) = {#}" by (metis multiset_nonemptyE)
  then show ?thesis using runs_calls [OF assms(2,1)] assms(3,4) by simp
qed

end

text \<open>With resources: every legal call within the budget can be made and uses up one unit of it.\<close>

locale budgeted_free = deferred_free step ok abs
  for step :: "'s \<Rightarrow> api_op \<Rightarrow> 's \<Rightarrow> bool" and ok :: "'s \<Rightarrow> bool" and abs :: "'s \<Rightarrow> spec" +
  fixes legal :: "'s \<Rightarrow> api_op \<Rightarrow> bool" and budget :: "nat \<Rightarrow> 's \<Rightarrow> bool"
  assumes progress: "ok s \<Longrightarrow> budget (Suc n) s \<Longrightarrow> legal s x \<Longrightarrow> \<exists>t. step s x t"
    and spends: "ok s \<Longrightarrow> budget (Suc n) s \<Longrightarrow> step s x t \<Longrightarrow> budget n t"
begin

lemma runs_budget: "runs step s ops t \<Longrightarrow> ok s \<Longrightarrow> budget (n + length ops) s \<Longrightarrow> ok t \<and> budget n t"
proof (induction rule: runs.induct)
  case (runs_Cons s x t ops u)
  have "ok t" using refines [OF runs_Cons.prems(1) runs_Cons.hyps(1)] by blast
  moreover have "budget (n + length ops) t"
    by (rule spends [OF runs_Cons.prems(1) _ runs_Cons.hyps(1)]) (use runs_Cons.prems(2) in simp)
  ultimately show ?case by (rule runs_Cons.IH)
qed simp

lemma never_stuck:
  assumes "runs step s ops t" "ok s" "budget n s" "length ops < n" "legal t x"
  shows "\<exists>u. step t x u"
proof -
  have "n = Suc (n - Suc (length ops)) + length ops" using assms(4) by simp
  with assms(3) have "budget (Suc (n - Suc (length ops)) + length ops) s" by metis
  from runs_budget [OF assms(1,2) this] progress assms(5) show ?thesis by blast
qed

lemma legal_runs:
  assumes "ok s" "budget (length ops) s" "\<And>xs x ys t. ops = xs @ x # ys \<Longrightarrow> runs step s xs t \<Longrightarrow> legal t x"
  shows "\<exists>t. runs step s ops t"
  using assms
proof (induction ops arbitrary: s)
  case (Cons x ops)
  have "legal s x" by (rule Cons.prems(3) [of "[]" x ops s]) (auto intro: runs_Nil)
  then obtain t where t: "step s x t" using progress [OF Cons.prems(1)] Cons.prems(2) by auto
  have "\<exists>u. runs step t ops u"
  proof (rule Cons.IH)
    show "ok t" using refines [OF Cons.prems(1) t] by blast
    show "budget (length ops) t" by (rule spends [OF Cons.prems(1) _ t]) (use Cons.prems(2) in simp)
    show "legal v y" if "ops = xs @ y # ys" "runs step t xs v" for xs y ys v
      by (rule Cons.prems(3) [of "x # xs" y ys v]) (use that t in \<open>auto intro: runs_Cons\<close>)
  qed
  with t show ?case by (auto intro: runs_Cons)
qed (auto intro: runs_Nil)

end

section \<open>The specification is an instance\<close>

lemma spec_step_ok:
  assumes "spec_ok s" "spec_step s x t" "\<And>th f ptr owner. x = Free th f ptr owner \<Longrightarrow> th \<in> sp_threads s"
  shows "spec_ok t"
proof -
  have *: "\<forall>x \<in># sp_pending s. snd x \<noteq> {} \<and> snd x \<subseteq> sp_threads s" using assms(1) by (simp add: spec_ok_def)
  from assms(2) show ?thesis
  proof cases
    case (spec_checkin th P T P' T' R)
    then have "\<forall>x \<in># P'. snd x \<noteq> {} \<and> snd x \<subseteq> R - {th}" using * by (intro quiet_waits) auto
    then show ?thesis using spec_checkin by (auto simp: spec_ok_def)
  next
    case (spec_unregister th P T P' T' R)
    then have "\<forall>x \<in># P'. snd x \<noteq> {} \<and> snd x \<subseteq> R - {th}" using * by (intro quiet_waits) auto
    then show ?thesis using spec_unregister by (auto simp: spec_ok_def)
  qed (use * assms(3) in \<open>auto simp: spec_ok_def\<close>)
qed

interpretation spec: deferred_free
  "\<lambda>s x t. spec_step s x t \<and> (\<forall>th f ptr owner. x = Free th f ptr owner \<longrightarrow> th \<in> sp_threads s)" spec_ok "\<lambda>s. s"
  by unfold_locales (auto intro: spec_step_ok)

end
