(* ===== verification/Aba_Key.thy ===== *)
theory Aba_Key
  imports Aba_Pool
begin

text \<open>
  The key under which a thread finds its timestamp: the asserts on it hold as long as it is not the
  invalid key -1, and no operation of a thread changes it. Only \<open>mulle_aba_init_p\<close> and
  \<open>mulle_aba_done_p\<close> set it.
\<close>

abbreviation key_kept :: "uptr \<Rightarrow> (mem, 'a) prog \<Rightarrow> bool" where
  "key_kept k \<equiv> keeps (\<lambda>s. tss_key s = k)"

named_theorems key_progs

declare keeps_bnd [key_progs] quiet_if(2) [key_progs] quiet_option(2) [key_progs] quiet_check(2) [key_progs]
  keeps_each [key_progs]

section \<open>Primitive actions\<close>

lemma key_prod [key_progs]: "(\<And>a b. keeps I (f a b)) \<Longrightarrow> keeps I (case x of (a, b) \<Rightarrow> f a b)"
  by (simp split: prod.split)

lemma key_simple [key_progs]:
  "keeps I (Ret a)" "keeps I (Crash e)" "keeps I skip" "keeps I (c_assert E b)" "keeps I (reads g)"
  by (simp_all add: reads_def)

lemma key_primitives [key_progs]:
  "key_kept k (set_errno th e)" "key_kept k (get_errno th)" "key_kept k (tss_set th v)" "key_kept k (tss_get th)"
  "key_kept k (load_world a)" "key_kept k (store_world a f)" "key_kept k (load_ts a)" "key_kept k (store_ts a g)"
  "key_kept k (load_entry a)" "key_kept k (store_entry a h)" "key_kept k (calloc_world E m)" "key_kept k (calloc_ts E m)"
  "key_kept k (calloc_entry E)" "key_kept k (dealloc_world a)" "key_kept k (dealloc_ts a)" "key_kept k (dealloc_entry a)"
  "key_kept k mulle_aba_storage_get_worldpointer" "key_kept k (cas_world n x)" "key_kept k (weakcas_usage E a n x)"
  by (simp_all add: set_errno_def get_errno_def tss_set_def tss_get_def modify_def reads_def load_world_def store_world_def
      load_ts_def store_ts_def load_entry_def store_entry_def calloc_world_def calloc_ts_def calloc_entry_def
      dealloc_world_def dealloc_ts_def dealloc_entry_def check_ptr_def check_free_def Let_def set_q_world_def
      mulle_aba_storage_get_worldpointer_def cas_world_def weakcas_usage_def split: option.split)

lemma key_lists [key_progs]:
  "key_kept k (free_entries_remove_one E)" "key_kept k (free_worlds_remove_one E)"
  "key_kept k (modify (upd_free_entries xs))" "key_kept k (modify (upd_free_worlds xs))" "key_kept k (modify (upd_leaks xs))"
  "key_kept k (Act (upd_leaks xs) (\<lambda>s. Ret (r s)))" "key_kept k (Act (upd_free_worlds xs) (\<lambda>s. Ret (r s)))"
  "key_kept k (Act (upd_free_entries xs) (\<lambda>s. Ret (r s)))" "key_kept k (modify (\<lambda>s. s\<lparr>trace := trace s @ cs\<rparr>))"
  by (simp_all add: free_entries_remove_one_def free_worlds_remove_one_def modify_def upd_free_entries_def
      upd_free_worlds_def upd_leaks_def)

section \<open>Storages and worlds\<close>

lemma key_entry [key_progs]:
  "key_kept k (entry_update e f)"
  by (simp add: entry_update_def check_ptr_def check_index_def split: option.split)

lemma key_entries [key_progs]:
  "key_kept k (entry_decrement_rc e)" "key_kept k (entry_add_rc e d)" "key_kept k (entry_add_pointer E e a)"
  "key_kept k (entry_get_list e)" "key_kept k (entry_clear_list e)"
  "key_kept k (mulle_aba_timestampstorage_get_timestampentry_at_index E a i)"
  "key_kept k (mulle_aba_timestampstorage_alloc E)" "key_kept k (mulle_aba_timestampstorage_free_unchecked a)"
  unfolding entry_decrement_rc_def entry_add_rc_def entry_add_pointer_def entry_get_list_def entry_clear_list_def
    mulle_aba_timestampstorage_get_timestampentry_at_index_def mulle_aba_timestampstorage_alloc_def
    mulle_aba_timestampstorage_free_unchecked_def
  by (intro key_progs)+

lemma key_timestampstorage_free [key_progs]: "key_kept k (mulle_aba_timestampstorage_free E a)"
  unfolding mulle_aba_timestampstorage_free_def mulle_aba_timestampstorage_empty_assert_def by (intro key_progs)

lemma key_set_usage_bit [key_progs]: "key_kept k (mulle_aba_timestampstorage_set_usage_bit E fuel a i b)"
proof (induction fuel)
  case (Suc fuel)
  show ?case unfolding mulle_aba_timestampstorage_set_usage_bit.simps Let_def by (intro key_progs Suc)
qed simp

lemma key_rotate [key_progs]: "key_kept k (mulle_aba_world_rotate_storage E th a)"
  unfolding mulle_aba_world_rotate_storage_def mulle_aba_world_pop_storage_def mulle_aba_world_push_storage_def Let_def
  by (intro key_progs)

lemma key_storage_at [key_progs]:
  "key_kept k (mulle_aba_world_get_timestampstorage_index E th a t)" "key_kept k (mulle_aba_world_get_timestampstorage_at_index E a i)"
  unfolding mulle_aba_world_get_timestampstorage_index_def mulle_aba_world_get_timestampstorage_at_index_def Let_def
  by (intro key_progs)+

lemma key_timestampentry [key_progs]:
  "key_kept k (mulle_aba_world_get_timestampstorage E th a t)" "key_kept k (mulle_aba_world_get_timestampentry E th a t)"
  unfolding mulle_aba_world_get_timestampentry_def mulle_aba_world_get_timestampstorage_def by (intro key_progs)+

lemma key_sanity [key_progs]: "key_kept k (mulle_aba_world_assert_sanity E th a)" "key_kept k (mulle_aba_world_copy a b)"
  unfolding mulle_aba_world_assert_sanity_def mulle_aba_world_copy_def by (intro key_progs)+

lemma key_reuse_loop [key_progs]: "key_kept k (reuse_loop E th a c x m i r)"
proof (induction m arbitrary: i r)
  case (Suc m)
  show ?case unfolding reuse_loop.simps by (intro key_progs Suc)
qed simp

lemma key_reuse [key_progs]:
  "key_kept k (mulle_aba_world_reuse_storages E th a)" "key_kept k (mulle_aba_world_count_available_reusable_storages E th a)"
  unfolding mulle_aba_world_reuse_storages_def mulle_aba_world_count_available_reusable_storages_def
    mulle_aba_world_reuse_or_count_storages_def by (intro key_progs)+

lemma key_freeentry [key_progs]:
  "key_kept k (mulle_aba_freeentry_set e f p w)" "key_kept k (mulle_aba_storage_alloc_freeentry E)"
  "key_kept k (mulle_aba_storage_free_freeentry E e)"
  unfolding mulle_aba_freeentry_set_def mulle_aba_storage_alloc_freeentry_def assert_entry_def mulle_aba_storage_free_freeentry_def
  by (intro key_progs)+

lemma key_alloc_world [key_progs]: "key_kept k (mulle_aba_storage_alloc_world E th fuel sz)"
proof (induction fuel)
  case (Suc fuel)
  show ?case unfolding mulle_aba_storage_alloc_world.simps by (intro key_progs Suc)
qed simp

lemma key_free_world [key_progs]:
  "key_kept k (mulle_aba_storage_free_world E a)" "key_kept k (mulle_aba_storage_owned_pointer_free_world E a p)"
  "key_kept k (mulle_aba_storage_add_leak_world E a)" "key_kept k mulle_aba_storage_free_leak_worlds"
  "key_kept k mulle_aba_storage_free_unused_worlds" "key_kept k mulle_aba_storage_free_unused_free_entries"
  unfolding mulle_aba_storage_free_world_def mulle_aba_storage_owned_pointer_free_world_def mulle_aba_storage_add_leak_world_def
    mulle_aba_storage_free_leak_worlds_def mulle_aba_storage_free_unused_worlds_def mulle_aba_storage_free_unused_free_entries_def
  by (intro key_progs)+

lemma key_call_free [key_progs]: "key_kept k (call_free E f p w)"
  by (cases f; simp only: call_free.simps mulle_aba_no_owner_free_def; intro key_progs)

lemma key_linkedlist_free [key_progs]: "key_kept k (mulle_aba_storage_linkedlist_free E xs)"
  unfolding mulle_aba_storage_linkedlist_free_def free_pointer_and_entry_def by (intro key_progs)

lemma key_check_timerange_loop [key_progs]: "key_kept k (check_timerange_loop E th fuel a t n)"
proof (induction fuel arbitrary: t)
  case (Suc fuel)
  show ?case unfolding check_timerange_loop.simps Let_def by (intro key_progs Suc)
qed simp

lemma key_check_timerange [key_progs]: "key_kept k (mulle_aba_world_check_timerange E th fuel a t n)"
  unfolding mulle_aba_world_check_timerange_def by (intro key_progs)

section \<open>Changes of the world pointer\<close>

lemma key_swap [key_progs]:
  "key_kept k (assert_swap_worlds E j a b)" "key_kept k (mulle_aba_worldpointer_make E a b)"
  "key_kept k (mulle_aba_worldpointers_make E a b)"
  unfolding assert_swap_worlds_def assert_valid_transition_def mulle_aba_worldpointer_make_def mulle_aba_worldpointers_make_def
  by (intro key_progs)+

lemma key_pairs [key_progs]:
  "key_kept k (mulle_aba_storage_swap_worlds E j a b)" "key_kept k (null_worldpointers E u)" "key_kept k (done_worldpointers E a b u)"
  unfolding mulle_aba_storage_swap_worlds_def null_worldpointers_def done_worldpointers_def by (intro key_progs)+

lemma key_try_set_lock_loop [key_progs]: "key_kept k (try_set_lock_loop E fuel w p b)"
proof (induction fuel arbitrary: p)
  case (Suc fuel)
  show ?case unfolding try_set_lock_loop.simps Let_def by (intro key_progs Suc)
qed simp

lemma key_try_lock [key_progs]:
  "key_kept k (mulle_aba_storage_try_lock_worldpointer E fuel p)" "key_kept k (mulle_aba_storage_try_unlock_worldpointer E fuel p)"
  unfolding mulle_aba_storage_try_lock_worldpointer_def mulle_aba_storage_try_unlock_worldpointer_def
    mulle_aba_storage_try_set_lock_worldpointer_def by (intro key_progs)+

lemma key_lock [key_progs]: "key_kept k (mulle_aba_storage_lock_worldpointer E fuel)"
proof (induction fuel)
  case (Suc fuel)
  show ?case unfolding mulle_aba_storage_lock_worldpointer.simps by (intro key_progs Suc)
qed simp

text \<open>The loops that install a changed world keep the key if their callback does.\<close>

lemma key_change [key_progs]:
  assumes "\<And>m i u. key_kept k (cb m i u)"
  shows "key_kept k (mulle_aba_storage_change_worldpointer E th fuel j p cb u)"
proof (induction fuel arbitrary: p u)
  case (Suc fuel)
  show ?case unfolding mulle_aba_storage_change_worldpointer.simps by (intro key_progs assms Suc)
qed simp

lemma key_copy_change_loop [key_progs]:
  assumes "\<And>m i u. key_kept k (cb m i u)"
  shows "key_kept k (copy_change_loop E th fuel j c i p cb u)"
proof (induction fuel arbitrary: c i p u)
  case (Suc fuel)
  show ?case unfolding copy_change_loop.simps Let_def by (intro key_progs assms Suc)
qed simp

lemma key_copy_lock_loop [key_progs]:
  assumes "\<And>m i u. key_kept k (cb m i u)"
  shows "key_kept k (copy_lock_loop E th fuel i cb u d)"
proof (induction fuel arbitrary: i u d)
  case (Suc fuel)
  show ?case unfolding copy_lock_loop.simps Let_def by (intro key_progs assms Suc)
qed simp

lemma key_grow_loop [key_progs]:
  assumes "\<And>m i u. key_kept k (cb m i u)"
  shows "key_kept k (grow_loop E th fuel n i cb u)"
proof (induction fuel arbitrary: i u)
  case (Suc fuel)
  show ?case unfolding grow_loop.simps Let_def by (intro key_progs assms Suc)
qed simp

lemma key_changes [key_progs]:
  assumes "\<And>m i u. key_kept k (cb m i u)"
  shows "key_kept k (mulle_aba_storage_copy_change_worldpointer E th fuel j p cb u)"
    "key_kept k (mulle_aba_storage_copy_lock_worldpointer E th fuel cb u)"
    "key_kept k (mulle_aba_storage_grow_worldpointer E th fuel n cb u)"
  unfolding mulle_aba_storage_copy_change_worldpointer_def mulle_aba_storage_copy_lock_worldpointer_def
    mulle_aba_storage_grow_worldpointer_def by (intro key_progs assms)+

lemma key_change_2 [key_progs]:
  assumes "\<And>m i u. key_kept k (cb m i u)"
  shows "key_kept k (mulle_aba_storage_change_worldpointer_2 E th fuel j p cb u)"
  unfolding mulle_aba_storage_change_worldpointer_2_def by (intro key_progs assms)

section \<open>Callbacks\<close>

lemma key_callbacks [key_progs]:
  "key_kept k (add_thread E m i u)" "key_kept k (set_bit m i u)" "key_kept k (remove_thread E m i c)"
  "key_kept k (handle_callback_mode_for_add_context E th m i x)"
  unfolding add_thread_def set_bit_def remove_thread_def handle_callback_mode_for_add_context_def assert_info_def
  by (intro key_progs)+

lemma key_checks [key_progs]:
  "key_kept k (pre_check_world_for_timestamp_increment E th i x)" "key_kept k (size_check_world_for_timestamp_increment E i)"
  "key_kept k (increment_world_timestamp E th fuel i)"
  unfolding pre_check_world_for_timestamp_increment_def size_check_world_for_timestamp_increment_def
    increment_world_timestamp_def assert_info_def by (intro key_progs)+

lemma key_increments [key_progs]:
  "key_kept k (increment_timestamp E th fuel m i x)" "key_kept k (add_storage_and_increment_timestamp E th fuel m i x)"
  "key_kept k (reorganize_storage_and_increment_timestamp E th fuel m i x)"
  unfolding increment_timestamp_def add_storage_and_increment_timestamp_def
    reorganize_storage_and_increment_timestamp_def assert_info_def by (intro key_progs)+

section \<open>The API\<close>

lemma key_registered [key_progs]: "key_kept k (assert_key E)" "key_kept k (mulle_aba_is_current_thread_registered E th)"
  unfolding mulle_aba_is_current_thread_registered_def assert_key_def by (intro key_progs)+

lemma key_free_worlds_delayed [key_progs]: "key_kept k (free_worlds_delayed E fuel e old)"
proof (induction fuel arbitrary: old)
  case (Suc fuel)
  show ?case unfolding free_worlds_delayed.simps by (intro key_progs Suc)
qed simp

lemma key_free_worlds_now [key_progs]: "key_kept k (free_worlds_now fuel old)"
proof (induction fuel arbitrary: old)
  case (Suc fuel)
  show ?case unfolding free_worlds_now.simps by (intro key_progs Suc)
qed simp

lemma key_free_steps [key_progs]:
  "key_kept k (free_change E th fuel p w e x)" "key_kept k (free_count E th ps old)"
  "key_kept k (free_put E th fuel f ptr owner a e' old)"
  unfolding free_change_def free_count_def free_put_def Let_def by (intro key_progs)+

lemma key_free_loop [key_progs]: "key_kept k (free_loop E th fuel f ptr owner p old x)"
proof (induction fuel arbitrary: p old x)
  case (Suc fuel)
  show ?case unfolding free_loop.simps Let_def by (intro key_progs Suc)
qed simp

lemma key_free [key_progs]: "key_kept k (mulle_aba_free_owned_pointer_p E th fuel f ptr owner)"
  unfolding mulle_aba_free_owned_pointer_p_def Let_def by (intro key_progs)

lemma key_free_world_chain [key_progs]: "key_kept k (free_world_chain E th fuel a)"
proof (induction fuel arbitrary: a)
  case (Suc fuel)
  show ?case unfolding free_world_chain.simps by (intro key_progs Suc)
qed simp

lemma key_free_world_if_needed [key_progs]: "key_kept k (free_world_if_needed E th fuel ps)"
  unfolding free_world_if_needed_def Let_def by (intro key_progs)

lemma key_register [key_progs]: "key_kept k (mulle_aba_register_current_thread E th fuel)"
  unfolding mulle_aba_register_current_thread_def Let_def by (intro key_progs)

lemma key_checkin [key_progs]: "key_kept k (mulle_aba_checkin_current_thread E th fuel)"
  unfolding mulle_aba_checkin_current_thread_def mulle_aba_check_timestamp_range_def Let_def by (intro key_progs)

lemma key_unregister_steps [key_progs]:
  "key_kept k (unregister_finish E th fuel ps p)" "key_kept k (unregister_checkin E th fuel t n p)"
  unfolding unregister_finish_def unregister_checkin_def Let_def by (intro key_progs)+

lemma key_unregister_loop [key_progs]: "key_kept k (unregister_loop E th fuel)"
proof (induction fuel)
  case (Suc fuel)
  show ?case unfolding unregister_loop.simps Let_def by (intro key_progs Suc)
qed simp

lemma key_unregister [key_progs]: "key_kept k (mulle_aba_unregister_current_thread E th fuel)"
  unfolding mulle_aba_unregister_current_thread_def by (intro key_progs)

end
