(* ===== verification/Aba_Refine.thy ===== *)
theory Aba_Refine
  imports Aba_Spec Aba_Key
begin

text \<open>
  The code implements the abstract specification: every API operation, called as it may be called
  and with enough fuel and memory, returns 0, keeps the invariant and takes the step the
  specification allows. The properties of \<open>deferred_free\<close> are then properties of the code.
\<close>

section \<open>API operations as steps\<close>

fun op_prog :: "ext \<Rightarrow> nat \<Rightarrow> api_op \<Rightarrow> (mem, int) prog" where
  "op_prog E fuel (Register th) = mulle_aba_register_current_thread E th fuel"
| "op_prog E fuel (Checkin th) = mulle_aba_checkin_current_thread E th fuel"
| "op_prog E fuel (Free th f ptr owner) = mulle_aba_free_owned_pointer_p E th fuel f ptr owner"
| "op_prog E fuel (Unregister th) = mulle_aba_unregister_current_thread E th fuel"

text \<open>How the client may call: a thread registers once, only registered threads free, pointers are not NULL and not
  the library's own world, and the function to free with is not NULL (\<open>fn_ok\<close>).\<close>

fun op_ok :: "mem \<Rightarrow> api_op \<Rightarrow> bool" where
  "op_ok s (Register th) \<longleftrightarrow> tss s th = 0 \<and> card (registered s) + 1 < 10000"
| "op_ok s (Checkin th) \<longleftrightarrow> True"
| "op_ok s (Free th f ptr owner) \<longleftrightarrow> tss s th \<noteq> 0 \<and> ptr \<noteq> 0 \<and> ptr \<noteq> get_struct (q_world (q s)) \<and> f \<noteq> Fn_owned_pointer_free_world
     \<and> fn_ok f owner"
| "op_ok s (Unregister th) \<longleftrightarrow> True"

definition cur :: "mem \<Rightarrow> world" where
  "cur s = the (worlds s (get_struct (q_world (q s))))"

definition abs_of :: "ext \<Rightarrow> mem \<Rightarrow> spec" where
  "abs_of E s = \<lparr>sp_threads = registered s, sp_pending = pending E s (cur s), sp_calls = trace s\<rparr>"

definition sound :: "ext \<Rightarrow> mem \<Rightarrow> bool" where
  "sound E s \<longleftrightarrow> inv E s (cur s) {#} \<and> keyed E s"

lemma soundD: "sound E s \<Longrightarrow> inv E s (cur s) {#}" "sound E s \<Longrightarrow> keyed E s"
  by (simp_all add: sound_def)

definition enough :: "ext \<Rightarrow> nat \<Rightarrow> mem \<Rightarrow> bool" where
  "enough E fuel s \<longleftrightarrow> ready E fuel 5 s (cur s) \<and> card (dom (worlds s)) < fuel"

definition api_step :: "ext \<Rightarrow> nat \<Rightarrow> mem \<Rightarrow> api_op \<Rightarrow> mem \<Rightarrow> bool" where
  "api_step E fuel s x t \<longleftrightarrow> op_ok s x \<and> enough E fuel s \<and> (\<exists>r. run (op_prog E fuel x) s = Ok r t)"

lemma cur_inv: "inv E s w X \<Longrightarrow> cur s = w"
  using invD(3) [of E s w X] by (simp add: cur_def)

lemma abs_of_sel [simp]: "sp_threads (abs_of E s) = registered s" "sp_calls (abs_of E s) = trace s"
  "sp_pending (abs_of E s) = pending E s (cur s)"
  by (simp_all add: abs_of_def)

lemma abs_eq:
  assumes "inv E t w X" "pending E t w = P" "registered t = R" "trace t = T"
  shows "abs_of E t = \<lparr>sp_threads = R, sp_pending = P, sp_calls = T\<rparr>"
  using assms cur_inv [OF assms(1)] by (simp add: abs_of_def)

lemma ready_mono: "ready E fuel k s w \<Longrightarrow> j \<le> k \<Longrightarrow> ready E fuel j s w"
  using room_mono [of E s k j] by (simp add: ready_def)

text \<open>Pending calls wait for registered threads.\<close>

lemma pending_waits:
  assumes "inv E s w X" "x \<in># pending E s w"
  shows "snd x \<noteq> {} \<and> snd x \<subseteq> registered s"
proof -
  obtain y where y: "y \<in># waiting E s w" "snd x = snd y"
    using assms(2) by (auto simp: pending_def set_mset_Union_mset)
  obtain t where "snd y = hold s w t" "snd y \<noteq> {}"
    by (rule waiting_holders [OF coreD(1) [OF invD(6) [OF assms(1)]] y(1)])
  then show ?thesis using y(2) hold_subset by metis
qed

lemma sound_spec_ok: "sound E s \<Longrightarrow> spec_ok (abs_of E s)"
  using pending_waits [of E s "cur s" "{#}"] soundD(1) [of E s] by (auto simp: spec_ok_def)

text \<open>No operation of a thread changes the key.\<close>

lemma op_key: "key_kept k (op_prog E fuel x)"
  by (cases x; simp only: op_prog.simps; intro key_progs)

lemma op_keyed: "run (op_prog E fuel x) s = Ok r t \<Longrightarrow> keyed E s \<Longrightarrow> keyed E t"
  using keeps_run [OF op_key [of "tss_key s" E fuel x], of s r t] keyed_cong by blast

section \<open>Each operation\<close>

lemma op_register:
  assumes "inv E s w {#}" "ready E fuel 5 s w" "op_ok s (Register th)" "keyed E s"
  shows "\<exists>t. run (op_prog E fuel (Register th)) s = Ok 0 t \<and> sound E t \<and> grew 5 s w t (cur t)
    \<and> spec_step (abs_of E s) (Register th) (abs_of E t)"
proof -
  obtain t w' where t: "run (mulle_aba_register_current_thread E th fuel) s = Ok 0 t" "inv E t w' {#}"
    "pending E t w' = pending E s w" "trace t = trace s" "registered t = insert th (registered s)" "grew 5 s w t w'"
    by (rule run_register [OF assms(1,2), of th]) (use assms(3,4) in simp_all)
  have "spec_step (abs_of E s) (Register th) (abs_of E t)"
    unfolding abs_eq [OF assms(1) refl refl refl] abs_eq [OF t(2,3,5,4)] by (rule spec_register)
  then show ?thesis using t cur_inv [OF t(2)] op_keyed [of E fuel "Register th"] assms(4) by (auto simp: sound_def)
qed

lemma quiet_step:
  assumes "inv E t w' {#}" "strip th P = pending E t w' + image_mset (\<lambda>c. (c, {})) (mset cs)" "trace t = T @ cs"
  shows "quiet th P T (pending E t w') (trace t)"
  by (rule quietI [OF assms(2) _ assms(3)]) (use pending_waits [OF assms(1)] in blast)

lemma op_checkin:
  assumes "inv E s w {#}" "ready E fuel 5 s w" "keyed E s"
  shows "\<exists>t. run (op_prog E fuel (Checkin th)) s = Ok 0 t \<and> sound E t \<and> grew 5 s w t (cur t)
    \<and> spec_step (abs_of E s) (Checkin th) (abs_of E t)"
proof -
  have rd: "ready E fuel 0 s w" by (rule ready_mono [OF assms(2)]) simp
  have u: "unat (w_timestamp w + 1) = unat (w_timestamp w) + 1" by (rule unat_plus_1) (use readyD(5) [OF rd] in simp)
  then have nz: "w_timestamp w + 1 \<noteq> 0" by (metis unat_0 add_is_0 one_neq_zero)
  obtain t cs where t: "run (mulle_aba_checkin_current_thread E th fuel) s = Ok 0 t" "inv E t w {#}"
    "strip th (pending E s w) = pending E t w + image_mset (\<lambda>c. (c, {})) (mset cs)" "trace t = trace s @ cs"
    "tss t = (tss s)(th := if tss s th = 0 then 0 else w_timestamp w + 1)" "same_blocks s t"
    by (rule run_checkin [OF assms(1) rd, of th])
  have r: "registered t = registered s" using t(5) nz by (auto simp: registered_def)
  have "spec_step (abs_of E s) (Checkin th) (abs_of E t)"
    unfolding abs_eq [OF assms(1) refl refl refl] abs_eq [OF t(2) refl r refl]
    by (rule spec_checkin [OF quiet_step [OF t(2,3,4)]])
  moreover have "grew 5 s w t w" using same_blocks_live [OF t(6)] by (simp add: grew_def blocks_def)
  ultimately show ?thesis using t cur_inv [OF t(2)] op_keyed [of E fuel "Checkin th"] assms(3) by (auto simp: sound_def)
qed

lemma op_free:
  assumes "inv E s w {#}" "ready E fuel 5 s w" "op_ok s (Free th f ptr owner)" "keyed E s"
  shows "\<exists>t. run (op_prog E fuel (Free th f ptr owner)) s = Ok 0 t \<and> sound E t \<and> grew 5 s w t (cur t)
    \<and> spec_step (abs_of E s) (Free th f ptr owner) (abs_of E t)"
proof -
  have rd: "ready E fuel 4 s w" by (rule ready_mono [OF assms(2)]) simp
  obtain t w' where t: "run (mulle_aba_free_owned_pointer_p E th fuel f ptr owner) s = Ok 0 t" "inv E t w' {#}" "tss t = tss s"
    "pending E t w' = pending E s w + (if card (registered s) \<le> 1 then {#}
       else image_mset (\<lambda>c. (c, registered s)) (mset (due f ptr owner)))"
    "trace t = trace s @ (if card (registered s) \<le> 1 then due f ptr owner else [])" "grew 4 s w t w'"
    by (rule run_free_p [OF assms(1) rd, of th ptr "{#}" f owner]) (use assms(3,4) in \<open>simp_all add: registered_def handed_def\<close>)
  have r: "registered t = registered s" using t(3) by (simp add: registered_def)
  have "spec_step (abs_of E s) (Free th f ptr owner) (abs_of E t)"
    unfolding abs_eq [OF assms(1) refl refl refl] abs_eq [OF t(2,4) r t(5)]
    by (cases "card (registered s) \<le> 1") (use spec_free_now spec_free_later in auto)
  moreover have "grew 5 s w t w'" using t(6) by (simp add: grew_def)
  ultimately show ?thesis using t cur_inv [OF t(2)] op_keyed [of E fuel "Free th f ptr owner"] assms(4) by (auto simp: sound_def)
qed

lemma op_unregister:
  assumes "inv E s w {#}" "ready E fuel 5 s w" "card (dom (worlds s)) < fuel" "keyed E s"
  shows "\<exists>t. run (op_prog E fuel (Unregister th)) s = Ok 0 t \<and> sound E t \<and> grew 5 s w t (cur t)
    \<and> spec_step (abs_of E s) (Unregister th) (abs_of E t)"
proof -
  have rd: "ready E fuel 1 s w" by (rule ready_mono [OF assms(2)]) simp
  obtain t w' cs where t: "grew 1 s w t w'" "run (mulle_aba_unregister_current_thread E th fuel) s = Ok 0 t" "inv E t w' {#}"
    "strip th (pending E s w) = pending E t w' + image_mset (\<lambda>c. (c, {})) (mset cs)" "trace t = trace s @ cs"
    "tss t = (tss s)(th := 0)"
    by (rule run_unregister [OF assms(1) rd assms(3,4), of th])
  have r: "registered t = registered s - {th}" using t(6) by (auto simp: registered_def)
  have "spec_step (abs_of E s) (Unregister th) (abs_of E t)"
    unfolding abs_eq [OF assms(1) refl refl refl] abs_eq [OF t(3) refl r refl]
    by (rule spec_unregister [OF quiet_step [OF t(3,4,5)]])
  moreover have "grew 5 s w t w'" using t(1) by (simp add: grew_def)
  ultimately show ?thesis using t cur_inv [OF t(3)] op_keyed [of E fuel "Unregister th"] assms(4) by (auto simp: sound_def)
qed

lemma op_refines:
  assumes "sound E s" "enough E fuel s" "op_ok s x"
  obtains t where "run (op_prog E fuel x) s = Ok 0 t" "sound E t" "grew 5 s (cur s) t (cur t)"
    "spec_step (abs_of E s) x (abs_of E t)"
proof -
  have i: "inv E s (cur s) {#}" "ready E fuel 5 s (cur s)" "card (dom (worlds s)) < fuel" "keyed E s"
    using assms by (simp_all add: sound_def enough_def)
  have "\<exists>t. run (op_prog E fuel x) s = Ok 0 t \<and> sound E t \<and> grew 5 s (cur s) t (cur t) \<and> spec_step (abs_of E s) x (abs_of E t)"
    using op_register [OF i(1,2) _ i(4)] op_checkin [OF i(1,2,4)] op_free [OF i(1,2) _ i(4)] op_unregister [OF i] assms(3)
    by (cases x) blast+
  then show ?thesis using that by blast
qed

section \<open>The code provides the interface\<close>

lemma api_step_refines:
  assumes "sound E s" "api_step E fuel s x t"
  shows "sound E t \<and> spec_step (abs_of E s) x (abs_of E t)"
proof -
  obtain r where r: "op_ok s x" "enough E fuel s" "run (op_prog E fuel x) s = Ok r t" using assms(2) by (auto simp: api_step_def)
  obtain u where "run (op_prog E fuel x) s = Ok 0 u" "sound E u" "spec_step (abs_of E s) x (abs_of E u)"
    by (rule op_refines [OF assms(1) r(2,1)])
  then show ?thesis using r(3) by simp
qed

interpretation aba: deferred_free "api_step E fuel" "sound E" "abs_of E" for E fuel
  by unfold_locales (use api_step_refines sound_spec_ok in blast)+

end

