(* ===== verification/Aba_Guarantees.thy ===== *)
theory Aba_Guarantees
  imports Aba_Refine
begin

text \<open>
  What a client of the library can rely on, stated for every sequence of API calls from \<open>mulle_aba_init_p\<close>
  on: the calls succeed, a pointer is freed exactly when every thread registered at the time it was
  handed over has checked in, exactly once, and nothing is left allocated at the end.
\<close>

section \<open>Starting\<close>

definition startable :: "ext \<Rightarrow> mem \<Rightarrow> uptr \<Rightarrow> bool" where
  "startable E s allocator \<longleftrightarrow> ext_ok E \<and> blank s \<and> allocator \<noteq> 0 \<and> (tss_key s = 0 \<or> ndebug E) \<and> x_tss_key E \<noteq> None
     \<and> x_tss_key E \<noteq> Some (- 1) \<and> 1 \<le> x_capacity E \<and> trace s = []"

lemma started:
  assumes "startable E s0 allocator"
  obtains s where "run (mulle_aba_init_p E th allocator) s0 = Ok 0 s" "sound E s" "blocks s = 1"
    "cur s = new_world_of (initial_size E)" "abs_of E s = \<lparr>sp_threads = {}, sp_pending = {#}, sp_calls = []\<rparr>"
proof -
  have a: "ext_ok E" "blank s0" "allocator \<noteq> 0" "tss_key s0 = 0 \<or> ndebug E" "trace s0 = []" "x_tss_key E \<noteq> None"
    using assms by (simp_all add: startable_def)
  have r: "room E s0 1" using assms blocks_blank [OF a(2)] by (simp add: startable_def room_def)
  obtain k where k: "x_tss_key E = Some k" using a(6) by blast
  obtain s where s: "run (mulle_aba_init_p E th allocator) s0 = Ok 0 s" "inv E s (new_world_of (initial_size E)) {#}"
    "pending E s (new_world_of (initial_size E)) = {#}" "trace s = trace s0" "tss s = (\<lambda>_. 0)" "blocks s = 1" "tss_key s = k"
    by (rule run_init_p [OF a(1-4) k r])
  have "registered s = {}" using s(5) by (simp add: registered_def)
  moreover have "k \<noteq> - 1" using assms k by (auto simp: startable_def)
  ultimately show ?thesis using s a(5) cur_inv [OF s(2)] by (intro that [of s]) (simp_all add: sound_def keyed_def abs_of_def)
qed

lemma startable_sample: "startable sample_ext sample_mem 4"
  using ext_ok_sample by (simp add: startable_def blank_def) (simp add: sample_mem_def sample_ext_def)

section \<open>Resources\<close>

text \<open>Enough memory, fuel and timestamps for \<open>N\<close> more calls.\<close>

definition budget :: "ext \<Rightarrow> nat \<Rightarrow> nat \<Rightarrow> mem \<Rightarrow> bool" where
  "budget E fuel N s \<longleftrightarrow> ext_ok E \<and> room E s (5 * N) \<and> unat (w_timestamp (cur s)) + N < 2 ^ 62
     \<and> (unat (w_size (cur s)) + N) * n_entries E < 2 ^ 32
     \<and> (\<exists>F. weak_bound E F \<and> F + (unat (w_size (cur s)) + N) * n_entries E + (blocks s + 5 * N) + 5 \<le> fuel)"

lemma worlds_le_blocks: "card (dom (worlds s)) \<le> blocks s"
  unfolding blocks_def by (rule card_mono) (auto simp: live_def)

lemma budget_enough:
  assumes "sound E s" "budget E fuel (Suc N) s"
  shows "enough E fuel s"
proof -
  let ?w = "cur s"
  note i = soundD(1) [OF assms(1)]
  note l = layoutD [OF coreD(1) [OF invD(6) [OF i]]]
  have b: "ext_ok E" "room E s (5 * Suc N)" "unat (w_timestamp ?w) + Suc N < 2 ^ 62"
    "(unat (w_size ?w) + Suc N) * n_entries E < 2 ^ 32" using assms(2) by (simp_all add: budget_def)
  obtain F where F: "weak_bound E F" "F + (unat (w_size ?w) + Suc N) * n_entries E + (blocks s + 5 * Suc N) + 5 \<le> fuel"
    using assms(2) by (auto simp: budget_def)
  have "unat (w_n ?w) \<le> unat (w_size ?w) + Suc N" using l(9) by (simp add: wf_shape_def)
  then have n: "unat (w_n ?w) * n_entries E \<le> (unat (w_size ?w) + Suc N) * n_entries E" by (rule mult_le_mono1)
  have c: "length (q_free_worlds (q s)) \<le> card (dom (worlds s))" "card (dom (worlds s)) \<le> blocks s"
    using cached_le [OF invD(8) [OF i]] worlds_le_blocks by blast+
  have "F + unat (w_n ?w) * n_entries E + length (q_free_worlds (q s)) + 4 \<le> fuel" using F(2) n c by linarith
  moreover have "(unat (w_size ?w) + 1) * n_entries E < 2 ^ 32"
    by (rule le_less_trans [OF mult_le_mono1 b(4)]) simp
  moreover have "room E s 5" using b(2) by (simp add: room_def)
  moreover have "unat (w_timestamp ?w) < 2 ^ 62" using b(3) by simp
  ultimately have "ready E fuel 5 s ?w" using b(1) F(1) unfolding ready_def by blast
  moreover have "card (dom (worlds s)) < fuel" using F(2) c(2) by linarith
  ultimately show ?thesis by (simp add: enough_def)
qed

lemma budget_step:
  assumes "budget E fuel (Suc N) s" "grew 5 s (cur s) t (cur t)"
  shows "budget E fuel N t"
proof -
  have b: "ext_ok E" "room E s (5 * Suc N)" "unat (w_timestamp (cur s)) + Suc N < 2 ^ 62"
    "(unat (w_size (cur s)) + Suc N) * n_entries E < 2 ^ 32" using assms(1) by (simp_all add: budget_def)
  obtain F where F: "weak_bound E F" "F + (unat (w_size (cur s)) + Suc N) * n_entries E + (blocks s + 5 * Suc N) + 5 \<le> fuel"
    using assms(1) by (auto simp: budget_def)
  have g: "blocks t \<le> blocks s + 5" "unat (w_timestamp (cur t)) \<le> unat (w_timestamp (cur s)) + 1"
    "unat (w_size (cur t)) \<le> unat (w_size (cur s)) + 1" using assms(2) by (simp_all add: grew_def)
  have m: "(unat (w_size (cur t)) + N) * n_entries E \<le> (unat (w_size (cur s)) + Suc N) * n_entries E"
    by (rule mult_le_mono1) (use g(3) in simp)
  have "F + B + (blocks t + 5 * N) + 5 \<le> fuel" if "F + A + (blocks s + 5 * Suc N) + 5 \<le> fuel" "B \<le> A" for A B
    using that g(1) unfolding mult_Suc_right by linarith
  from this [OF F(2) m] have "F + (unat (w_size (cur t)) + N) * n_entries E + (blocks t + 5 * N) + 5 \<le> fuel" .
  moreover have "room E t (5 * N)" using b(2) g(1) by (simp add: room_def)
  moreover have "unat (w_timestamp (cur t)) + N < 2 ^ 62" using b(3) g(2) by linarith
  moreover have "(unat (w_size (cur t)) + N) * n_entries E < 2 ^ 32" by (rule le_less_trans [OF m b(4)])
  ultimately show ?thesis unfolding budget_def using b(1) F(1) by blast
qed

lemma budget_mono: "budget E fuel N s \<Longrightarrow> M \<le> N \<Longrightarrow> budget E fuel M s"
proof -
  assume a: "budget E fuel N s" "M \<le> N"
  have m: "(unat (w_size (cur s)) + M) * n_entries E \<le> (unat (w_size (cur s)) + N) * n_entries E"
    by (rule mult_le_mono1) (use a(2) in simp)
  obtain F where F: "weak_bound E F" "F + (unat (w_size (cur s)) + N) * n_entries E + (blocks s + 5 * N) + 5 \<le> fuel"
    using a(1) by (auto simp: budget_def)
  have "F + B + (blocks s + 5 * M) + 5 \<le> fuel" if "F + A + (blocks s + 5 * N) + 5 \<le> fuel" "B \<le> A" for A B
    using that a(2) by linarith
  from this [OF F(2) m] have "F + (unat (w_size (cur s)) + M) * n_entries E + (blocks s + 5 * M) + 5 \<le> fuel" .
  moreover have "(unat (w_size (cur s)) + M) * n_entries E < 2 ^ 32"
    by (rule le_less_trans [OF m]) (use a(1) in \<open>simp add: budget_def\<close>)
  ultimately show ?thesis using a F(1) unfolding budget_def room_def by (intro conjI exI [of _ F]) simp_all
qed

text \<open>A call within the budget succeeds.\<close>

lemma api_step_progress:
  assumes "sound E s" "budget E fuel (Suc N) s" "op_ok s x"
  shows "\<exists>t. run (op_prog E fuel x) s = Ok 0 t \<and> api_step E fuel s x t \<and> sound E t \<and> budget E fuel N t"
proof -
  note e = budget_enough [OF assms(1,2)]
  obtain t where "run (op_prog E fuel x) s = Ok 0 t" "sound E t" "grew 5 s (cur s) t (cur t)"
    by (rule op_refines [OF assms(1) e assms(3)])
  then show ?thesis using e assms(3) budget_step [OF assms(2)] by (auto simp: api_step_def)
qed

lemma api_step_grew:
  assumes "sound E s" "api_step E fuel s x t"
  shows "grew 5 s (cur s) t (cur t)"
proof -
  obtain r where r: "op_ok s x" "enough E fuel s" "run (op_prog E fuel x) s = Ok r t" using assms(2) by (auto simp: api_step_def)
  obtain u where "run (op_prog E fuel x) s = Ok 0 u" "grew 5 s (cur s) u (cur u)"
    by (rule op_refines [OF assms(1) r(2,1)])
  then show ?thesis using r(3) by simp
qed

interpretation aba: budgeted_free "api_step E fuel" "sound E" "abs_of E" op_ok "budget E fuel" for E fuel
proof unfold_locales
  fix s n x assume "sound E s" "budget E fuel (Suc n) s" "op_ok s x"
  then show "\<exists>t. api_step E fuel s x t" using api_step_progress by blast
next
  fix s n x t assume "sound E s" "budget E fuel (Suc n) s" "api_step E fuel s x t"
  then show "budget E fuel n t" using budget_step api_step_grew by blast
qed

text \<open>The resources \<open>N\<close> calls need from the start.\<close>

definition affords :: "ext \<Rightarrow> nat \<Rightarrow> nat \<Rightarrow> bool" where
  "affords E fuel N \<longleftrightarrow> 1 + 5 * N \<le> x_capacity E \<and> N < 2 ^ 62 \<and> (unat (initial_size E) + N) * n_entries E < 2 ^ 32
     \<and> (\<exists>F. weak_bound E F \<and> F + (unat (initial_size E) + N) * n_entries E + 5 * N + 6 \<le> fuel)"

lemma affords_budget:
  assumes "affords E fuel N" "ext_ok E" "blocks s = 1" "cur s = new_world_of (initial_size E)"
  shows "budget E fuel N s"
proof -
  obtain F where "weak_bound E F" "F + (unat (initial_size E) + N) * n_entries E + (1 + 5 * N) + 5 \<le> fuel"
    using assms(1) by (auto simp: affords_def)
  with assms show ?thesis unfolding budget_def room_def by (intro conjI exI [of _ F]) (simp_all add: affords_def)
qed

lemma affords_sample: "affords sample_ext 100 8"
  using weak_bound_sample [of 1]
  by (auto simp: affords_def n_entries_def initial_size_def intro!: exI [of _ 1]) (simp_all add: sample_ext_def)

text \<open>Call sequences that are in order for every placement of blocks: the pointers have a low bit set, so they are
  not the addresses of worlds.\<close>

fun used_well :: "tid set \<Rightarrow> api_op list \<Rightarrow> bool" where
  "used_well R [] \<longleftrightarrow> True"
| "used_well R (x # ops) \<longleftrightarrow> (case x of Register th \<Rightarrow> th \<notin> R \<and> card R + 1 < 10000
     | Free th f ptr owner \<Rightarrow> th \<in> R \<and> \<not> aligned ptr \<and> f \<noteq> Fn_owned_pointer_free_world \<and> fn_ok f owner
     | _ \<Rightarrow> True) \<and> used_well (op_threads x R) ops"

lemma used_well_split: "used_well R (xs @ x # ys) \<Longrightarrow> used_well (threads xs R) (x # ys)"
  by (induction xs arbitrary: R) auto

lemma used_well_runs:
  assumes "sound E s" "budget E fuel (length ops) s" "used_well (registered s) ops"
  shows "\<exists>t. runs (api_step E fuel) s ops t"
proof (rule aba.legal_runs [OF assms(1,2)])
  fix xs x ys t assume x: "ops = xs @ x # ys" "runs (api_step E fuel) s xs t"
  have "registered t = threads xs (registered s)" using aba.runs_threads [OF x(2) assms(1)] by simp
  then have "used_well (registered t) (x # ys)" using used_well_split assms(3) x(1) by metis
  then show "op_ok t x" by (cases x) (auto simp: registered_def)
qed

text \<open>A run in the sample environment.\<close>

lemma sample_runs:
  assumes "used_well {} ops" "length ops \<le> 8"
  obtains s t where "run (mulle_aba_init_p sample_ext 0 4) sample_mem = Ok 0 s" "runs (api_step sample_ext 100) s ops t"
    "sound sample_ext s" "sound sample_ext t" "budget sample_ext 100 (8 - length ops) t" "registered t = threads ops {}"
proof -
  obtain s where s: "run (mulle_aba_init_p sample_ext 0 4) sample_mem = Ok 0 s" "sound sample_ext s" "blocks s = 1"
    "cur s = new_world_of (initial_size sample_ext)" "abs_of sample_ext s = \<lparr>sp_threads = {}, sp_pending = {#}, sp_calls = []\<rparr>"
    by (rule started [OF startable_sample])
  have r: "registered s = {}" using arg_cong [OF s(5), of sp_threads] by simp
  have b: "budget sample_ext 100 8 s" by (rule affords_budget [OF affords_sample ext_ok_sample s(3,4)])
  then have "budget sample_ext 100 (length ops) s" using assms(2) by (rule budget_mono)
  then obtain t where t: "runs (api_step sample_ext 100) s ops t" using used_well_runs [OF s(2)] assms(1) r by metis
  have "budget sample_ext 100 (8 - length ops + length ops) s" using b assms(2) by simp
  from aba.runs_budget [OF t s(2) this] aba.runs_threads [OF t s(2)] s(1,2) t r show ?thesis by (intro that [of s t]) simp_all
qed

section \<open>Properties\<close>

text \<open>C1: A pointer handed to \<open>_mulle_aba_free_owned_pointer\<close> is safe from the other threads and is not leaked: in any run of
  API calls from initialisation on, its free function has been called if and only if at most one thread was registered when it
  was handed over, or every thread registered then has checked in or unregistered since; and it is never called twice.\<close>

theorem freed_exactly_when_all_checked_in:
  assumes "startable E s0 allocator" "run (mulle_aba_init_p E th0 allocator) s0 = Ok r s"
    and "runs (api_step E fuel) s (ops @ Free th f ptr owner # ops') t"
    and "due f ptr owner = [c]" "c \<notin> set (freed ops)" "c \<notin> set (freed ops')"
  shows "(c \<in> set (trace t) \<longleftrightarrow> card (threads ops {}) \<le> 1 \<or> threads ops {} \<subseteq> quiesced ops') \<and> count (mset (trace t)) c \<le> 1"
proof -
  obtain s' where "run (mulle_aba_init_p E th0 allocator) s0 = Ok 0 s'" "sound E s'"
    "abs_of E s' = \<lparr>sp_threads = {}, sp_pending = {#}, sp_calls = []\<rparr>"
    by (rule started [OF assms(1)])
  then have s: "sound E s" "abs_of E s = \<lparr>sp_threads = {}, sp_pending = {#}, sp_calls = []\<rparr>" using assms(2) by simp_all
  obtain u where u: "runs (api_step E fuel) s ops u" "runs (api_step E fuel) u (Free th f ptr owner # ops') t"
    using runs_append [OF assms(3)] by blast
  then obtain v where v: "api_step E fuel u (Free th f ptr owner) v" "runs (api_step E fuel) v ops' t" by (auto elim: runs_ConsE)
  have th: "sp_threads (abs_of E u) = threads ops {}" using aba.runs_threads [OF u(1) s(1)] s(2) by simp
  have "c \<notin># mset (sp_calls (abs_of E s)) + image_mset fst (sp_pending (abs_of E s))" unfolding s(2) by simp
  note f = aba.freed_iff_quiesced [OF s(1) u(1) v assms(4) this assms(5,6), unfolded th]
  then show ?thesis by simp
qed

theorem freed_exactly_when_all_checked_in_witness:
  "\<exists>s t u. run (mulle_aba_init_p sample_ext 0 4) sample_mem = Ok 0 s
    \<and> runs (api_step sample_ext 100) s ([Register 1, Register 2] @ Free 1 (Fn_client 7) 1 5 # [Checkin 1]) t
    \<and> runs (api_step sample_ext 100) s ([Register 1, Register 2] @ Free 1 (Fn_client 7) 1 5 # [Checkin 1, Unregister 2]) u
    \<and> Call2 7 1 5 \<notin> set (trace t) \<and> Call2 7 1 5 \<in> set (trace u)"
proof -
  have na: "\<not> aligned 1" by (simp add: aligned_def)
  obtain s t where t: "run (mulle_aba_init_p sample_ext 0 4) sample_mem = Ok 0 s"
    "runs (api_step sample_ext 100) s ([Register 1, Register 2] @ Free 1 (Fn_client 7) 1 5 # [Checkin 1]) t"
    by (rule sample_runs [of "[Register 1, Register 2] @ Free 1 (Fn_client 7) 1 5 # [Checkin 1]"]) (use na in simp_all)
  obtain s' u where u: "run (mulle_aba_init_p sample_ext 0 4) sample_mem = Ok 0 s'"
    "runs (api_step sample_ext 100) s' ([Register 1, Register 2] @ Free 1 (Fn_client 7) 1 5 # [Checkin 1, Unregister 2]) u"
    by (rule sample_runs [of "[Register 1, Register 2] @ Free 1 (Fn_client 7) 1 5 # [Checkin 1, Unregister 2]"]) (use na in simp_all)
  have "Call2 7 1 5 \<notin> set (trace t)"
    using freed_exactly_when_all_checked_in [OF startable_sample t, of "Call2 7 1 5"] by simp
  moreover have "Call2 7 1 5 \<in> set (trace u)"
    using freed_exactly_when_all_checked_in [OF startable_sample u, of "Call2 7 1 5"] by auto
  ultimately show ?thesis using t u by auto
qed

text \<open>C8: Every API call, made as it may be made, succeeds: from an initialisation that got a valid thread key on, with memory,
  fuel and timestamps for \<open>N\<close> calls, none of the first \<open>N\<close> calls runs out of fuel, fails an assert (those on the thread key
  and on the free function among them) or returns an error. A call is made as it may be made if a thread registers once, with fewer
  than 10000 registered, and frees only while registered, a pointer that is neither NULL nor the world, with a function that is not NULL. (The fuel
  bounds the rounds of every retry loop; so all loops of the code end.)\<close>

theorem api_never_fails:
  assumes "startable E s0 allocator" "run (mulle_aba_init_p E th0 allocator) s0 = Ok r s" "affords E fuel N"
    and "runs (api_step E fuel) s ops t" "length ops < N" "op_ok t x"
  shows "r = 0 \<and> (\<exists>u. run (op_prog E fuel x) t = Ok 0 u \<and> api_step E fuel t x u)"
proof -
  obtain s' where s': "run (mulle_aba_init_p E th0 allocator) s0 = Ok 0 s'" "sound E s'" "blocks s' = 1"
    "cur s' = new_world_of (initial_size E)"
    by (rule started [OF assms(1)])
  then have r: "r = 0" "s' = s" using assms(2) by simp_all
  note s = s'(2-4) [unfolded r]
  have "ext_ok E" using assms(1) by (simp add: startable_def)
  from affords_budget [OF assms(3) this s(2,3)] have b: "budget E fuel N s" .
  obtain u where u: "api_step E fuel t x u" using aba.never_stuck [OF assms(4) s(1) b assms(5,6)] by blast
  then have "enough E fuel t" by (simp add: api_step_def)
  with op_refines [OF aba.runs_ok [OF assms(4) s(1)] _ assms(6)] obtain v where "run (op_prog E fuel x) t = Ok 0 v" by metis
  with u r show ?thesis by (auto simp: api_step_def)
qed

theorem api_never_fails_witness:
  "\<exists>s t u. run (mulle_aba_init_p sample_ext 0 4) sample_mem = Ok 0 s \<and> runs (api_step sample_ext 100) s [Register 1, Register 2] t
    \<and> run (op_prog sample_ext 100 (Checkin 1)) t = Ok 0 u"
proof -
  obtain s t where t: "run (mulle_aba_init_p sample_ext 0 4) sample_mem = Ok 0 s"
    "runs (api_step sample_ext 100) s [Register 1, Register 2] t"
    by (rule sample_runs [of "[Register 1, Register 2]"]) simp_all
  have "length [Register 1, Register 2] < 8" "op_ok t (Checkin 1)" by simp_all
  from api_never_fails [OF startable_sample t(1) affords_sample t(2) this] t show ?thesis by blast
qed

text \<open>C2: The code implements the abstract specification: registering, checking in, freeing and unregistering return 0,
  keep the invariant, and change the registered threads, the pending calls with the threads they wait for, and the calls
  made, as \<open>spec_step\<close> allows.\<close>

theorem api_refines_spec:
  assumes "sound E s" "enough E fuel s" "op_ok s x"
  shows "\<exists>t. run (op_prog E fuel x) s = Ok 0 t \<and> sound E t \<and> spec_step (abs_of E s) x (abs_of E t)"
  using op_refines [OF assms] by metis

theorem api_refines_spec_witness:
  "\<exists>s t. run (op_prog sample_ext 100 (Free 2 (Fn_client 7) 1 5)) s = Ok 0 t
    \<and> spec_step (abs_of sample_ext s) (Free 2 (Fn_client 7) 1 5) (abs_of sample_ext t) \<and> registered s = {1, 2}"
proof -
  obtain s0 s where s: "runs (api_step sample_ext 100) s0 [Register 1, Register 2] s" "sound sample_ext s"
    "budget sample_ext 100 (8 - length [Register 1, Register 2]) s" "registered s = threads [Register 1, Register 2] {}"
    by (rule sample_runs [of "[Register 1, Register 2]"]) simp_all
  have "budget sample_ext 100 (Suc 0) s" by (rule budget_mono [OF s(3)]) simp
  note e = budget_enough [OF s(2) this]
  have r: "registered s = {1, 2}" using s(4) by auto
  then have "2 \<in> registered s" by simp
  then have "op_ok s (Free 2 (Fn_client 7) 1 5)"
    by (auto simp: registered_def dest!: arg_cong [of _ _ aligned]) (simp add: aligned_def)
  from api_refines_spec [OF s(2) e this] r show ?thesis by blast
qed

text \<open>C9: No call is lost and none is made twice: at any time the calls made and the calls still pending are together the
  calls asked for, each as often as it was asked for.\<close>

theorem calls_made_or_pending:
  assumes "startable E s0 allocator" "run (mulle_aba_init_p E th0 allocator) s0 = Ok r s" "runs (api_step E fuel) s ops t"
  shows "mset (trace t) + image_mset fst (pending E t (cur t)) = mset (freed ops)"
proof -
  obtain s' where "run (mulle_aba_init_p E th0 allocator) s0 = Ok 0 s'" "sound E s'"
    "abs_of E s' = \<lparr>sp_threads = {}, sp_pending = {#}, sp_calls = []\<rparr>"
    by (rule started [OF assms(1)])
  then have s: "sound E s" "abs_of E s = \<lparr>sp_threads = {}, sp_pending = {#}, sp_calls = []\<rparr>" using assms(2) by simp_all
  have "trace s = []" "pending E s (cur s) = {#}"
    using arg_cong [OF s(2), of sp_calls] arg_cong [OF s(2), of sp_pending] by simp_all
  then show ?thesis using aba.runs_calls [OF assms(3) s(1)] by simp
qed

theorem calls_made_or_pending_witness:
  "\<exists>s t. runs (api_step sample_ext 100) s [Register 1, Register 2, Free 1 (Fn_client 7) 1 5] t
    \<and> mset (trace t) + image_mset fst (pending sample_ext t (cur t)) = {#Call2 7 1 5#}"
proof -
  let ?ops = "[Register 1, Register 2, Free 1 (Fn_client 7) 1 5]"
  obtain s t where t: "run (mulle_aba_init_p sample_ext 0 4) sample_mem = Ok 0 s" "runs (api_step sample_ext 100) s ?ops t"
    by (rule sample_runs [of ?ops]) (simp_all add: aligned_def)
  from calls_made_or_pending [OF startable_sample t] t show ?thesis by auto
qed

text \<open>C7: Nothing leaks: when every thread has unregistered, every call asked for has been made, exactly as often as it was
  asked for, and teardown gives every world, timestamp storage and free entry back to the allocator.\<close>

theorem lifecycle_leaks_nothing:
  assumes "startable E s0 allocator" "run (mulle_aba_init_p E th0 allocator) s0 = Ok r s" "runs (api_step E fuel) s ops t"
    and "threads ops {} = {}"
  shows "\<exists>u. run (mulle_aba_done_p E) t = Ok () u \<and> blank u \<and> q u = empty_storage \<and> mset (trace u) = mset (freed ops)"
proof -
  obtain s' where "run (mulle_aba_init_p E th0 allocator) s0 = Ok 0 s'" "sound E s'"
    "abs_of E s' = \<lparr>sp_threads = {}, sp_pending = {#}, sp_calls = []\<rparr>"
    by (rule started [OF assms(1)])
  then have s: "sound E s" "abs_of E s = \<lparr>sp_threads = {}, sp_pending = {#}, sp_calls = []\<rparr>" using assms(2) by simp_all
  have c: "mset (trace t) = mset (freed ops)"
    using aba.all_called [OF s(1) assms(3), unfolded s(2)] assms(4) by simp
  have t: "inv E t (cur t) {#}" using aba.runs_ok [OF assms(3) s(1)] by (simp add: sound_def)
  have rg: "registered t = {}" using aba.runs_threads [OF assms(3) s(1)] s(2) assms(4) by simp
  have "ext_ok E" using assms(1) by (simp add: startable_def)
  then obtain u where "run (mulle_aba_done_p E) t = Ok () u" "blank u" "trace u = trace t" "q u = empty_storage"
    by (rule run_done_p [OF t _ rg])
  then show ?thesis using c by (intro exI [of _ u]) simp
qed

theorem lifecycle_leaks_nothing_witness:
  "\<exists>s t u. run (mulle_aba_init_p sample_ext 0 4) sample_mem = Ok 0 s
    \<and> runs (api_step sample_ext 100) s [Register 1, Register 2, Free 1 (Fn_client 7) 1 5, Unregister 1, Unregister 2] t
    \<and> run (mulle_aba_done_p sample_ext) t = Ok () u \<and> blank u \<and> mset (trace u) = {#Call2 7 1 5#}"
proof -
  let ?ops = "[Register 1, Register 2, Free 1 (Fn_client 7) 1 5, Unregister 1, Unregister 2]"
  obtain s t where t: "run (mulle_aba_init_p sample_ext 0 4) sample_mem = Ok 0 s" "runs (api_step sample_ext 100) s ?ops t"
    by (rule sample_runs [of ?ops]) (simp_all add: aligned_def)
  have "threads ?ops {} = {}" by auto
  from lifecycle_leaks_nothing [OF startable_sample t this] t show ?thesis by auto
qed

text \<open>C13: The last thread that unregisters frees what has been retained: all pending calls are made, and all timestamp
  storages, free entries and leaked worlds go back to the allocator.\<close>

theorem last_thread_cleans_up:
  assumes "sound E s" "enough E fuel s" "registered s = {th}"
  shows "\<exists>t. run (mulle_aba_unregister_current_thread E th fuel) s = Ok 0 t
    \<and> stores t = (\<lambda>_. None) \<and> entries t = (\<lambda>_. None) \<and> q_leaks (q t) = [] \<and> registered t = {} \<and> pending E t (cur t) = {#}
    \<and> mset (trace t) = mset (trace s) + image_mset fst (pending E s (cur s))"
proof -
  let ?w = "cur s"
  have i: "inv E s ?w {#}" "ready E fuel 5 s ?w" "card (dom (worlds s)) < fuel" "keyed E s"
    using assms(1,2) by (simp_all add: sound_def enough_def)
  have rd: "ready E fuel 1 s ?w" by (rule ready_mono [OF i(2)]) simp
  obtain t w' cs where t: "run (mulle_aba_unregister_current_thread E th fuel) s = Ok 0 t" "inv E t w' {#}"
    "strip th (pending E s ?w) = pending E t w' + image_mset (\<lambda>c. (c, {})) (mset cs)" "trace t = trace s @ cs"
    "tss t = (tss s)(th := 0)" "registered s = {th} \<longrightarrow> stores t = (\<lambda>_. None) \<and> entries t = (\<lambda>_. None) \<and> q_leaks (q t) = []"
    by (rule run_unregister [OF i(1) rd i(3,4), of th])
  have rt: "registered t = {}" using t(5) assms(3) by (auto simp: registered_def)
  have p: "pending E t w' = {#}"
    using idle_waiting(1) [OF t(2) rt] by (simp add: pending_def)
  have "image_mset fst (strip th (pending E s ?w)) = image_mset fst (pending E s ?w)"
    by (simp add: strip_def image_mset.compositionality comp_def split_beta)
  then have "mset cs = image_mset fst (pending E s ?w)"
    using t(3) p by (simp add: image_mset.compositionality comp_def)
  then show ?thesis
    using t rt p assms(3) cur_inv [OF t(2)]
    by (intro exI [of _ t]) simp
qed

theorem last_thread_cleans_up_witness:
  "\<exists>s t. run (mulle_aba_unregister_current_thread sample_ext 1 100) s = Ok 0 t \<and> stores t = (\<lambda>_. None) \<and> registered s = {1}"
proof -
  obtain s0 s where s: "runs (api_step sample_ext 100) s0 [Register 1] s" "sound sample_ext s"
    "budget sample_ext 100 (8 - length [Register 1]) s" "registered s = threads [Register 1] {}"
    by (rule sample_runs [of "[Register 1]"]) simp_all
  have "budget sample_ext 100 (Suc 0) s" by (rule budget_mono [OF s(3)]) simp
  note e = budget_enough [OF s(2) this]
  have r: "registered s = {1}" using s(4) by auto
  from last_thread_cleans_up [OF s(2) e r] r show ?thesis by blast
qed

end
