(* ===== verification/Aba_Reachable.thy ===== *)
theory Aba_Reachable
  imports Aba_Guarantees
begin

text \<open>
  Properties of every state API calls can reach: the world, the counts and entries of its timestamps, the
  reuse of its storages, locking; of single operations; and of calls that are not in order.
\<close>

section \<open>Reachable states\<close>

definition reachable :: "ext \<Rightarrow> nat \<Rightarrow> mem \<Rightarrow> bool" where
  "reachable E fuel t \<longleftrightarrow> (\<exists>s0 allocator th r s ops. startable E s0 allocator
     \<and> run (mulle_aba_init_p E th allocator) s0 = Ok r s \<and> runs (api_step E fuel) s ops t)"

lemma reachable_sound: "reachable E fuel t \<Longrightarrow> sound E t"
proof -
  assume "reachable E fuel t"
  then obtain s0 allocator th r s ops where a: "startable E s0 allocator" "run (mulle_aba_init_p E th allocator) s0 = Ok r s"
    "runs (api_step E fuel) s ops t" by (auto simp: reachable_def)
  obtain s' where "run (mulle_aba_init_p E th allocator) s0 = Ok 0 s'" "sound E s'" by (rule started [OF a(1)])
  then show ?thesis using a(2) aba.runs_ok [OF a(3)] by simp
qed

lemma reachable_inv: "reachable E fuel t \<Longrightarrow> inv E t (cur t) {#}"
  using reachable_sound by (simp add: sound_def)

lemma reachable_sample:
  assumes "used_well {} ops" "length ops \<le> 8"
  obtains t where "reachable sample_ext 100 t" "registered t = threads ops {}" "budget sample_ext 100 (8 - length ops) t"
proof -
  obtain s t where "run (mulle_aba_init_p sample_ext 0 4) sample_mem = Ok 0 s" "runs (api_step sample_ext 100) s ops t"
    "registered t = threads ops {}" "budget sample_ext 100 (8 - length ops) t" by (rule sample_runs [OF assms])
  moreover from this have "reachable sample_ext 100 t" unfolding reachable_def using startable_sample by blast
  ultimately show ?thesis by (intro that)
qed

text \<open>C11: In every reachable state the world pointer is unlocked and points to a well-formed world: its storages are the
  allocated ones, each once, packed at the front of the array, and its number of threads is the number of registered
  threads.\<close>

theorem reachable_world_well_formed:
  assumes "reachable E fuel t"
  shows "get_lock (q_world (q t)) = 0 \<and> worlds t (get_struct (q_world (q t))) = Some (cur t) \<and> wf_world E (cur t)
    \<and> distinct (storages (cur t)) \<and> set (storages (cur t)) = dom (stores t)
    \<and> unat (w_n_threads (cur t)) = card (registered t) \<and> w_link (cur t) = 0"
proof -
  note i = invD [OF reachable_inv [OF assms]]
  note l = layoutD [OF coreD(1) [OF i(6)]]
  show ?thesis using i l by simp
qed

theorem reachable_world_well_formed_witness:
  "\<exists>t. reachable sample_ext 100 t \<and> wf_world sample_ext (cur t) \<and> unat (w_n_threads (cur t)) = 2"
proof -
  obtain t where t: "reachable sample_ext 100 t" "registered t = threads [Register 1, Register 2] {}"
    by (rule reachable_sample [of "[Register 1, Register 2]"]) simp_all
  have "card (registered t) = 2" using t(2) by simp
  with reachable_world_well_formed [OF t(1)] t(1) show ?thesis by auto
qed

text \<open>C12: In every reachable state the timestamp a registered thread has to check in from lies in the window of the world: not
  before its offset and at most one past its timestamp. If it is not past it, it has an entry in a storage that is
  allocated, so the reference the thread gives up at its next check-in exists.\<close>

theorem registered_timestamps_in_window:
  assumes "reachable E fuel t" "tss t th \<noteq> 0"
  shows "unat (w_offset (cur t)) \<le> unat (tss t th) \<and> unat (tss t th) \<le> unat (w_timestamp (cur t)) + 1
    \<and> (tss t th \<le> w_timestamp (cur t) \<longrightarrow> (\<exists>x j ts. slot E (cur t) (tss t th) = Some (x, j) \<and> x \<noteq> 0
        \<and> stores t x = Some ts \<and> j < length (ts_entries ts)))"
proof -
  note i = invD [OF reachable_inv [OF assms(1)]]
  note l = layoutD [OF coreD(1) [OF i(6)]]
  have th: "th \<in> registered t" using assms(2) by (simp add: registered_def)
  have L: "layout E (with_tss t th (tss t th)) (cur t)" using coreD(1) [OF i(6)] by (simp add: with_tss_same)
  have "\<exists>x j ts. slot E (cur t) (tss t th) = Some (x, j) \<and> x \<noteq> 0 \<and> stores t x = Some ts \<and> j < length (ts_entries ts)"
    if "tss t th \<le> w_timestamp (cur t)"
  proof -
    have "unat (tss t th) \<le> unat (w_timestamp (cur t))" using that by (simp add: word_le_nat_alt)
    from held_slot [OF L assms(2) this] obtain y where
      "stores t (stor E (cur t) (unat (tss t th))) = Some y" "length (ts_entries y) = n_entries E"
      "slot E (cur t) (tss t th) = Some (stor E (cur t) (unat (tss t th)), unat (tss t th) mod n_entries E)"
      "stor E (cur t) (unat (tss t th)) \<noteq> 0" by blast
    then show ?thesis by simp
  qed
  with l(10) [OF th] show ?thesis by blast
qed

theorem registered_timestamps_in_window_witness:
  "\<exists>t. reachable sample_ext 100 t \<and> tss t 1 \<noteq> 0 \<and> unat (tss t 1) \<le> unat (w_timestamp (cur t)) + 1"
proof -
  obtain t where t: "reachable sample_ext 100 t" "registered t = threads [Register 1] {}"
    by (rule reachable_sample [of "[Register 1]"]) simp_all
  then have "1 \<in> registered t" by simp
  then have "tss t 1 \<noteq> 0" by (simp add: registered_def)
  from registered_timestamps_in_window [OF t(1) this] t(1) this show ?thesis by blast
qed

text \<open>C10: In every reachable state the reference count of every timestamp of the window is the number of threads that have not
  yet checked in to it, less one as it is stored; a timestamp is marked used exactly if some thread has not, and otherwise has no pointers
  waiting.\<close>

theorem reference_counts_exact:
  assumes "reachable E fuel s" "in_window E (cur s) t"
  shows "retain_count_1 (entry_at E (stores s) (cur s) t) = word_of_nat (card (hold s (cur s) t)) - 1
    \<and> (bit_at E (stores s) (cur s) t \<longleftrightarrow> hold s (cur s) t \<noteq> {})
    \<and> (hold s (cur s) t = {} \<longrightarrow> pointer_list (entry_at E (stores s) (cur s) t) = [])"
  using slots_ok_entry [OF layoutD(8) [OF coreD(1) [OF invD(6) [OF reachable_inv [OF assms(1)]]]] assms(2)]
  by (simp add: entry_ok_def)

lemma hold_in_window:
  assumes "layout E s w" "hold s w t \<noteq> {}"
  shows "in_window E w t"
proof -
  note l = layoutD [OF assms(1)]
  obtain th where th: "th \<in> registered s" "unat (tss s th) \<le> t" "t \<le> unat (w_timestamp w)"
    using assms(2) by (auto simp: hold_def registered_def split: if_splits)
  then have "0 < unat (tss s th)" by (simp add: registered_def unat_gt_0)
  then have "0 < unat (w_timestamp w)" using th by linarith
  then have "w_timestamp w \<noteq> 0" by (simp add: unat_gt_0)
  then have "unat (w_timestamp w) < window_hi E w" using l(1) by (simp add: wf_world_def window_hi_def)
  then show ?thesis using l(10) [OF th(1)] th(2,3) by (simp add: in_window_def)
qed

text \<open>Two threads are registered and a pointer waits for both.\<close>

lemma sample_waiting:
  obtains s where "reachable sample_ext 100 s" "pending sample_ext s (cur s) \<noteq> {#}" "registered s = {1, 2}"
    "enough sample_ext 100 s"
proof -
  let ?ops = "[Register 1, Register 2]" and ?x = "Free 1 (Fn_client 7) 1 5"
  obtain s0 s where s: "run (mulle_aba_init_p sample_ext 0 4) sample_mem = Ok 0 s0" "sound sample_ext s0"
    "runs (api_step sample_ext 100) s0 (?ops @ [?x]) s"
    "sound sample_ext s" "budget sample_ext 100 (8 - length (?ops @ [?x])) s"
    by (rule sample_runs [of "?ops @ [?x]"]) (simp_all add: aligned_def)
  have r: "sp_threads (abs_of sample_ext s0) = {}"
    using s(1) started [OF startable_sample, of 0] by (metis outcome.inject(1) spec.select_convs(1))
  obtain t where tr: "runs (api_step sample_ext 100) s0 ?ops t" "runs (api_step sample_ext 100) t [?x] s"
    using runs_append [OF s(3)] by blast
  from tr(2) have "api_step sample_ext 100 t ?x s" by (auto elim: runs_ConsE runs_NilE)
  note t = tr(1) this
  have ok: "sound sample_ext t" by (rule aba.runs_ok [OF t(1) s(2)])
  have th: "sp_threads (abs_of sample_ext t) = {1, 2}" using aba.runs_threads [OF t(1) s(2)] r by auto
  have st: "spec_step (abs_of sample_ext t) ?x (abs_of sample_ext s)" using aba.refines [OF ok t(2)] by blast
  have "sp_pending b \<noteq> {#}" if "spec_step a ?x b" "sp_threads a = {1, 2}" for a b
    using that by (auto elim!: spec_FreeE)
  from this [OF st th] have "sp_pending (abs_of sample_ext s) \<noteq> {#}" .
  moreover have "registered s = {1, 2}" using aba.step_threads [OF ok t(2)] th by simp
  moreover have "reachable sample_ext 100 s" unfolding reachable_def using startable_sample s(1,3) by blast
  moreover have "enough sample_ext 100 s" by (rule budget_enough [OF s(4) budget_mono [OF s(5), of "Suc 0"]]) simp
  ultimately show ?thesis by (intro that) simp_all
qed

theorem reference_counts_exact_witness:
  "\<exists>s t. reachable sample_ext 100 s \<and> hold s (cur s) t \<noteq> {} \<and> bit_at sample_ext (stores s) (cur s) t"
proof -
  obtain s where s: "reachable sample_ext 100 s" "pending sample_ext s (cur s) \<noteq> {#}" by (rule sample_waiting)
  note L = coreD(1) [OF invD(6) [OF reachable_inv [OF s(1)]]]
  have "waiting sample_ext s (cur s) \<noteq> {#}" using s(2) by (auto simp: pending_def)
  then obtain x where x: "x \<in># waiting sample_ext s (cur s)" by blast
  obtain t where "snd x = hold s (cur s) t" "snd x \<noteq> {}" by (rule waiting_holders [OF L x])
  then have h: "hold s (cur s) t \<noteq> {}" by simp
  from reference_counts_exact [OF s(1) hold_in_window [OF L h]] s(1) h show ?thesis by blast
qed

section \<open>Entries\<close>

text \<open>Slot and index determine a timestamp of the window.\<close>

lemma slot_inj:
  assumes "wf_shape E w" "distinct (storages w)" "slot E w t = Some e" "slot E w t' = Some e"
  shows "t = t'"
proof -
  let ?n = "unat (w_n w)" and ?d = "\<lambda>t. unat t - unat (w_offset w)"
  have c: "covers E w t" "covers E w t'" using assms(3,4) by (auto simp: slot_def split: if_splits)
  then have i: "slot_index E w t < ?n" "slot_index E w t' < ?n" and o': "w_offset w \<le> t" "w_offset w \<le> t'"
    by (auto simp: covers_def)
  have len: "?n \<le> length (w_storage w)" using assms(1) by (auto simp: wf_shape_def)
  have off: "unat (w_offset w) mod n_entries E = 0" using assms(1) by (simp add: wf_shape_def)
  have "w_storage w ! slot_index E w t = w_storage w ! slot_index E w t'"
    and m: "unat t mod n_entries E = unat t' mod n_entries E"
    using assms(3,4) c by (auto simp: slot_def)
  then have "slot_index E w t = slot_index E w t'"
    using nth_eq_iff_index_eq [OF assms(2), of "slot_index E w t" "slot_index E w t'"] i len by (simp add: storages_def)
  then have d: "?d t div n_entries E = ?d t' div n_entries E" by (simp add: slot_index_def)
  have le: "unat (w_offset w) \<le> unat t" "unat (w_offset w) \<le> unat t'" using o' by (simp_all add: word_le_nat_alt)
  have "?d t mod n_entries E = unat t mod n_entries E" "?d t' mod n_entries E = unat t' mod n_entries E"
    using off le by (metis le_add_diff_inverse mod_add_left_eq add_0)+
  with d m have "?d t = ?d t'" by (metis div_mult_mod_eq)
  with le have "unat t = unat t'" by linarith
  then show ?thesis by (simp add: word_unat_eq_iff)
qed

text \<open>C26: In every reachable state, looking up a timestamp of the window gives an entry of an allocated timestamp storage,
  and the lookups of two timestamps give the same entry only if the timestamps are the same: no list of delayed
  pointers and no reference count is shared.\<close>

theorem timestamps_have_own_entries:
  assumes "reachable E fuel s" "covers E (cur s) t" "covers E (cur s) t'"
  shows "\<exists>e e'. run (mulle_aba_world_get_timestampentry E th (get_struct (q_world (q s))) t) s = Ok (Some e) s
    \<and> run (mulle_aba_world_get_timestampentry E th (get_struct (q_world (q s))) t') s = Ok (Some e') s
    \<and> (e = e' \<longleftrightarrow> t = t') \<and> (\<exists>ts. stores s (fst e) = Some ts \<and> snd e < length (ts_entries ts))"
proof -
  note i = invD [OF reachable_inv [OF assms(1)]]
  note l = layoutD [OF coreD(1) [OF i(6)]]
  obtain e e' where e: "slot E (cur s) t = Some e" "slot E (cur s) t' = Some e'" using assms(2,3) by (auto simp: slot_def)
  have "slot_index E (cur s) t < unat (w_n (cur s))" using assms(2) by (simp add: covers_def)
  then have "store_shape E (stores s (fst e))"
    using e(1) assms(2) l(8) by (auto simp: slot_def slots_ok_def)
  then have "\<exists>ts. stores s (fst e) = Some ts \<and> snd e < length (ts_entries ts)"
    using e(1) assms(2) by (auto simp: store_shape_def slot_def)
  moreover have "e = e' \<longleftrightarrow> t = t'"
  proof
    assume "e = e'"
    then have "slot E (cur s) t' = Some e" using e(2) by simp
    then show "t = t'" by (rule slot_inj [OF l(9,6) e(1)])
  next
    assume "t = t'"
    then show "e = e'" using e by simp
  qed
  ultimately show ?thesis
    using run_get_timestampentry_covered [OF i(1,3) l(9) assms(2), of th] run_get_timestampentry_covered [OF i(1,3) l(9) assms(3), of th] e
    by auto
qed

theorem timestamps_have_own_entries_witness:
  "\<exists>s t e. reachable sample_ext 100 s \<and> run (mulle_aba_world_get_timestampentry sample_ext 0 (get_struct (q_world (q s))) t) s = Ok (Some e) s"
proof -
  obtain s where s: "reachable sample_ext 100 s" "pending sample_ext s (cur s) \<noteq> {#}" by (rule sample_waiting)
  note L = coreD(1) [OF invD(6) [OF reachable_inv [OF s(1)]]]
  have "w_timestamp (cur s) \<noteq> 0"
  proof
    assume "w_timestamp (cur s) = 0"
    then have "w_n (cur s) = 0" using coreD(2) [OF invD(6) [OF reachable_inv [OF s(1)]]] by simp
    then have "waiting sample_ext s (cur s) = {#}" by (simp add: waiting_def pend_def window_hi_def)
    then show False using s(2) by (simp add: pending_def)
  qed
  note c = wf_world_covers [OF layoutD(1) [OF L] this]
  from timestamps_have_own_entries [OF s(1) c c, of 0] s(1) show ?thesis by blast
qed

section \<open>Reuse of storages\<close>

text \<open>C18: Reusing storages where the code does it: the world, or its copy at \<open>a\<close>, is that of a reachable state, all its slots
  are in use and the next timestamp lies past its window. Although the loop tests the slot at its index while it rotates slot
  0, it only ever rotates storages in which no entry is in use, at least one if there is one besides the current
  timestamp's, never all; it returns their number; every timestamp of a storage that stays keeps its entry. Reachability is
  needed: it makes the unused storages come first, and where they do not the loop can rotate one that is in use
  (lemma \<open>reuse_needs_prefix\<close>).\<close>

theorem reuse_storages_spec:
  assumes "reachable E fuel s" "a \<noteq> 0" "worlds z a = Some (cur s)" "stores z = stores s"
    and "w_n (cur s) = w_size (cur s)" "\<not> covers E (cur s) (w_timestamp (cur s) + 1)" "unat (w_timestamp (cur s)) < 2 ^ 62"
  shows "\<exists>r v. run (mulle_aba_world_reuse_storages E th a) z
        = Ok (word_of_nat r) (z\<lparr>worlds := (worlds z)(a \<mapsto> v)\<rparr>)
    \<and> (\<forall>i < r. \<exists>ts. stores s (w_storage (cur s) ! i) = Some ts \<and> usage_bits ts = 0) \<and> r < unat (w_n (cur s))
    \<and> ((\<exists>i ts. Suc i < unat (w_n (cur s)) \<and> stores s (w_storage (cur s) ! i) = Some ts \<and> usage_bits ts = 0) \<longrightarrow> 0 < r)
    \<and> window_invar E v \<and> unat (w_offset v) = unat (w_offset (cur s)) + r * n_entries E
    \<and> w_timestamp v = w_timestamp (cur s) \<and> w_n v = w_n (cur s) \<and> w_n_threads v = w_n_threads (cur s)
    \<and> (\<forall>t. unat (w_offset (cur s)) + r * n_entries E \<le> t \<and> t < window_hi E (cur s)
        \<longrightarrow> window_look E v t = window_look E (cur s) t)"
proof -
  let ?w = "cur s"
  note i = invD [OF reachable_inv [OF assms(1)]]
  note l = coreD(1) [OF i(6)]
  obtain f where f: "reuse_pre E s ?w f"
    by (rule reuse_ready [OF l full_nonzero [OF i(6) assms(5)] assms(5-7)])
  have same: "unused z = unused s" by (simp add: unused_def fun_eq_iff assms(4))
  then have "reuse_pre E z ?w f" using f assms(4) by (simp add: reuse_pre_def at_end_def stores_mapped_def free_prefix_def)
  then obtain r where r: "run (mulle_aba_world_reuse_storages E th a) z
      = Ok (word_of_nat r) (z\<lparr>worlds := (worlds z)(a \<mapsto> (rotate_world E ^^ r) ?w)\<rparr>)"
    "r \<le> f" "r < unat (w_n ?w)" "0 < f \<and> 1 < unat (w_n ?w) \<Longrightarrow> 0 < r"
    using run_reuse_storages [OF assms(2,3)] by blast
  have h: "window_invar E ?w" "free_prefix s ?w f" "window_hi E ?w + unat (w_n ?w) * n_entries E < 2 ^ 63"
    using f unfolding reuse_pre_def at_end_def by blast+
  have "r * n_entries E \<le> unat (w_n ?w) * n_entries E" using r(3) by simp
  with h(3) have le: "window_hi E ?w + r * n_entries E \<le> 2 ^ 63 - 1" by linarith
  have un: "unused s x \<longleftrightarrow> (\<exists>ts. stores s x = Some ts \<and> usage_bits ts = 0)" for x
    by (auto simp: unused_def split: option.splits)
  have "\<forall>i < r. unused s (w_storage ?w ! i)" using h(2) r(2,3) by (simp add: free_prefix_def)
  moreover have "0 < r" if "Suc i < unat (w_n ?w)" "unused s (w_storage ?w ! i)" for i
  proof -
    have "i < f" using h(2) that by (simp add: free_prefix_def)
    then show ?thesis using r(4) that(1) by linarith
  qed
  ultimately show ?thesis
    using r(1,3) win.rotates [OF h(1) le] win.rotates_look [OF h(1) le] unfolding un
    by (intro exI [of _ r] exI [of _ "(rotate_world E ^^ r) ?w"]) auto
qed

text \<open>A full world whose next timestamp lies past its window: the world in which the first timestamp was opened is one.\<close>

definition at_edge :: "ext \<Rightarrow> world \<Rightarrow> bool" where
  "at_edge E w \<longleftrightarrow> w_n w = w_size w \<and> \<not> covers E w (w_timestamp w + 1) \<and> unat (w_timestamp w) < 2 ^ 62"

lemma at_edge_first:
  assumes "core E t w" "unat (w_size w) = 1" "unat (w_timestamp w) \<le> 1" "n_entries E = 2" "w_n w \<noteq> 0"
  shows "at_edge E w"
proof -
  have wf: "wf_world E w" by (rule layoutD(1) [OF coreD(1) [OF assms(1)]])
  have nz: "w_timestamp w \<noteq> 0" using coreD(2) [OF assms(1)] assms(5) by blast
  then have ts: "unat (w_timestamp w) = 1" using assms(3) unat_gt_0 [of "w_timestamp w"] by simp
  have "unat (w_offset w) \<le> 1" "unat (w_offset w) mod 2 = 0"
    using wf assms(4) nz ts by (auto simp: wf_world_def wf_shape_def word_le_nat_alt)
  then have off: "unat (w_offset w) = 0" by (cases "unat (w_offset w) = 1") auto
  have "unat (w_n w) \<le> 1" using wf assms(2) by (simp add: wf_world_def wf_shape_def)
  then have n: "unat (w_n w) = 1" using assms(5) unat_gt_0 [of "w_n w"] by simp
  then have "w_n w = w_size w" using assms(2) by (simp add: word_unat_eq_iff)
  moreover have "unat (w_timestamp w + 1) = 2" using ts by (subst unat_plus_1) simp_all
  ultimately show ?thesis using ts off n assms(2,4) by (simp add: at_edge_def covers_iff)
qed

lemma runs_at_edge:
  assumes "runs (api_step E fuel) s ops t" "sound E s" "unat (w_size (cur s)) = 1" "w_n (cur s) = 0" "n_entries E = 2"
  shows "w_n (cur t) = 0 \<or> (\<exists>u ops'. runs (api_step E fuel) s ops' u \<and> at_edge E (cur u))"
  using assms
proof (induction rule: runs.induct)
  case (runs_Cons s x t ops u)
  have ok: "sound E t" using aba.refines [OF runs_Cons.prems(1) runs_Cons.hyps(1)] by blast
  note c = invD(6) [OF soundD(1) [OF runs_Cons.prems(1)]] invD(6) [OF soundD(1) [OF ok]]
  note g = api_step_grew [OF runs_Cons.prems(1) runs_Cons.hyps(1)]
  have "w_timestamp (cur s) = 0"
    using layoutD(1) [OF coreD(1) [OF c(1)]] runs_Cons.prems(3) by (auto simp: wf_world_def word_le_nat_alt)
  then have ts: "unat (w_timestamp (cur t)) \<le> 1" using g by (simp add: grew_def)
  have sz: "unat (w_size (cur t)) = 1"
    using g runs_Cons.prems(2,3) by (simp add: grew_def word_less_nat_alt)
  show ?case
  proof (cases "w_n (cur t) = 0")
    case True
    from runs_Cons.IH [OF ok sz True runs_Cons.prems(4)] runs_Cons.hyps(1) show ?thesis
      by (blast intro: runs.runs_Cons)
  next
    case False
    have "runs (api_step E fuel) s [x] t" using runs_Cons.hyps(1) by (blast intro: runs.intros)
    with at_edge_first [OF c(2) sz ts runs_Cons.prems(4) False] show ?thesis by blast
  qed
qed simp

lemma waiting_has_storage:
  "pending E s (cur s) \<noteq> {#} \<Longrightarrow> w_n (cur s) \<noteq> 0"
  by (auto simp: pending_def waiting_def pend_def window_hi_def)

lemma sample_at_edge:
  obtains s where "reachable sample_ext 100 s" "at_edge sample_ext (cur s)"
proof -
  have n: "n_entries sample_ext = 2" "unat (initial_size sample_ext) = 1"
    by (simp_all add: n_entries_def initial_size_def sample_ext_def)
  obtain s where s: "reachable sample_ext 100 s" "pending sample_ext s (cur s) \<noteq> {#}" by (rule sample_waiting)
  then obtain s0 allocator th r s1 ops where a: "startable sample_ext s0 allocator"
    "run (mulle_aba_init_p sample_ext th allocator) s0 = Ok r s1" "runs (api_step sample_ext 100) s1 ops s"
    by (auto simp: reachable_def)
  have s1: "sound sample_ext s1" "cur s1 = new_world_of (initial_size sample_ext)"
    using started [OF a(1), of th] a(2) by auto
  have "w_n (cur s) \<noteq> 0" using s(2) by (rule waiting_has_storage)
  then obtain u ops' where u: "runs (api_step sample_ext 100) s1 ops' u" "at_edge sample_ext (cur u)"
    using runs_at_edge [OF a(3) s1(1)] s1(2) n by auto
  have "reachable sample_ext 100 u" unfolding reachable_def using a(1,2) u(1) by blast
  then show ?thesis using u(2) by (rule that)
qed

theorem reuse_storages_spec_witness:
  "\<exists>s r z. reachable sample_ext 100 s \<and> w_n (cur s) = w_size (cur s)
    \<and> run (mulle_aba_world_reuse_storages sample_ext 1 (get_struct (q_world (q s)))) s = Ok r z"
proof -
  obtain s where s: "reachable sample_ext 100 s" "at_edge sample_ext (cur s)" by (rule sample_at_edge)
  note i = invD [OF reachable_inv [OF s(1)]]
  have e: "w_n (cur s) = w_size (cur s)" "\<not> covers sample_ext (cur s) (w_timestamp (cur s) + 1)" "unat (w_timestamp (cur s)) < 2 ^ 62"
    using s(2) by (simp_all add: at_edge_def)
  from reuse_storages_spec [OF s(1) i(1,3) refl e, of 1] s(1) e(1) show ?thesis by blast
qed

section \<open>Locking\<close>

text \<open>The asserts at the unlocking of a world pointer that was locked in a state of the invariant.\<close>

lemma unlock_ready:
  assumes "inv E s w X" "p = q_world (q s)"
  shows "swap_ready E Swap_unlock (set_q_world (set_lock p 1) s) p (set_lock p 1)"
proof -
  note i = invD [OF assms(1), folded assms(2)]
  note l = layoutD [OF coreD(1) [OF i(6)]]
  have n: "unat (w_n_threads w) < 10000" using l(4,5) by simp
  note b = less_10000 [OF n]
  have one: "1 <s w_n_threads w \<longleftrightarrow> 1 < unat (w_n_threads w)" using sless_unat [of 1, OF _ b(1)] by simp
  have z: "w_n_threads w = 0 \<longleftrightarrow> unat (w_n_threads w) = 0" by (simp add: unat_eq_zero)
  have bit: "get_bit' p = 0 \<or> get_bit' p = 1" using get_bit_cases by blast
  have st: "valid_transition (mulle_aba_worldpointer_state p w) (mulle_aba_worldpointer_state (set_lock p 1) w) Swap_unlock"
    using bit i(2,4) l(1) unfolding worldpointer_state one good_state_def
    by (auto simp: valid_transition_def wf_world_def z)
  have ok: "swap_worlds_ok E Swap_unlock p (set_lock p 1) w w"
    using b(2) l(2) by (simp add: swap_worlds_ok_def)
  have "p \<noteq> set_lock p 1" using i(2) by (metis get_lock_set_lock zero_neq_one)
  then show ?thesis unfolding swap_ready_def using i(1,3) st ok by simp
qed

text \<open>C32: In every state of the invariant, undisturbed, locking the world pointer and unlocking it again is the identity on
  memory: no assert fails, neither that of the state graph nor those on the worlds. While it is locked, a second attempt to
  lock it returns NULL and changes nothing; when it is not, so does an attempt to unlock it.\<close>

theorem lock_unlock_roundtrip:
  assumes "sound E s" "0 < fuel" "p = q_world (q s)"
  shows "\<exists>l t. run (mulle_aba_storage_try_lock_worldpointer E fuel p) s = Ok l t \<and> l = set_lock p 1
    \<and> t = set_q_world l s \<and> t \<noteq> s
    \<and> run (mulle_aba_storage_try_lock_worldpointer E fuel l) t = Ok 0 t
    \<and> run (mulle_aba_storage_try_unlock_worldpointer E fuel l) t = Ok p s
    \<and> run (mulle_aba_storage_try_unlock_worldpointer E fuel p) s = Ok 0 s"
proof -
  note i = invD [OF soundD(1) [OF assms(1)], folded assms(3)]
  have p: "p \<noteq> 0" using i(1) by auto
  obtain f where f: "fuel = Suc f" using assms(2) by (cases fuel) auto
  have "set_lock (set_lock p 1) 0 = p" using set_lock_same [of p] i(2) by simp
  moreover have "set_q_world p (set_q_world (set_lock p 1) s) = s"
    using set_q_world_same [of s] by (simp add: assms(3))
  moreover have l: "get_lock (set_lock p 1) = 1" by simp
  moreover have "set_q_world (set_lock p 1) s \<noteq> s"
  proof
    assume "set_q_world (set_lock p 1) s = s"
    then have "q_world (q (set_q_world (set_lock p 1) s)) = p" by (simp add: assms(3))
    then show False using i(2) l by simp
  qed
  moreover have "run (mulle_aba_storage_try_unlock_worldpointer E fuel p) s = Ok 0 s"
    using i(2) by (simp add: f mulle_aba_storage_try_unlock_worldpointer_def
        mulle_aba_storage_try_set_lock_worldpointer_def Let_def)
  ultimately show ?thesis
    using run_try_lock [OF p i(2) assms(3) [symmetric] assms(2), of E] run_try_lock_locked [OF l assms(2)]
      run_try_unlock [OF l _ assms(2) , of "set_q_world (set_lock p 1) s" E] unlock_ready [OF soundD(1) [OF assms(1)] assms(3)]
    by simp
qed

theorem lock_unlock_roundtrip_witness:
  "\<exists>s l t. registered s = {1, 2} \<and> run (mulle_aba_storage_try_lock_worldpointer sample_ext 1 (q_world (q s))) s = Ok l t
    \<and> run (mulle_aba_storage_try_unlock_worldpointer sample_ext 1 l) t = Ok (q_world (q s)) s"
proof -
  obtain s where s: "reachable sample_ext 100 s" "registered s = {1, 2}" by (rule sample_waiting)
  from lock_unlock_roundtrip [OF reachable_sound [OF s(1)] zero_less_one refl] s(2) show ?thesis by blast
qed

section \<open>Single operations\<close>

text \<open>The thread need not even be registered, as far as the code goes without asserts.\<close>

lemma run_free_p_alone:
  assumes "sound E s" "card (registered s) \<le> 1" "g \<noteq> 0" "ndebug E \<or> (tss s th \<noteq> 0 \<and> ptr \<noteq> 0 \<and> ptr \<noteq> get_struct (q_world (q s)))"
  shows "run (mulle_aba_free_owned_pointer_p E th fuel (Fn_client g) ptr owner) s = Ok 0 (s\<lparr>trace := trace s @ [Call2 g ptr owner]\<rparr>)"
    and "run (mulle_aba_free_p E th fuel g ptr) s = Ok 0 (s\<lparr>trace := trace s @ [Call1 g ptr]\<rparr>)"
proof -
  note i = invD [OF soundD(1) [OF assms(1)]]
  note l = layoutD [OF coreD(1) [OF i(6)]]
  have ld: "run (load_world (get_struct (q_world (q s)))) s = Ok (cur s) s" using i(1,3) by (simp add: exec)
  have "unat (w_n_threads (cur s)) < 2 ^ 63" using less_10000(1) l(4,5) by simp
  from sle_1 [OF this] have w: "w_n_threads (cur s) \<le>s 1" using l(4) assms(2) by simp
  show "run (mulle_aba_free_owned_pointer_p E th fuel (Fn_client g) ptr owner) s = Ok 0 (s\<lparr>trace := trace s @ [Call2 g ptr owner]\<rparr>)"
    "run (mulle_aba_free_p E th fuel g ptr) s = Ok 0 (s\<lparr>trace := trace s @ [Call1 g ptr]\<rparr>)"
    using assms(3,4) ld w soundD(2) [OF assms(1)]
    by (auto simp: mulle_aba_free_owned_pointer_p_def mulle_aba_free_p_def run_is_registered run_c_assert
        mulle_aba_no_owner_free_def exec Let_def)
qed

text \<open>C14: While at most one thread is registered, freeing a pointer is the same as calling its free function at once: memory
  ends the same, the call is made immediately, nothing is delayed or allocated.\<close>

theorem single_thread_frees_at_once:
  assumes "sound E s" "card (registered s) \<le> 1" "tss s th \<noteq> 0" "ptr \<noteq> 0" "ptr \<noteq> get_struct (q_world (q s))" "g \<noteq> 0"
  shows "run (mulle_aba_free_owned_pointer_p E th fuel (Fn_client g) ptr owner) s = Ok 0 (s\<lparr>trace := trace s @ [Call2 g ptr owner]\<rparr>)
    \<and> run (mulle_aba_free_p E th fuel g ptr) s = Ok 0 (s\<lparr>trace := trace s @ [Call1 g ptr]\<rparr>)"
  using run_free_p_alone [OF assms(1,2,6)] assms(3-5) by blast

theorem single_thread_frees_at_once_witness:
  "\<exists>s. reachable sample_ext 100 s \<and> registered s = {1}
    \<and> run (mulle_aba_free_p sample_ext 1 100 7 1) s = Ok 0 (s\<lparr>trace := trace s @ [Call1 7 1]\<rparr>)"
proof -
  obtain s where s: "reachable sample_ext 100 s" "registered s = threads [Register 1] {}"
    by (rule reachable_sample [of "[Register 1]"]) simp_all
  then have r: "registered s = {1}" by simp
  then have t: "tss s 1 \<noteq> 0" by (auto simp: registered_def)
  have p: "1 \<noteq> get_struct (q_world (q s))" by (auto dest!: arg_cong [of _ _ aligned]) (simp add: aligned_def)
  have c: "card (registered s) \<le> 1" "(1 :: uptr) \<noteq> 0" "(7 :: uptr) \<noteq> 0" using r by simp_all
  from single_thread_frees_at_once [OF reachable_sound [OF s(1)] c(1) t c(2) p c(3), of 100] s(1) r show ?thesis by blast
qed

text \<open>C15: A second check-in in a row does nothing at all: it returns 0 and leaves memory as it is.\<close>

theorem checkin_idempotent:
  assumes "sound E s" "enough E fuel s"
  shows "\<exists>t. run (mulle_aba_checkin_current_thread E th fuel) s = Ok 0 t
    \<and> run (mulle_aba_checkin_current_thread E th fuel') t = Ok 0 t"
proof -
  have i: "inv E s (cur s) {#}" "ready E fuel 5 s (cur s)" using assms by (simp_all add: sound_def enough_def)
  have rd: "ready E fuel 0 s (cur s)" by (rule ready_mono [OF i(2)]) simp
  obtain t cs where t: "run (mulle_aba_checkin_current_thread E th fuel) s = Ok 0 t" "inv E t (cur s) {#}"
    "tss t = (tss s)(th := if tss s th = 0 then 0 else w_timestamp (cur s) + 1)"
    by (rule run_checkin [OF i(1) rd, of th])
  note it = invD [OF t(2)]
  have ld: "run (load_world (get_struct (q_world (q t)))) t = Ok (cur s) t" using it(1,3) by (simp add: exec)
  have "run (mulle_aba_checkin_current_thread E th fuel') t = Ok 0 t"
  proof (cases "tss s th = 0")
    case False
    have u: "unat (w_timestamp (cur s) + 1) = unat (w_timestamp (cur s)) + 1"
      by (rule unat_plus_1) (use readyD(5) [OF rd] in simp)
    then have "w_timestamp (cur s) + 1 \<noteq> 0" by (metis unat_0 add_is_0 one_neq_zero)
    then have nz: "tss t th \<noteq> 0" "tss t th = w_timestamp (cur s) + 1" using t(3) False by simp_all
    have "w_timestamp (cur s) <s tss t th" using new_less_last(1) [OF t(2) nz(1) readyD(5) [OF rd]] nz(2) u by simp
    then show ?thesis using nz(1) ld by (simp add: mulle_aba_checkin_current_thread_def exec Let_def)
  qed (simp add: mulle_aba_checkin_current_thread_def exec t(3))
  with t(1) show ?thesis by blast
qed

theorem checkin_idempotent_witness:
  "\<exists>s t. registered s = {1, 2} \<and> pending sample_ext s (cur s) \<noteq> {#}
    \<and> run (mulle_aba_checkin_current_thread sample_ext 1 100) s = Ok 0 t
    \<and> run (mulle_aba_checkin_current_thread sample_ext 1 100) t = Ok 0 t"
proof -
  obtain s where s: "reachable sample_ext 100 s" "pending sample_ext s (cur s) \<noteq> {#}" "registered s = {1, 2}" "enough sample_ext 100 s"
    by (rule sample_waiting)
  from checkin_idempotent [OF reachable_sound [OF s(1)] s(4), of 1 100] s(2,3) show ?thesis by blast
qed

section \<open>Calls that are not in order\<close>

text \<open>C16: In builds with asserts, nobody can free with an invalid thread key or a NULL function, free NULL or the
  library's own world, nor can a thread that is not registered free: an assert stops the program before memory is touched.
  Without asserts an unregistered thread is not told apart: while at most one thread is registered its pointer is freed
  at once and the result is 0. In both cases the result is not the -1 that \<open>asset/dox/api/toc/index.md\<close> promises for
  a thread that is not registered.\<close>

theorem free_checks_caller:
  assumes "f = Fn_client 0 \<or> ptr = 0 \<or> tss_key s = - 1 \<or> tss s th = 0 \<or> ptr = get_struct (q_world (q s))"
  shows "(\<not> ndebug E \<longrightarrow> run (mulle_aba_free_owned_pointer_p E th fuel f ptr owner) s = Fault Assert_failed)
    \<and> (ndebug E \<and> sound E s \<and> card (registered s) \<le> 1 \<and> f = Fn_client g \<and> g \<noteq> 0 \<longrightarrow>
      run (mulle_aba_free_owned_pointer_p E th fuel f ptr owner) s = Ok 0 (s\<lparr>trace := trace s @ [Call2 g ptr owner]\<rparr>))"
proof (rule conjI)
  show "\<not> ndebug E \<longrightarrow> run (mulle_aba_free_owned_pointer_p E th fuel f ptr owner) s = Fault Assert_failed"
    using assms
    by (auto simp: mulle_aba_free_owned_pointer_p_def run_is_registered keyed_def run_bnd run_c_assert
        run_get_worldpointer Let_def)
  show "ndebug E \<and> sound E s \<and> card (registered s) \<le> 1 \<and> f = Fn_client g \<and> g \<noteq> 0 \<longrightarrow>
      run (mulle_aba_free_owned_pointer_p E th fuel f ptr owner) s = Ok 0 (s\<lparr>trace := trace s @ [Call2 g ptr owner]\<rparr>)"
    using run_free_p_alone(1) [of E s g th ptr fuel owner] by auto
qed

theorem free_checks_caller_witness:
  "run (mulle_aba_free_owned_pointer_p sample_ext 1 100 (Fn_client 7) 5 6) sample_mem = Fault Assert_failed"
  using free_checks_caller [of "Fn_client 7" 5 sample_mem 1 sample_ext 100 6] by (simp add: sample_ext_def sample_mem_def)

text \<open>C17: Before \<open>mulle_aba_init\<close> has set the global instance, the calls on it stop at an assert in builds with asserts,
  asking whether the thread is registered included, which \<open>dox/API.md\<close> calls always available; asking for the
  thread's timestamp or the world pointer gives 0. (\<open>mulle_aba_done\<close> leaves the instance set, so this does
  not apply after it.)\<close>

theorem global_calls_need_init:
  assumes "\<not> ndebug E" "\<not> aba_global s"
  shows "run (mulle_aba_register E th fuel) s = Fault Assert_failed \<and> run (mulle_aba_checkin E th fuel) s = Fault Assert_failed
    \<and> run (mulle_aba_unregister E th fuel) s = Fault Assert_failed
    \<and> run (mulle_aba_free E th fuel g ptr) s = Fault Assert_failed
    \<and> run (mulle_aba_is_registered E th) s = Fault Assert_failed \<and> run (mulle_aba_done E) s = Fault Assert_failed
    \<and> run (mulle_aba_current_thread_get_timestamp th) s = Ok 0 s \<and> run mulle_aba_get_worldpointer s = Ok 0 s"
  using assms
  by (simp add: mulle_aba_register_def mulle_aba_checkin_def mulle_aba_unregister_def mulle_aba_free_def mulle_aba_is_registered_def
      mulle_aba_done_def mulle_aba_current_thread_get_timestamp_def mulle_aba_get_worldpointer_def with_global_def run_bnd run_c_assert)

theorem global_calls_need_init_witness: "run (mulle_aba_register sample_ext 1 100) sample_mem = Fault Assert_failed"
  using global_calls_need_init [of sample_ext sample_mem 1 100] by (simp add: sample_ext_def sample_mem_def)

end
