(* ===== verification/Aba_Arrive.thy ===== *)
theory Aba_Arrive
  imports Aba_Pool Aba_Reachable
begin

text \<open>
  A check-in while other threads check in and free: up to the moment it gives up its reference it only
  reads and sets the bit of the world pointer. \<open>view\<close> is what such a thread can rely on whatever
  the others do, \<open>arriving\<close> says that a program gets to the decrement under that condition, and
  \<open>arriving_checkin\<close> that \<open>mulle_aba_checkin_current_thread\<close> does.
\<close>

section \<open>The situation\<close>

text \<open>The world \<open>w\<close> at \<open>a\<close> was just installed for the registered threads \<open>R\<close>; its timestamp has entry \<open>j\<close> of the storage \<open>x\<close>.\<close>

definition contended :: "ext \<Rightarrow> uptr \<Rightarrow> world \<Rightarrow> uptr \<Rightarrow> nat \<Rightarrow> tid set \<Rightarrow> bool" where
  "contended E a w x j R \<longleftrightarrow> a \<noteq> 0 \<and> aligned a \<and> wf_world E w \<and> w_link w = 0
     \<and> slot E w (w_timestamp w) = Some (x, j) \<and> x \<noteq> 0 \<and> w_timestamp w \<noteq> 0 \<and> unat (w_timestamp w) < 2 ^ 62
     \<and> unat (w_n_threads w) = card R \<and> finite R \<and> 1 < card R \<and> card R < 10000"

lemma contendedD:
  assumes "contended E a w x j R"
  shows "a \<noteq> 0" "aligned a" "wf_world E w" "w_link w = 0" "slot E w (w_timestamp w) = Some (x, j)" "x \<noteq> 0"
    "w_timestamp w \<noteq> 0" "unat (w_timestamp w) < 2 ^ 62" "unat (w_n_threads w) = card R" "finite R" "1 < card R" "card R < 10000"
  using assms unfolding contended_def by blast+

lemma contended_pointer:
  assumes "contended E a w x j R"
  shows "get_struct a = a" "get_bit' a = 0" "get_lock a = 0" "get_struct (a OR 1) = a" "get_bit' (a OR 1) = 1"
    "get_lock (a OR 1) = 0" "a OR 1 \<noteq> a" "a OR 1 \<noteq> 0" "a AND 3 = 0" "checked_p a = a OR 1"
proof -
  note c = contendedD [OF assms]
  show s: "get_struct a = a" by (rule get_struct_aligned [OF c(2)])
  show "get_bit' a = 0" "get_lock a = 0" using c(2) by (simp_all add: get_bit_iff get_lock_iff aligned_iff_bits)
  then show "get_struct (a OR 1) = a" "get_bit' (a OR 1) = 1" "get_lock (a OR 1) = 0" "a OR 1 \<noteq> a"
    using new_pointer [OF c(2), of 1] by auto
  then show "a OR 1 \<noteq> 0" using c(1) by (metis get_bits_const(9))
  show "a AND 3 = 0" using c(2) by (simp add: aligned_def)
  show "checked_p a = a OR 1" by (simp add: checked_p_def s)
qed

text \<open>What a thread that still has to check in finds, however far the others have come; \<open>b\<close> tells that it knows the
  bit of the world pointer to be set.\<close>

definition view :: "uptr \<Rightarrow> world \<Rightarrow> tid \<Rightarrow> bool \<Rightarrow> mem \<Rightarrow> bool" where
  "view a w i b s \<longleftrightarrow> tss s i = w_timestamp w \<and> worlds s a = Some w
     \<and> (q_world (q s) = a \<or> q_world (q s) = a OR 1) \<and> (b \<longrightarrow> q_world (q s) = a OR 1)"

primrec reads_to :: "(mem \<Rightarrow> bool) \<Rightarrow> (mem, 'b) prog \<Rightarrow> 'b \<Rightarrow> bool" where
  "reads_to V (Ret y) r \<longleftrightarrow> y = r"
| "reads_to V (Crash e) r \<longleftrightarrow> False"
| "reads_to V (Act u k) r \<longleftrightarrow> u = id \<and> (\<forall>s. V s \<longrightarrow> reads_to V (k s) r)"

text \<open>A program that is about to run \<open>G\<close>: until then it only reads and sets the bit of the world pointer.\<close>

inductive arriving :: "uptr \<Rightarrow> world \<Rightarrow> tid \<Rightarrow> (mem, 'b) prog \<Rightarrow> bool \<Rightarrow> (mem, 'b) prog \<Rightarrow> bool" for a w i G where
  arrived: "arriving a w i G True G"
| reading: "(\<And>s. view a w i b s \<Longrightarrow> \<exists>b'. view a w i b' s \<and> arriving a w i G b' (k s)) \<Longrightarrow> arriving a w i G b (Act id k)"
| marking: "(\<And>s. view a w i b s \<Longrightarrow> u s = s \<and> view a w i True s \<or> u s = set_q_world (a OR 1) s)
    \<Longrightarrow> (\<And>s. view a w i b s \<Longrightarrow> arriving a w i G True (k s)) \<Longrightarrow> arriving a w i G b (Act u k)"

inductive_cases arriving_RetE: "arriving a w i G b (Ret r)"
inductive_cases arriving_CrashE: "arriving a w i G b (Crash e)"
inductive_cases arriving_ActE: "arriving a w i G b (Act u k)"

lemma reads_to_bnd: "reads_to V p r \<Longrightarrow> reads_to V (K r) r' \<Longrightarrow> reads_to V (bnd p K) r'"
  by (induction p) auto

lemma reads_to_load_world: "a \<noteq> 0 \<Longrightarrow> (\<And>s. V s \<Longrightarrow> worlds s a = Some w) \<Longrightarrow> reads_to V (load_world a) w"
  by (simp add: load_world_def check_ptr_def)

lemma reads_to_c_assert: "b \<Longrightarrow> reads_to V (c_assert E b) ()"
  by (simp add: c_assert_def skip_def)

lemma arriving_reads: "reads_to (view a w i b) p r \<Longrightarrow> arriving a w i G b (K r) \<Longrightarrow> arriving a w i G b (bnd p K)"
proof (induction p)
  case (Act u k)
  then have "u = id" "view a w i b s \<Longrightarrow> arriving a w i G b (bnd (k s) K)" for s by auto
  then show ?case by (auto intro: reading)
qed simp_all

lemma arriving_get_worldpointer:
  assumes "\<not> b \<Longrightarrow> arriving a w i G False (K a)" "arriving a w i G True (K (a OR 1))"
  shows "arriving a w i G b (bnd mulle_aba_storage_get_worldpointer K)"
proof -
  have "\<exists>b'. view a w i b' s \<and> arriving a w i G b' (K (q_world (q s)))" if v: "view a w i b s" for s
  proof (cases "q_world (q s) = a OR 1")
    case True
    then have "view a w i True s" using v by (simp add: view_def)
    with True assms(2) show ?thesis by auto
  next
    case False
    then have "\<not> b" "q_world (q s) = a" using v by (auto simp: view_def)
    then have "view a w i False s" "arriving a w i G False (K (q_world (q s)))" using v assms(1) by (simp_all add: view_def)
    then show ?thesis by blast
  qed
  then show ?thesis by (simp add: mulle_aba_storage_get_worldpointer_def reads_def reading)
qed

lemma arriving_cas:
  assumes "arriving a w i G True (K a)" "arriving a w i G True (K (a OR 1))"
  shows "arriving a w i G b (bnd (cas_world (a OR 1) a) K)"
proof -
  have "arriving a w i G b (Act (\<lambda>s. if q_world (q s) = a then set_q_world (a OR 1) s else s) (\<lambda>s. K (q_world (q s))))"
    by (rule marking) (use assms in \<open>auto simp: view_def\<close>)
  then show ?thesis by (simp add: cas_world_def)
qed

lemma arriving_run:
  "arriving a w i G b p \<Longrightarrow> view a w i b s \<Longrightarrow> run p s = run G (set_q_world (a OR 1) s)"
proof (induction arbitrary: s rule: arriving.induct)
  case arrived
  then have "set_q_world (a OR 1) s = s" by (auto simp: view_def set_q_world_def)
  then show ?case by simp
next
  case (reading b k)
  then show ?case by auto
next
  case (marking b u k)
  have t: "view a w i True (set_q_world (a OR 1) s)" using marking.prems by (simp add: view_def)
  then show ?case
    using marking.hyps(1) [OF marking.prems] marking.IH [OF marking.prems] by (auto simp: set_q_world_twice)
qed

section \<open>Reading a world that stays\<close>

definition stays :: "uptr \<Rightarrow> world \<Rightarrow> mem \<Rightarrow> bool" where
  "stays a w s \<longleftrightarrow> worlds s a = Some w"

lemma reads_to_mono: "reads_to V p r \<Longrightarrow> (\<And>s. V' s \<Longrightarrow> V s) \<Longrightarrow> reads_to V' p r"
  by (induction p) auto

lemma reads_to_view: "reads_to (stays a w) p r \<Longrightarrow> reads_to (view a w i b) p r"
  by (erule reads_to_mono) (simp add: view_def stays_def)

lemma stays_some: "stays a w (sample_mem\<lparr>worlds := [a \<mapsto> w]\<rparr>)"
  by (simp add: stays_def)

lemma reads_load_world: "a \<noteq> 0 \<Longrightarrow> reads_to (stays a w) (bnd (load_world a) K) r = reads_to (stays a w) (K w) r"
proof -
  assume "a \<noteq> 0"
  moreover have "\<exists>s :: mem. worlds s a = Some w" using stays_some [unfolded stays_def] by blast
  ultimately show ?thesis by (auto simp: load_world_def check_ptr_def stays_def)
qed

lemma reads_c_assert: "b \<Longrightarrow> reads_to V (bnd (c_assert E b) K) r = reads_to V (K ()) r"
  by (simp add: c_assert_def skip_def)

lemma reads_bnd:
  assumes "reads_to V p r0" "V s0"
  shows "reads_to V (bnd p K) r = reads_to V (K r0) r"
  using assms
proof (induction p)
  case (Act u k)
  from Act.prems have "u = id" "V s \<Longrightarrow> reads_to V (k s) r0" for s by auto
  then have "V s \<Longrightarrow> reads_to V (bnd (k s) K) r = reads_to V (K r0) r" for s
    using Act.IH [OF rangeI _ Act.prems(2), of s] by blast
  with \<open>u = id\<close> Act.prems(2) show ?case by auto
qed auto

text \<open>A covered timestamp's entry.\<close>

lemma reads_index:
  assumes "a \<noteq> 0" "wf_shape E w" "covers E w t"
  shows "reads_to (stays a w) (mulle_aba_world_get_timestampstorage_index E th a t) (word_of_nat (slot_index E w t))"
    "reads_to (stays a w) (mulle_aba_world_get_timestampstorage_at_index E a (word_of_nat (slot_index E w t)))
      (w_storage w ! slot_index E w t)"
    "(word_of_nat (slot_index E w t) :: uint) \<noteq> - 1"
proof -
  let ?i = "ucast ((t - w_offset w) div word_of_nat (n_entries E)) :: uint"
  have c: "w_offset w \<le> t" "slot_index E w t < unat (w_n w)" using assms(3) by (simp_all add: covers_def)
  have lt: "slot_index E w t < 2 ^ 32" "slot_index E w t < 2 ^ 32 - 1" using c(2) unat_lt_32 [of "w_n w"] by linarith+
  note u = s_index_unat [OF c(1) lt(1)]
  have "?i = word_of_nat (slot_index E w t)" by (simp only: word_unat_eq_iff u unat_of_nat_32 [OF lt(1)])
  moreover have "\<not> t < w_offset w" using c(1) by simp
  moreover have "\<not> w_n w \<le> ?i" using c(2) u by (simp add: word_le_nat_alt)
  ultimately show "reads_to (stays a w) (mulle_aba_world_get_timestampstorage_index E th a t) (word_of_nat (slot_index E w t))"
    using assms(1) by (simp add: mulle_aba_world_get_timestampstorage_index_def reads_load_world Let_def)
  show m: "(word_of_nat (slot_index E w t) :: uint) \<noteq> - 1"
  proof
    assume "(word_of_nat (slot_index E w t) :: uint) = - 1"
    then have "unat (word_of_nat (slot_index E w t) :: uint) = 2 ^ 32 - 1" by (simp only: unat_minus_one_32)
    then show False using lt by (simp only: unat_of_nat_32)
  qed
  have "slot_index E w t < length (w_storage w)" using c(2) assms(2) by (simp add: wf_shape_def)
  then show "reads_to (stays a w) (mulle_aba_world_get_timestampstorage_at_index E a (word_of_nat (slot_index E w t)))
      (w_storage w ! slot_index E w t)"
    using assms(1) c(2) m lt unat_of_nat_32 [OF lt(1)] wf_shape_storage_nonzero [OF assms(2) c(2)]
    by (simp add: mulle_aba_world_get_timestampstorage_at_index_def reads_load_world reads_c_assert check_bound_def word_less_nat_alt)
qed

lemma reads_get_timestampentry:
  assumes "a \<noteq> 0" "wf_shape E w" "covers E w t"
  shows "reads_to (stays a w) (mulle_aba_world_get_timestampentry E th a t) (slot E w t)"
proof -
  note i = reads_index [OF assms]
  have "slot_index E w t < unat (w_n w)" "t \<noteq> 0" using assms(3) by (simp_all add: covers_def)
  then show ?thesis
    using assms i(3) wf_shape_storage_nonzero [OF assms(2), of "slot_index E w t"]
    by (simp add: mulle_aba_world_get_timestampentry_def mulle_aba_world_get_timestampstorage_def slot_def
        bnd_assoc reads_bnd [OF i(1) stays_some] reads_bnd [OF i(2) stays_some]
        mulle_aba_timestampstorage_get_timestampentry_def)
qed

lemma reads_assert_sanity:
  assumes "a \<noteq> 0" "wf_world E w"
  shows "reads_to (stays a w) (mulle_aba_world_assert_sanity E th a) ()"
proof (cases "w_timestamp w = 0")
  case True
  with assms wf_world_sane [OF assms(2)] show ?thesis
    by (simp add: mulle_aba_world_assert_sanity_def reads_load_world reads_c_assert reads_to_c_assert skip_def)
next
  case False
  note cov = wf_world_covers [OF assms(2) False]
  have "slot E w (w_timestamp w) \<noteq> None" using cov by (simp add: slot_def)
  with False cov wf_world_in_range [OF assms(2) False] wf_world_sane [OF assms(2)] assms(1) show ?thesis
    by (simp add: mulle_aba_world_assert_sanity_def reads_load_world reads_c_assert skip_def reads_to_c_assert
        reads_bnd [OF reads_get_timestampentry [OF assms(1) wf_world_shape [OF assms(2)] cov] stays_some])
qed

section \<open>A check-in up to its decrement\<close>

text \<open>What is left of a check-in when it is about to give up its reference; the last thread frees the list.\<close>

definition last_out :: "ext \<Rightarrow> nat \<Rightarrow> uptr \<Rightarrow> nat \<Rightarrow> (mem, unit) prog" where
  "last_out E f x j = bnd (entry_get_list (x, j)) (\<lambda>l. bnd (entry_clear_list (x, j)) (\<lambda>_.
     bnd (mulle_aba_timestampstorage_set_usage_bit E f x (word_of_nat j) 0) (\<lambda>_. mulle_aba_storage_linkedlist_free E l)))"

definition giving_up :: "ext \<Rightarrow> nat \<Rightarrow> tid \<Rightarrow> uptr \<Rightarrow> nat \<Rightarrow> uptr \<Rightarrow> (mem, int) prog" where
  "giving_up E f i x j v = bnd (entry_decrement_rc (x, j)) (\<lambda>rc. bnd (if rc \<noteq> 0 then skip else last_out E f x j) (\<lambda>_.
     bnd (tss_set i (v + 1)) (\<lambda>_. Ret 0)))"

lemma checkin_swap_ok:
  assumes "contended E a w x j R"
  shows "reads_to (stays a w) (assert_swap_worlds E Swap_checkin (a OR 1) a) ()"
proof -
  note c = contendedD [OF assms] and p = contended_pointer [OF assms]
  have n10: "unat (w_n_threads w) < 10000" using c by simp
  note b = less_10000 [OF n10]
  have "valid_transition (mulle_aba_worldpointer_state (a OR 1) w) (mulle_aba_worldpointer_state a w) Swap_checkin"
    unfolding state_alt [OF b(1)] using p c by (simp add: valid_transition_def)
  moreover have "swap_worlds_ok E Swap_checkin (a OR 1) a w w"
    using p b c(4) by (simp add: swap_worlds_ok_def)
  ultimately show ?thesis
    using p c(1) by (simp add: assert_swap_worlds_def assert_valid_transition_def reads_load_world reads_c_assert reads_to_c_assert
        skip_def bnd_assoc)
qed

lemma change_marked:
  assumes "contended E a w x j R"
  shows "mulle_aba_storage_change_worldpointer E th (Suc f) Swap_checkin (a OR 1) set_bit ()
    = Ret (\<lparr>new_world_p = a OR 1, old_world_p = a OR 1\<rparr>, ())"
  using contended_pointer [OF assms] contendedD(1) [OF assms]
  by (simp add: set_bit_def mulle_aba_worldpointer_make_def done_worldpointers_def mulle_aba_worldpointers_make_def c_assert_def skip_def)

lemma minus_one_if: "(if b then 0 else - 1) = (0 :: int) \<longleftrightarrow> b"
  by simp

lemma arriving_change:
  assumes c: "contended E a w x j R" and p: "p = a \<or> p = a OR 1 \<and> b"
    and k: "\<And>p. p = a \<or> p = a OR 1 \<Longrightarrow> arriving a w i G True (K (\<lparr>new_world_p = a OR 1, old_world_p = p\<rparr>, ()))"
  shows "arriving a w i G b (bnd (mulle_aba_storage_change_worldpointer_2 E th (Suc (Suc f)) Swap_checkin p set_bit ()) K)"
proof (cases "p = a")
  case False
  then have "p = a OR 1" b using p by blast+
  then show ?thesis using k [of p] contended_pointer(8) [OF c]
    by (simp add: mulle_aba_storage_change_worldpointer_2_def change_marked [OF c] del: mulle_aba_storage_change_worldpointer.simps)
next
  case True
  note cp = contended_pointer [OF c] and cd = contendedD [OF c]
  let ?done = "\<lambda>p. K (\<lparr>new_world_p = a OR 1, old_world_p = p\<rparr>, ())"
  have sw: "mulle_aba_storage_change_worldpointer E th (Suc (Suc f)) Swap_checkin a set_bit ()
    = bnd (mulle_aba_world_assert_sanity E th a) (\<lambda>_. bnd (assert_swap_worlds E Swap_checkin (a OR 1) a) (\<lambda>_.
      bnd (cas_world (a OR 1) a) (\<lambda>v. if v = a then Ret (\<lparr>new_world_p = a OR 1, old_world_p = a\<rparr>, ())
      else bnd mulle_aba_storage_get_worldpointer (\<lambda>p. mulle_aba_storage_change_worldpointer E th (Suc f) Swap_checkin p set_bit ()))))"
  proof -
    have "mulle_aba_worldpointer_make E a 1 = Ret (a OR 1)"
      using cp(9) by (simp add: mulle_aba_worldpointer_make_def c_assert_def skip_def)
    moreover have "done_worldpointers E (a OR 1) a () = Ret (\<lparr>new_world_p = a OR 1, old_world_p = a\<rparr>, ())"
      using cp cd(1) by (simp add: done_worldpointers_def mulle_aba_worldpointers_make_def c_assert_def skip_def)
    moreover have "bnd (mulle_aba_storage_swap_worlds E Swap_checkin (a OR 1) a) (\<lambda>r. if r = 0 then p1 else p2)
      = bnd (assert_swap_worlds E Swap_checkin (a OR 1) a) (\<lambda>_. bnd (cas_world (a OR 1) a) (\<lambda>v. if v = a then p1 else p2))"
      for p1 p2 :: "(mem, worldpointers \<times> unit) prog"
      by (simp add: mulle_aba_storage_swap_worlds_def bnd_assoc minus_one_if)
    ultimately show ?thesis
      by (subst mulle_aba_storage_change_worldpointer.simps(2))
        (simp add: set_bit_def cp(1-9) cd(1) cong: if_cong del: mulle_aba_storage_change_worldpointer.simps)
  qed
  show ?thesis
    unfolding True mulle_aba_storage_change_worldpointer_2_def sw bnd_assoc
  proof (rule arriving_reads [OF reads_to_view [OF reads_assert_sanity [OF cd(1,3)]]],
      rule arriving_reads [OF reads_to_view [OF checkin_swap_ok [OF c]]], rule arriving_cas)
  qed (use cp(7,8) k in \<open>auto simp: bnd_assoc change_marked [OF c] simp del: mulle_aba_storage_change_worldpointer.simps
      intro!: arriving_get_worldpointer\<close>)
qed

lemma arriving_timerange:
  assumes "contended E a w x j R"
  shows "arriving a w i (giving_up E (Suc (Suc f)) i x j (w_timestamp w)) True
    (bnd (mulle_aba_world_check_timerange E i (Suc (Suc f)) a (w_timestamp w) (w_timestamp w))
      (\<lambda>_. bnd (tss_set i (w_timestamp w + 1)) (\<lambda>_. Ret 0)))"
proof -
  let ?v = "w_timestamp w"
  note c = contendedD [OF assms]
  note sh = wf_world_shape [OF c(3)]
  have cv: "covers E w ?v" using c(5) by (auto simp: slot_def split: if_splits)
  note ix = reads_index [OF c(1) sh cv]
  have xj: "w_storage w ! slot_index E w ?v = x" "unat ?v mod n_entries E = j" using c(5) cv by (simp_all add: slot_def)
  have ti: "mulle_aba_timestampstorage_get_timestamp_index E ?v = word_of_nat j" "unat (word_of_nat j :: uint) = j"
    using timestamp_index_word [of E ?v] mod_word(1) [of "unat ?v" E] xj(2) by simp_all
  have j: "j < n_entries E" using xj(2) by auto
  have u: "unat (?v + 1) = unat ?v + 1" by (rule unat_plus_1) (use c(8) in simp)
  have lt: "?v < ?v + 1" using u by (simp add: word_less_nat_alt)
  have loop: "check_timerange_loop E i (Suc f) a (?v + 1) ?v = skip" using lt by simp
  have G: "(bnd (entry_decrement_rc (x, j)) (\<lambda>rc. bnd (if rc \<noteq> 0 then check_timerange_loop E i (Suc f) a (?v + 1) ?v
        else bnd (entry_get_list (x, j)) (\<lambda>l. bnd (entry_clear_list (x, j)) (\<lambda>_.
          bnd (mulle_aba_timestampstorage_set_usage_bit E (Suc (Suc f)) x (word_of_nat j) 0) (\<lambda>_.
          bnd (mulle_aba_storage_linkedlist_free E l) (\<lambda>_. check_timerange_loop E i (Suc f) a (?v + 1) ?v)))))
        (\<lambda>_. bnd (tss_set i (?v + 1)) (\<lambda>_. Ret 0)))) = giving_up E (Suc (Suc f)) i x j ?v"
    unfolding loop giving_up_def last_out_def by (simp add: bnd_skip cong: if_cong del: mulle_aba_timestampstorage_set_usage_bit.simps)
  have "reads_to (stays a w) (load_world a) w" using c(1) by (auto intro: reads_to_load_world simp: stays_def)
  note ld = reads_to_view [OF this]
  let ?K = "\<lambda>_. bnd (tss_set i (?v + 1)) (\<lambda>_. Ret 0)"
  have st: "bnd (check_timerange_loop E i (Suc (Suc f)) a ?v ?v) ?K
    = bnd (mulle_aba_world_get_timestampstorage_index E i a ?v) (\<lambda>ti. bnd (mulle_aba_world_get_timestampstorage_at_index E a ti) (\<lambda>y.
      bnd (c_assert E (y \<noteq> 0)) (\<lambda>_. bnd (mulle_aba_timestampstorage_get_timestampentry_at_index E y (word_of_nat j)) (\<lambda>e.
      bnd (entry_decrement_rc e) (\<lambda>rc. bnd (if rc \<noteq> 0 then check_timerange_loop E i (Suc f) a (?v + 1) ?v
        else bnd (entry_get_list e) (\<lambda>l. bnd (entry_clear_list e) (\<lambda>_.
          bnd (mulle_aba_timestampstorage_set_usage_bit E (Suc (Suc f)) y (word_of_nat j) 0) (\<lambda>_.
          bnd (mulle_aba_storage_linkedlist_free E l) (\<lambda>_. check_timerange_loop E i (Suc f) a (?v + 1) ?v))))) ?K)))))"
    by (subst check_timerange_loop.simps(2))
      (simp add: bnd_assoc Let_def ti(1) del: check_timerange_loop.simps mulle_aba_timestampstorage_set_usage_bit.simps)
  have "arriving a w i (giving_up E (Suc (Suc f)) i x j ?v) True (bnd (check_timerange_loop E i (Suc (Suc f)) a ?v ?v) ?K)"
    unfolding st
  proof (rule arriving_reads [OF reads_to_view [OF ix(1)]], rule arriving_reads [OF reads_to_view [OF ix(2)]])
    have "c_assert E (x \<noteq> 0) = Ret ()" "mulle_aba_timestampstorage_get_timestampentry_at_index E x (word_of_nat j) = Ret (x, j)"
      using c(6) ti(2) j by (simp_all add: c_assert_def skip_def mulle_aba_timestampstorage_get_timestampentry_at_index_def)
    then show "arriving a w i (giving_up E (Suc (Suc f)) i x j ?v) True
      (bnd (c_assert E (w_storage w ! slot_index E w ?v \<noteq> 0)) (\<lambda>_.
       bnd (mulle_aba_timestampstorage_get_timestampentry_at_index E (w_storage w ! slot_index E w ?v) (word_of_nat j)) (\<lambda>e.
       bnd (entry_decrement_rc e) (\<lambda>rc. bnd (if rc \<noteq> 0 then check_timerange_loop E i (Suc f) a (?v + 1) ?v
        else bnd (entry_get_list e) (\<lambda>l. bnd (entry_clear_list e) (\<lambda>_.
          bnd (mulle_aba_timestampstorage_set_usage_bit E (Suc (Suc f)) (w_storage w ! slot_index E w ?v) (word_of_nat j) 0) (\<lambda>_.
          bnd (mulle_aba_storage_linkedlist_free E l) (\<lambda>_. check_timerange_loop E i (Suc f) a (?v + 1) ?v))))) ?K))))"
      unfolding xj(1) by (simp only: bnd.simps G arrived)
  qed
  then have "arriving a w i (giving_up E (Suc (Suc f)) i x j ?v) True
    (bnd (mulle_aba_world_assert_sanity E i a) (\<lambda>_. bnd (check_timerange_loop E i (Suc (Suc f)) a ?v ?v) ?K))"
    by (rule arriving_reads [OF reads_to_view [OF reads_assert_sanity [OF c(1,3)]]])
  then show ?thesis
    unfolding mulle_aba_world_check_timerange_def bnd_assoc
    by (intro arriving_reads [OF ld]) (use c(7) in \<open>simp add: bnd_assoc del: check_timerange_loop.simps\<close>)
qed

lemma arriving_checkin:
  assumes "contended E a w x j R"
  shows "arriving a w i (giving_up E (Suc (Suc f)) i x j (w_timestamp w)) False (mulle_aba_checkin_current_thread E i (Suc (Suc f)))"
proof -
  let ?v = "w_timestamp w" and ?G = "giving_up E (Suc (Suc f)) i x j (w_timestamp w)"
  note c = contendedD [OF assms] and p = contended_pointer [OF assms]
  have ld: "reads_to (view a w i b) (load_world a) w" for b using c(1) by (auto intro: reads_to_load_world simp: view_def)
  have ts: "reads_to (view a w i b) (tss_get i) ?v" for b by (simp add: tss_get_def reads_def view_def)
  let ?last = "bnd (mulle_aba_check_timestamp_range E i (Suc (Suc f)) ?v ?v) (\<lambda>_. bnd (tss_set i (?v + 1)) (\<lambda>_. Ret 0))"
  have last: "arriving a w i ?G True ?last"
    unfolding mulle_aba_check_timestamp_range_def bnd_assoc
    by (rule arriving_get_worldpointer) (use arriving_timerange [OF assms] p(4) in simp_all)
  have nz: "?v \<noteq> 0" "\<not> ?v <s ?v" using c(7) by simp_all
  show ?thesis
    unfolding mulle_aba_checkin_current_thread_def
  proof (rule arriving_reads [OF ts])
    have "free_world_if_needed E i (Suc (Suc f)) \<lparr>new_world_p = a OR 1, old_world_p = p\<rparr> = Ret 0" if "p = a \<or> p = a OR 1" for p
      using that p(1,4) by (auto simp: free_world_if_needed_def)
    then have mid: "arriving a w i ?G b (bnd (load_world a) (\<lambda>old. let new = w_timestamp old in if new <s ?v then Ret 0
        else bnd (mulle_aba_storage_change_worldpointer_2 E i (Suc (Suc f)) Swap_checkin p set_bit ()) (\<lambda>(ps, _).
          if new_world_p ps = 0 then Ret (- 1)
          else bnd (free_world_if_needed E i (Suc (Suc f)) ps) (\<lambda>rval. bnd (c_assert E (rval = 0 \<or> rval = - 1)) (\<lambda>_.
            if rval \<noteq> 0 then Ret rval
            else bnd (mulle_aba_check_timestamp_range E i (Suc (Suc f)) ?v new) (\<lambda>_. bnd (tss_set i (new + 1)) (\<lambda>_. Ret rval)))))))"
      if "p = a \<or> p = a OR 1 \<and> b" for p b
      using last p(8) nz(2) that
      by (intro arriving_reads [OF ld]) (simp add: Let_def, intro arriving_change [OF assms], simp_all add: c_assert_def skip_def)
    show "arriving a w i ?G False (if ?v = 0 then Ret 0 else bnd mulle_aba_storage_get_worldpointer (\<lambda>old_p.
       bnd (load_world (get_struct old_p)) (\<lambda>old. let new = w_timestamp old in if new <s ?v then Ret 0
        else bnd (mulle_aba_storage_change_worldpointer_2 E i (Suc (Suc f)) Swap_checkin old_p set_bit ()) (\<lambda>(ps, _).
          if new_world_p ps = 0 then Ret (- 1)
          else bnd (free_world_if_needed E i (Suc (Suc f)) ps) (\<lambda>rval. bnd (c_assert E (rval = 0 \<or> rval = - 1)) (\<lambda>_.
            if rval \<noteq> 0 then Ret rval
            else bnd (mulle_aba_check_timestamp_range E i (Suc (Suc f)) ?v new) (\<lambda>_. bnd (tss_set i (new + 1)) (\<lambda>_. Ret rval))))))))"
      using nz(1) mid [of a False] mid [of "a OR 1" True] p(1,4) by (simp, intro arriving_get_worldpointer, simp_all)
  qed
qed

end
