(* ===== verification/Aba_Drift.thy ===== *)
theory Aba_Drift
  imports Aba_Arrive
begin

text \<open>
  The rest of a free, after it has installed the new world, while other threads check in: \<open>drift\<close> is
  what they change, the bit of the world pointer, the count of the new timestamp and their own timestamps.
  The code of the free neither sees nor disturbs it (\<open>freeing_solo\<close>).
\<close>

section \<open>What the others have done meanwhile\<close>

text \<open>\<open>d\<close> threads have given up their reference, those of \<open>T\<close> have moved on to the next timestamp, and \<open>b\<close> tells whether the
  bit of the world pointer is set.\<close>

definition drift :: "uptr \<Rightarrow> world \<Rightarrow> uptr \<Rightarrow> nat \<Rightarrow> bool \<Rightarrow> nat \<Rightarrow> tid set \<Rightarrow> mem \<Rightarrow> mem" where
  "drift a w x j b d T s = s\<lparr>q := (q s)\<lparr>q_world := if b then a OR 1 else q_world (q s)\<rparr>,
     stores := (stores s)(x := map_option (ts_upd j (\<lambda>y. y\<lparr>retain_count_1 := retain_count_1 y - word_of_nat d\<rparr>)) (stores s x)),
     tss := (\<lambda>i. if i \<in> T then w_timestamp w + 1 else tss s i)\<rparr>"

definition drifts :: "uptr \<Rightarrow> world \<Rightarrow> uptr \<Rightarrow> nat \<Rightarrow> (mem \<Rightarrow> mem) \<Rightarrow> bool" where
  "drifts a w x j f \<longleftrightarrow> (\<exists>b d T. f = drift a w x j b d T)"

lemma drift_sel [simp]:
  "worlds (drift a w x j b d T s) = worlds s" "trace (drift a w x j b d T s) = trace s"
  "q_world (q (drift a w x j b d T s)) = (if b then a OR 1 else q_world (q s))"
  "tss (drift a w x j b d T s) i = (if i \<in> T then w_timestamp w + 1 else tss s i)"
  by (simp_all add: drift_def)

lemma framed_drift: "framed (drift a w x j b d T)"
  unfolding framed_def by (simp add: drift_def live_def fun_eq_iff)

lemma framed_drifts: "drifts a w x j f \<Longrightarrow> framed f"
  using framed_drift by (auto simp: drifts_def)

lemma ts_upd_ts_upd: "ts_upd i f (ts_upd i g ts) = ts_upd i (f \<circ> g) ts"
  by (cases "i < length (ts_entries ts)") (simp_all add: ts_upd_def list_update_beyond)

lemma drift_stores_upd:
  assumes "\<And>y d. g (y\<lparr>retain_count_1 := retain_count_1 y - d\<rparr>) = (g y)\<lparr>retain_count_1 := retain_count_1 (g y) - d\<rparr>"
  shows "drift a w x j b d T (s\<lparr>stores := (stores s)(x := map_option (ts_upd j g) (stores s x))\<rparr>)
    = (drift a w x j b d T s)\<lparr>stores := (stores (drift a w x j b d T s))(x := map_option (ts_upd j g) (stores (drift a w x j b d T s) x))\<rparr>"
  by (rule mem.equality) (simp_all add: drift_def option.map_comp comp_def ts_upd_ts_upd assms cong: if_cong)

lemma blind_entry:
  "blind (drifts a w x j) (entry_add_rc (x, j) n)" "blind (drifts a w x j) (entry_add_pointer E (x, j) e)"
proof -
  have k: "check_ptr x (stores (drift a w x j b d T s) x) (\<lambda>ts. check_index j ts skip) = check_ptr x (stores s x) (\<lambda>ts. check_index j ts skip)"
    for b d T s by (simp add: check_ptr_def check_index_def drift_def split: option.splits)
  have bl: "blind (drifts a w x j) (check_ptr x y (\<lambda>ts. check_index j ts skip))" for y
    by (simp add: check_ptr_def check_index_def split: option.splits)
  have e: "bnd (entry_update (x, j) g) (\<lambda>_. skip) = Act (\<lambda>s. s\<lparr>stores := (stores s)(x := map_option (ts_upd j g) (stores s x))\<rparr>)
    (\<lambda>s. check_ptr x (stores s x) (\<lambda>ts. check_index j ts skip))" for g
    by (auto simp: entry_update_def check_ptr_def check_index_def fun_eq_iff split: option.splits)
  show "blind (drifts a w x j) (entry_add_rc (x, j) n)"
    unfolding entry_add_rc_def e using k bl drift_stores_upd [of "\<lambda>y. y\<lparr>retain_count_1 := retain_count_1 y + n\<rparr>"]
    by (intro blind_ActI) (auto simp: drifts_def)
  show "blind (drifts a w x j) (entry_add_pointer E (x, j) e)"
    unfolding entry_add_pointer_def e using k bl drift_stores_upd [of "\<lambda>y. y\<lparr>pointer_list := x_add E e (pointer_list y)\<rparr>"]
    by (intro blind_ActI) (auto simp: drifts_def)
qed

text \<open>The memory as the freeing thread alone would have it; the threads
  of \<open>S\<close> have checked in before, the count is one of \<open>C\<close>, the calls made are \<open>tr\<close>.\<close>

definition poised :: "uptr \<Rightarrow> world \<Rightarrow> uptr \<Rightarrow> nat \<Rightarrow> tid set \<Rightarrow> event list \<Rightarrow> uptr set \<Rightarrow> mem \<Rightarrow> bool" where
  "poised a w x j S tr C s \<longleftrightarrow> trace s = tr \<and> q_world (q s) = a \<and> worlds s a = Some w \<and> (\<forall>i \<in> S. tss s i = w_timestamp w)
     \<and> (\<exists>ts. stores s x = Some ts \<and> j < length (ts_entries ts) \<and> retain_count_1 (ts_entries ts ! j) \<in> C)"

lemma resting_poised: "resting (poised a w x j S tr C)"
  by (simp add: resting_def poised_def)

lemma retain_pointer_list: "retain_count_1 (xs[i := (xs ! i)\<lparr>pointer_list := l\<rparr>] ! j) = retain_count_1 (xs ! j)"
  by (cases "i < length xs"; cases "i = j") (simp_all add: list_update_beyond)

lemma keeps_poised:
  "o' \<noteq> a \<Longrightarrow> keeps (poised a w x j S tr C) (store_world o' g)" "keeps (poised a w x j S tr C) (entry_add_pointer E e y)"
proof -
  show "o' \<noteq> a \<Longrightarrow> keeps (poised a w x j S tr C) (store_world o' g)"
    by (auto simp: store_world_def poised_def)
  show "keeps (poised a w x j S tr C) (entry_add_pointer E e y)"
    by (auto simp: entry_add_pointer_def entry_update_def poised_def check_ptr_def check_index_def skip_def ts_upd_def retain_pointer_list
        split: option.splits)
qed

section \<open>The rest of a free\<close>

lemma lookup_quiet:
  "blind (drifts a w x j) (load_world b)" "keeps (poised a w x j S tr C) (load_world b)"
  "blind (drifts a w x j) (mulle_aba_world_get_timestampentry E th b t)"
  "keeps (poised a w x j S tr C) (mulle_aba_world_get_timestampentry E th b t)"
  by (rule blind_primitives keeps_primitives quiet_get_timestampentry; simp add: framed_drifts resting_poised)+

lemma solo_known:
  assumes "run (bnd p g) s = Ok r z" "blind F p" "keeps I p" "I s" "run p s = Ok v s"
    and "run (g v) s = Ok r z \<Longrightarrow> solo I F (g v) s"
  shows "solo I F (bnd p g) s"
  by (rule solo_step [OF assms(2-4,1)]) (use assms(5,6) in auto)

text \<open>What a free does after it has installed the new world.\<close>

definition freeing :: "ext \<Rightarrow> tid \<Rightarrow> nat \<Rightarrow> worldpointers \<Rightarrow> fnptr \<Rightarrow> uptr \<Rightarrow> uptr \<Rightarrow> add_context \<Rightarrow> (mem, int) prog" where
  "freeing E th g ps f ptr owner c =
     bnd (free_count E th ps 0) (\<lambda>old. free_loop E th g f ptr owner (new_world_p ps) old c)"

lemma solo_add_rc:
  assumes "contended E a w x j R" "poised a w x j S tr {- 1} s"
  shows "solo (poised a w x j S tr {- 1, word_of_nat (card R) - 1}) (drifts a w x j) (entry_add_rc (x, j) (w_n_threads w)) s"
    "run (entry_add_rc (x, j) (w_n_threads w)) s = Ok () t \<Longrightarrow> poised a w x j S tr {word_of_nat (card R) - 1} t"
proof -
  let ?t = "s\<lparr>stores := (stores s)(x := map_option (ts_upd j (\<lambda>y. y\<lparr>retain_count_1 := retain_count_1 y + w_n_threads w\<rparr>)) (stores s x))\<rparr>"
  obtain ts where ts: "stores s x = Some ts" "j < length (ts_entries ts)" "retain_count_1 (ts_entries ts ! j) = - 1"
    using assms(2) by (auto simp: poised_def)
  note c = contendedD [OF assms(1)]
  have n: "w_n_threads w = word_of_nat (card R)" by (simp add: c(9) [symmetric])
  have pt: "poised a w x j S tr {word_of_nat (card R) - 1} ?t"
    using assms(2) ts by (auto simp: poised_def n)
  have r: "run (entry_add_rc (x, j) (w_n_threads w)) s = Ok () ?t"
    using run_entry_ops(2) [OF c(6) ts(1,2)] ts(1) by simp
  have ps: "poised a w x j S tr {- 1, word_of_nat (card R) - 1} s" "poised a w x j S tr {- 1, word_of_nat (card R) - 1} ?t"
    using assms(2) pt unfolding poised_def by blast+
  show "run (entry_add_rc (x, j) (w_n_threads w)) s = Ok () t \<Longrightarrow> poised a w x j S tr {word_of_nat (card R) - 1} t"
    using r pt by simp
  have e: "entry_add_rc (x, j) (w_n_threads w) = Act (\<lambda>s. s\<lparr>stores := (stores s)(x := map_option
      (ts_upd j (\<lambda>y. y\<lparr>retain_count_1 := retain_count_1 y + w_n_threads w\<rparr>)) (stores s x))\<rparr>)
    (\<lambda>s. check_ptr x (stores s x) (\<lambda>ts. check_index j ts skip))"
    by (auto simp: entry_add_rc_def entry_update_def check_ptr_def check_index_def fun_eq_iff split: option.splits)
  from blind_entry(1) [of a w x j "w_n_threads w"] ps ts c(6)
  show "solo (poised a w x j S tr {- 1, word_of_nat (card R) - 1}) (drifts a w x j) (entry_add_rc (x, j) (w_n_threads w)) s"
    unfolding e by (simp add: check_ptr_def check_index_def skip_def)
qed

lemma solo_free_loop:
  assumes "contended E a w x j R" "poised a w x j S tr C s" "run (free_loop E th g f ptr owner a old c) s = Ok 0 z"
  shows "solo (poised a w x j S tr C) (drifts a w x j) (free_loop E th g f ptr owner a old c) s"
proof -
  note c = contendedD [OF assms(1)] and p = contended_pointer [OF assms(1)]
  obtain h where g: "g = Suc h" using assms(3) by (cases g) auto
  have cv: "covers E w (w_timestamp w)" using c(5) by (auto simp: slot_def split: if_splits)
  have wa: "worlds t a = Some w" if "poised a w x j S tr C t" for t using that by (simp add: poised_def)
  have ld: "run (load_world a) t = Ok w t" if "poised a w x j S tr C t" for t using c(1) wa [OF that] by (simp add: exec)
  have le: "run (mulle_aba_world_get_timestampentry E th a (w_timestamp w)) t = Ok (Some (x, j)) t"
    if "poised a w x j S tr C t" for t
    using run_get_timestampentry_covered [OF c(1) wa [OF that] wf_world_shape [OF c(3)] cv] c(5) by simp
  let ?exit = "\<lambda>e. free_put E th (Suc h) f ptr owner a (the e) old"
  obtain K where fl: "free_loop E th g f ptr owner a old c = bnd (load_world a) (\<lambda>v.
      bnd (mulle_aba_world_get_timestampentry E th a (w_timestamp v + get_bit' a)) (\<lambda>e.
        if e \<noteq> None \<and> get_bit' a = 0 then ?exit e else K v e))"
    by (rule that) (unfold g free_loop.simps(2) Let_def p(1), rule refl)
  have ex: "solo (poised a w x j S tr C) (drifts a w x j) (?exit (Some (x, j))) t"
    if t: "poised a w x j S tr C t" "run (?exit (Some (x, j))) t = Ok 0 z" for t
  proof (rule solo_quiet [where I = "poised a w x j S tr C", OF _ _ t])
    show "blind (drifts a w x j) (?exit (Some (x, j)))"
      unfolding free_put_def
      by (intro quiet_progs quiet_assert_sanity quiet_freeentry quiet_free_worlds_delayed quiet_simps)
        (simp_all add: framed_drifts blind_entry)
    show "keeps (poised a w x j S tr C) (?exit (Some (x, j)))"
      unfolding free_put_def
      by (intro quiet_progs quiet_assert_sanity quiet_freeentry quiet_free_worlds_delayed quiet_simps)
        (simp_all add: resting_poised keeps_poised(2))
  qed
  note bl = lookup_quiet(1,2) and qe = lookup_quiet(3,4)
  show ?thesis
    unfolding fl
  proof (rule solo_known [where I = "poised a w x j S tr C", OF assms(3) [unfolded fl] bl assms(2) ld [OF assms(2)]])
    assume r: "run (bnd (mulle_aba_world_get_timestampentry E th a (w_timestamp w + get_bit' a))
      (\<lambda>e. if e \<noteq> None \<and> get_bit' a = 0 then ?exit e else K w e)) s = Ok 0 z"
    have "run (mulle_aba_world_get_timestampentry E th a (w_timestamp w + get_bit' a)) s = Ok (Some (x, j)) s"
      using le [OF assms(2)] p(2) by simp
    then show "solo (poised a w x j S tr C) (drifts a w x j) (bnd (mulle_aba_world_get_timestampentry E th a (w_timestamp w + get_bit' a))
      (\<lambda>e. if e \<noteq> None \<and> get_bit' a = 0 then ?exit e else K w e)) s"
      by (rule solo_known [where I = "poised a w x j S tr C", OF r qe assms(2)]) (use ex [OF assms(2)] p(2) in simp)
  qed
qed

lemma freeing_solo:
  assumes "contended E a w x j R" "poised a w x j S tr {- 1} s" "get_struct o' \<noteq> a"
    and "run (freeing E th g \<lparr>new_world_p = a, old_world_p = o'\<rparr> f ptr owner c) s = Ok 0 z"
  shows "solo (poised a w x j S tr {- 1, word_of_nat (card R) - 1}) (drifts a w x j)
      (freeing E th g \<lparr>new_world_p = a, old_world_p = o'\<rparr> f ptr owner c) s"
    "poised a w x j S tr {word_of_nat (card R) - 1} z"
proof -
  let ?I = "poised a w x j S tr {- 1, word_of_nat (card R) - 1}" and ?J = "poised a w x j S tr {word_of_nat (card R) - 1}"
  let ?F = "drifts a w x j"
  note ct = contendedD [OF assms(1)] and p = contended_pointer [OF assms(1)]
  have i: "?I s" using assms(2) unfolding poised_def by blast
  have wa: "worlds s a = Some w" using assms(2) by (simp add: poised_def)
  have cv: "covers E w (w_timestamp w)" using ct(5) by (auto simp: slot_def split: if_splits)
  let ?old = "bnd (c_assert E (get_struct o' \<noteq> 0)) (\<lambda>_.
       bnd (if ndebug E then skip else bnd (load_world (get_struct o')) (\<lambda>w. c_assert E (w_link w = 0))) (\<lambda>_.
       bnd (store_world (get_struct o') (\<lambda>w. w\<lparr>w_link := 0\<rparr>)) (\<lambda>_. Ret (get_struct o'))))"
  let ?L = "\<lambda>old. free_loop E th g f ptr owner a old c"
  let ?rest = "bnd (if get_lock o' = 0 \<and> a \<noteq> get_struct o' then ?old else Ret 0) ?L"
  have fr: "freeing E th g \<lparr>new_world_p = a, old_world_p = o'\<rparr> f ptr owner c
    = bnd (load_world a) (\<lambda>v. bnd (mulle_aba_world_get_timestampentry E th a (w_timestamp v)) (\<lambda>e.
      bnd (c_assert E (e \<noteq> None)) (\<lambda>_.
      bnd (case e of None \<Rightarrow> Crash Null_deref | Some e \<Rightarrow> entry_add_rc e (w_n_threads v)) (\<lambda>_. ?rest))))"
    by (simp add: freeing_def free_count_def bnd_assoc p(1) Let_def del: free_loop.simps)
  have rest: "solo ?J ?F ?rest t \<and> ?J z" if t: "?J t" "run ?rest t = Ok 0 z" for t
  proof -
    have s: "solo ?J ?F ?rest t"
    proof (rule solo_step [where I = ?J, OF _ _ t])
      show "blind ?F (if get_lock o' = 0 \<and> a \<noteq> get_struct o' then ?old else Ret 0)"
        by (intro quiet_progs quiet_simps blind_primitives) (simp_all add: framed_drifts)
      show "keeps ?J (if get_lock o' = 0 \<and> a \<noteq> get_struct o' then ?old else Ret 0)"
        by (intro quiet_progs quiet_simps keeps_primitives keeps_poised(1)) (simp_all add: resting_poised assms(3))
      show "solo ?J ?F (?L old) u" if "?J u" "run (?L old) u = Ok 0 z" for old u
        by (rule solo_free_loop [OF assms(1) that])
    qed
    with solo_end [OF s t(2)] show ?thesis by blast
  qed
  have add: "solo ?I ?F (bnd (entry_add_rc (x, j) (w_n_threads w)) (\<lambda>_. ?rest)) s \<and> ?J z"
    if r: "run (bnd (entry_add_rc (x, j) (w_n_threads w)) (\<lambda>_. ?rest)) s = Ok 0 z"
  proof -
    obtain t where t: "run (entry_add_rc (x, j) (w_n_threads w)) s = Ok () t" "run ?rest t = Ok 0 z"
      using r by (auto simp: run_bnd_Ok)
    note a = solo_add_rc [OF assms(1,2)]
    have ji: "?I u" if "?J u" for u using that unfolding poised_def by blast
    from rest [OF a(2) [OF t(1)] t(2)] have "solo ?J ?F ?rest t" "?J z" by blast+
    from solo_mono [where I = ?J and J = ?I, OF this(1) ji] this(2) have "solo ?I ?F ?rest t" "?J z" by blast+
    from solo_bnd [where g = "\<lambda>_. ?rest", OF a(1) t(1) this(1)] this(2) show ?thesis by blast
  qed
  have ld: "run (load_world a) s = Ok w s" using ct(1) wa by (simp add: exec)
  have le: "run (mulle_aba_world_get_timestampentry E th a (w_timestamp w)) s = Ok (Some (x, j)) s"
    using run_get_timestampentry_covered [OF ct(1) wa wf_world_shape [OF ct(3)] cv] ct(5) by simp
  note bl = lookup_quiet(1,2) and qe = lookup_quiet(3,4)
  have r: "run (bnd (entry_add_rc (x, j) (w_n_threads w)) (\<lambda>_. ?rest)) s = Ok 0 z"
    using assms(4) ld le unfolding fr by (simp add: run_bnd run_c_assert)
  then show "?J z" using add by blast
  have ca: "c_assert E (Some (x, j) \<noteq> None) = Ret ()" by (simp add: c_assert_def skip_def)
  show "solo ?I ?F (freeing E th g \<lparr>new_world_p = a, old_world_p = o'\<rparr> f ptr owner c) s"
    unfolding fr
    by (rule solo_known [where I = ?I, OF assms(4) [unfolded fr] bl i ld],
        rule solo_known [where I = ?I, OF _ qe i le], assumption)
      (use add [OF r] ca in simp)
qed

end
