(* ===== verification/Aba_Race.thy ===== *)
theory Aba_Race
  imports Aba_Drift
begin

text \<open>
  Check-ins that race with a free. A thread that frees a pointer installs a world with a new timestamp first and
  adds the references of all threads to the timestamp's count afterwards; in between, and while it
  puts the pointer on the list, other threads may already check in and decrement the count below
  zero. However the actions of these calls are interleaved, the outcome is that of calls made one
  after the other.
\<close>

section \<open>Single actions\<close>

definition leaving :: "tid \<Rightarrow> uptr \<Rightarrow> (mem, int) prog" where
  "leaving i v = bnd (tss_set i (v + 1)) (\<lambda>_. Ret 0)"

lemma leaving_Act:
  assumes "leaving i (w_timestamp w) = Act u k"
  shows "u (drift a w x j b d T s) = drift a w x j b d (insert i T) s" "k t = Ret 0"
    "i \<notin> T \<Longrightarrow> u s = s\<lparr>tss := (tss s)(i := w_timestamp w + 1)\<rparr>"
proof -
  have u: "u = (\<lambda>s. s\<lparr>tss := (tss s)(i := w_timestamp w + 1)\<rparr>)" "k = (\<lambda>_. Ret 0)"
    using assms by (auto simp: leaving_def tss_set_def modify_def)
  show "u (drift a w x j b d T s) = drift a w x j b d (insert i T) s"
    unfolding u by (rule mem.equality) (simp_all add: drift_def fun_eq_iff)
  show "k t = Ret 0" "i \<notin> T \<Longrightarrow> u s = s\<lparr>tss := (tss s)(i := w_timestamp w + 1)\<rparr>" by (simp_all add: u)
qed

lemma leaving_simps [simp]: "leaving i v \<noteq> Ret r" "leaving i v \<noteq> Crash e"
  by (simp_all add: leaving_def tss_set_def modify_def)

text \<open>The count, as it is stored, before and after the freeing thread has added the references.\<close>

lemma count_word:
  assumes "d < n" "n < 10000"
  shows "(- 1 - word_of_nat d :: uptr) \<noteq> 0" "(word_of_nat n - 1 - word_of_nat d :: uptr) = 0 \<longleftrightarrow> Suc d = n"
proof -
  have inj: "(word_of_nat a :: uptr) = word_of_nat b \<longleftrightarrow> a = b" if "a \<le> 10000" "b \<le> 10000" for a b
    using that by (simp add: word_of_nat_eq_iff take_bit_nat_eq_self)
  have m: "(- 1 - word_of_nat d :: uptr) = - word_of_nat (Suc d)" by simp
  have "(word_of_nat (Suc d) :: uptr) = word_of_nat 0 \<longleftrightarrow> Suc d = 0" by (rule inj) (use assms in simp_all)
  then show "(- 1 - word_of_nat d :: uptr) \<noteq> 0" unfolding m neg_equal_0_iff_equal semiring_1_class.of_nat_0 by blast
  have "(word_of_nat n - 1 - word_of_nat d :: uptr) = 0 \<longleftrightarrow> (word_of_nat n :: uptr) = word_of_nat (Suc d)"
    by (simp only: diff_diff_eq right_minus_eq of_nat_Suc)
  moreover have "(word_of_nat n :: uptr) = word_of_nat (Suc d) \<longleftrightarrow> n = Suc d" by (rule inj) (use assms in simp_all)
  ultimately show "(word_of_nat n - 1 - word_of_nat d :: uptr) = 0 \<longleftrightarrow> Suc d = n" by metis
qed

lemma giving_up_Act:
  assumes "contended E a w x j R" "poised a w x j S tr C s" "giving_up E f i x j (w_timestamp w) = Act u k"
  obtains r where "r \<in> C" "u (drift a w x j b d T s) = drift a w x j b (Suc d) T s"
    "k (drift a w x j b d T s) = (if r - word_of_nat d \<noteq> 0 then leaving i (w_timestamp w)
      else bnd (last_out E f x j) (\<lambda>_. leaving i (w_timestamp w)))"
proof -
  let ?s = "drift a w x j b d T s"
  obtain ts where ts: "stores s x = Some ts" "j < length (ts_entries ts)" "retain_count_1 (ts_entries ts ! j) \<in> C"
    using assms(2) by (auto simp: poised_def)
  have ds: "stores ?s x = Some (ts_upd j (\<lambda>y. y\<lparr>retain_count_1 := retain_count_1 y - word_of_nat d\<rparr>) ts)"
    using ts by (simp add: drift_def)
  have u: "u = (\<lambda>s. s\<lparr>stores := (stores s)(x := map_option (ts_upd j (\<lambda>y. y\<lparr>retain_count_1 := retain_count_1 y - 1\<rparr>)) (stores s x))\<rparr>)"
    and k: "k ?s = bnd (if retain_count_1 (ts_entries ts ! j) - word_of_nat d \<noteq> 0 then skip else last_out E f x j)
      (\<lambda>_. leaving i (w_timestamp w))"
    using assms(3) ds ts(2) contendedD(6) [OF assms(1)]
    by (auto simp: giving_up_def entry_decrement_rc_def entry_update_def check_ptr_def check_index_def leaving_def)
  have "u ?s = drift a w x j b (Suc d) T s"
    unfolding u by (rule mem.equality) (simp_all add: drift_def option.map_comp comp_def ts_upd_ts_upd algebra_simps)
  then show ?thesis using ts(3) k by (intro that) (auto simp: skip_def)
qed

text \<open>A thread on its way to the decrement reads, sets the bit, or has arrived.\<close>

lemma view_drift:
  assumes "poised a w x j S tr C s" "i \<in> S" "i \<notin> T" "k \<longrightarrow> b"
  shows "view a w i k (drift a w x j b d T s)"
  using assms by (auto simp: poised_def view_def)

lemma arriving_Act:
  assumes "contended E a w x j R" "poised a w x j S tr C s" "i \<in> S" "i \<notin> T" "k \<longrightarrow> b" "arriving a w i G k (Act u c)"
    and "t = drift a w x j b d T s"
  shows "G = Act u c \<and> b
    \<or> (\<exists>b' k'. u t = drift a w x j b' d T s \<and> (b \<longrightarrow> b') \<and> (k' \<longrightarrow> b') \<and> arriving a w i G k' (c t))"
proof -
  have v: "view a w i k t" unfolding assms(7) by (rule view_drift [OF assms(2-5)])
  have tb: "q_world (q t) = a OR 1 \<longrightarrow> b"
    using assms(2,7) contended_pointer(7) [OF assms(1)] by (auto simp: poised_def)
  have m: "set_q_world (a OR 1) t = drift a w x j True d T s"
    unfolding assms(7) by (rule mem.equality) (simp_all add: drift_def set_q_world_def)
  from assms(6) show ?thesis
  proof cases
    case arrived
    with assms(5) show ?thesis by auto
  next
    case reading
    with v obtain k' where "view a w i k' t" "arriving a w i G k' (c t)" by blast
    with tb reading show ?thesis using assms(7) by (intro disjI2 exI [of _ b] exI [of _ k']) (auto simp: view_def)
  next
    case marking
    from marking(1) [OF v] show ?thesis
    proof
      assume "u t = t \<and> view a w i True t"
      with tb marking(2) [OF v] show ?thesis using assms(7) by (intro disjI2 exI [of _ b] exI [of _ True]) (auto simp: view_def)
    next
      assume "u t = set_q_world (a OR 1) t"
      with m marking(2) [OF v] show ?thesis by (intro disjI2 exI [of _ True]) auto
    qed
  qed
qed

section \<open>The last thread\<close>

definition away :: "world \<Rightarrow> tid set \<Rightarrow> mem \<Rightarrow> mem" where
  "away w T s = s\<lparr>tss := (\<lambda>i. if i \<in> T then w_timestamp w + 1 else tss s i)\<rparr>"

definition aways :: "world \<Rightarrow> tid \<Rightarrow> (mem \<Rightarrow> mem) \<Rightarrow> bool" where
  "aways w l f \<longleftrightarrow> (\<exists>T. l \<notin> T \<and> f = away w T)"

lemma framed_aways: "aways w l f \<Longrightarrow> framed f"
  unfolding aways_def framed_def by (auto simp: away_def live_def fun_eq_iff)

lemma drift_away: "drift a w x j b d T s = away w T (drift a w x j b d {} s)"
  by (rule mem.equality) (simp_all add: drift_def away_def cong: if_cong)

lemma away_stores:
  "stores (away w T s) = stores s" "nops (away w T s) = nops s" "trace (away w T s) = trace s"
  "away w T (s\<lparr>stores := S\<rparr>) = (away w T s)\<lparr>stores := S\<rparr>"
  "away w T (s\<lparr>nops := m\<rparr>) = (away w T s)\<lparr>nops := m\<rparr>"
  by (simp_all add: away_def cong: if_cong)

lemma blind_set_usage_bit: "blind (aways w l) (mulle_aba_timestampstorage_set_usage_bit E f x i b)"
proof (induction f)
  case (Suc f)
  have "blind (aways w l) (load_ts x)"
    by (auto simp: load_ts_def aways_def away_stores check_ptr_def split: option.splits)
  moreover have "blind (aways w l) (weakcas_usage E x n m)" for n m
    unfolding weakcas_usage_def
    by (rule blind_ActI) (auto simp: aways_def away_stores check_ptr_def split: option.splits)
  ultimately show ?case
    unfolding mulle_aba_timestampstorage_set_usage_bit.simps Let_def by (intro quiet_progs quiet_simps Suc) (simp_all add: Suc)
qed simp

lemma blind_last_out: "blind (aways w l) (last_out E f x j)"
proof -
  have "blind (aways w l) (entry_update e g)" for e g
    unfolding entry_update_def by (rule blind_ActI) (auto simp: aways_def away_stores check_ptr_def check_index_def split: option.splits)
  then have "blind (aways w l) (entry_get_list e)" "blind (aways w l) (entry_clear_list e)" for e
    unfolding entry_get_list_def entry_clear_list_def by (simp_all add: blind_bnd del: split_paired_All)
  then show ?thesis
    unfolding last_out_def by (intro quiet_progs blind_set_usage_bit blind_linkedlist_free) (auto intro: framed_aways)
qed

lemma blind_tail: "blind (aways w l) (bnd (last_out E f x j) (\<lambda>_. leaving l v))"
proof (rule blind_bnd [OF blind_last_out])
  show "blind (aways w l) (leaving l v)"
    unfolding leaving_def tss_set_def modify_def
    by (intro quiet_progs blind_ActI) (auto simp: aways_def away_def fun_eq_iff)
qed

section \<open>The threads that check in\<close>

text \<open>Of the threads \<open>M\<close>, those of \<open>D\<close> have given up their reference and those of \<open>T\<close> have returned.\<close>

definition crew :: "ext \<Rightarrow> nat \<Rightarrow> uptr \<Rightarrow> world \<Rightarrow> uptr \<Rightarrow> nat \<Rightarrow> tid set \<Rightarrow> tid set \<Rightarrow> tid set \<Rightarrow> bool \<Rightarrow> (tid \<Rightarrow> (mem, int) prog) \<Rightarrow> bool" where
  "crew E f a w x j M D T b P \<longleftrightarrow> (\<forall>i \<in> M. if i \<in> T then P i = Ret 0 else if i \<in> D then P i = leaving i (w_timestamp w)
     else (\<exists>k. (k \<longrightarrow> b) \<and> arriving a w i (giving_up E f i x j (w_timestamp w)) k (P i)))"

lemma crewD:
  assumes "crew E f a w x j M D T b P" "i \<in> M"
  shows "i \<in> T \<Longrightarrow> P i = Ret 0" "i \<notin> T \<Longrightarrow> i \<in> D \<Longrightarrow> P i = leaving i (w_timestamp w)"
    "i \<notin> T \<Longrightarrow> i \<notin> D \<Longrightarrow> \<exists>k. (k \<longrightarrow> b) \<and> arriving a w i (giving_up E f i x j (w_timestamp w)) k (P i)"
  using assms unfolding crew_def by metis+

text \<open>After one of them has moved.\<close>

lemma crew_moved:
  assumes "crew E f a w x j M D T b P" "b \<longrightarrow> b'" "\<And>l. l \<noteq> i \<Longrightarrow> (l \<in> D' \<longleftrightarrow> l \<in> D) \<and> (l \<in> T' \<longleftrightarrow> l \<in> T)"
    and "if i \<in> T' then p = Ret 0 else if i \<in> D' then p = leaving i (w_timestamp w)
      else (\<exists>k. (k \<longrightarrow> b') \<and> arriving a w i (giving_up E f i x j (w_timestamp w)) k p)"
  shows "crew E f a w x j M D' T' b' (P(i := p))"
  unfolding crew_def
proof
  fix l assume l: "l \<in> M"
  show "if l \<in> T' then (P(i := p)) l = Ret 0 else if l \<in> D' then (P(i := p)) l = leaving l (w_timestamp w)
      else (\<exists>k. (k \<longrightarrow> b') \<and> arriving a w l (giving_up E f l x j (w_timestamp w)) k ((P(i := p)) l))"
  proof (cases "l = i")
    case True
    with assms(4) show ?thesis by simp
  next
    case False
    with crewD [OF assms(1) l] assms(2,3) show ?thesis by (auto split: if_splits)
  qed
qed

definition crewed :: "ext \<Rightarrow> nat \<Rightarrow> uptr \<Rightarrow> world \<Rightarrow> uptr \<Rightarrow> nat \<Rightarrow> tid set \<Rightarrow> tid set \<Rightarrow> mem \<Rightarrow> (tid \<Rightarrow> (mem, int) prog) \<Rightarrow> mem \<Rightarrow> bool" where
  "crewed E f a w x j R M B P s \<longleftrightarrow> (\<exists>b D T. s = drift a w x j b (card D) T B \<and> crew E f a w x j M D T b P
     \<and> T \<subseteq> D \<and> D \<subseteq> M \<and> D \<noteq> R \<and> (D \<noteq> {} \<longrightarrow> b) \<and> (b \<longrightarrow> M \<noteq> {}))"

lemma crewedI:
  assumes "s = drift a w x j b (card D) T B" "crew E f a w x j M D T b P" "T \<subseteq> D" "D \<subseteq> M" "D \<noteq> R" "D \<noteq> {} \<longrightarrow> b" "b \<longrightarrow> M \<noteq> {}"
  shows "crewed E f a w x j R M B P s"
  using assms unfolding crewed_def by blast

text \<open>Every action of one of them keeps this up, unless the last reference is given up.\<close>

lemma crewed_step:
  assumes ct: "contended E a w x j R" and po: "poised a w x j S tr C B" and C: "C \<subseteq> {- 1, word_of_nat (card R) - 1}"
    and cr: "crewed E f a w x j R M B P s" and i: "i \<in> M" "P i = Act u c" and M: "M \<subseteq> R" "M = R \<longrightarrow> - 1 \<notin> C" "M \<subseteq> S"
  shows "crewed E f a w x j R M B (P(i := c s)) (u s)
    \<or> (M = R \<and> (\<exists>T. T \<subseteq> R - {i} \<and> u s = drift a w x j True (card R) T B
        \<and> c s = bnd (last_out E f x j) (\<lambda>_. leaving i (w_timestamp w))
        \<and> (\<forall>l \<in> R - {i}. P l = (if l \<in> T then Ret 0 else leaving l (w_timestamp w)))))"
proof -
  note cd = contendedD [OF ct]
  obtain b D T where s: "s = drift a w x j b (card D) T B" and cw: "crew E f a w x j M D T b P"
    and TD: "T \<subseteq> D" "D \<subseteq> M" "D \<noteq> R" "D \<noteq> {} \<longrightarrow> b" "b \<longrightarrow> M \<noteq> {}"
    using cr unfolding crewed_def by blast
  have fin: "finite D" using TD(2) M(1) cd(10) by (meson finite_subset)
  have D: "card D < card R" using TD(2,3) M(1) by (intro psubset_card_mono [OF cd(10)]) blast
  consider "i \<in> D" "i \<notin> T" | "i \<notin> D" "i \<notin> T" using crewD(1) [OF cw i(1)] i(2) by force
  then show ?thesis
  proof cases
    case 1
    then have "leaving i (w_timestamp w) = Act u c" using crewD(2) [OF cw i(1)] i(2) by simp
    note l = leaving_Act [OF this]
    have "u s = drift a w x j b (card D) (insert i T) B" unfolding s by (rule l(1))
    moreover have "crew E f a w x j M D (insert i T) b (P(i := c s))" by (rule crew_moved [OF cw]) (use l(2) in auto)
    ultimately show ?thesis using TD 1 by (intro disjI1 crewedI [of _ _ _ _ _ b D "insert i T"]) auto
  next
    case 2
    then obtain k where k: "k \<longrightarrow> b" "arriving a w i (giving_up E f i x j (w_timestamp w)) k (Act u c)"
      using crewD(3) [OF cw i(1)] i(2) by auto
    from arriving_Act [OF ct po _ 2(2) k s] i(1) M(3) consider
      "giving_up E f i x j (w_timestamp w) = Act u c" b
      | b' k' where "u s = drift a w x j b' (card D) T B" "b \<longrightarrow> b'" "k' \<longrightarrow> b'"
        "arriving a w i (giving_up E f i x j (w_timestamp w)) k' (c s)" by blast
    then show ?thesis
    proof cases
      case b': 2
      have "crew E f a w x j M D T b' (P(i := c s))" by (rule crew_moved [OF cw b'(2)]) (use b' 2 in auto)
      then show ?thesis using b' TD i(1) by (intro disjI1 crewedI [of _ _ _ _ _ b' D T]) auto
    next
      case g: 1
      obtain r where r: "r \<in> C" "u s = drift a w x j b (Suc (card D)) T B"
        "c s = (if r - word_of_nat (card D) \<noteq> 0 then leaving i (w_timestamp w)
          else bnd (last_out E f x j) (\<lambda>_. leaving i (w_timestamp w)))"
        unfolding s by (rule giving_up_Act [OF ct po g(1)])
      have cI: "card (insert i D) = Suc (card D)" using fin 2(1) by simp
      note cw' = count_word [OF D cd(12)]
      have z: "r - word_of_nat (card D) = 0 \<longleftrightarrow> insert i D = R \<and> M = R"
      proof -
        have "insert i D = R \<longleftrightarrow> Suc (card D) = card R"
          using cI card_subset_eq [OF cd(10), of "insert i D"] i(1) TD(2) M(1) by auto
        moreover have "insert i D = R \<longrightarrow> M = R" using i(1) TD(2) M(1) by blast
        moreover have "M = R \<longrightarrow> r \<noteq> - 1" using M(2) r(1) by blast
        moreover have "r = - 1 \<or> r = word_of_nat (card R) - 1" using r(1) C by blast
        ultimately show ?thesis using cw' by metis
      qed
      show ?thesis
      proof (cases "insert i D = R \<and> M = R")
        case True
        have "\<forall>l \<in> R - {i}. P l = (if l \<in> T then Ret 0 else leaving l (w_timestamp w))"
          using crewD(1,2) [OF cw] True by auto
        moreover have "T \<subseteq> R - {i}" using TD(1,2) 2 M(1) by blast
        ultimately show ?thesis using True r(2,3) z g(2) cI by (intro disjI2 conjI exI [of _ T]) simp_all
      next
        case False
        have "crew E f a w x j M (insert i D) T b (P(i := c s))" by (rule crew_moved [OF cw]) (use r(3) z False 2 in auto)
        moreover have "insert i D \<noteq> R" using False i(1) TD(2) M(1) by blast
        ultimately show ?thesis using r(2) cI TD i(1) g(2) by (intro disjI1 crewedI [of _ _ _ _ _ b "insert i D" T]) auto
      qed
    qed
  qed
qed

section \<open>The pool\<close>

text \<open>The freeing thread \<open>f0\<close> is still busy with its free; \<open>z\<close> is the memory it would leave alone, \<open>K\<close> what it does next.\<close>

definition busy :: "ext \<Rightarrow> nat \<Rightarrow> uptr \<Rightarrow> world \<Rightarrow> uptr \<Rightarrow> nat \<Rightarrow> tid set \<Rightarrow> event list \<Rightarrow> tid set \<Rightarrow> tid \<Rightarrow> (mem, int) prog \<Rightarrow> mem
    \<Rightarrow> (tid \<Rightarrow> (mem, int) prog) \<Rightarrow> mem \<Rightarrow> bool" where
  "busy E f a w x j R tr S f0 K z P s \<longleftrightarrow> (\<exists>B u k. P f0 = bnd (Act u k :: (mem, int) prog) (\<lambda>_. K)
     \<and> run (Act u k :: (mem, int) prog) B = Ok 0 z
     \<and> solo (poised a w x j S tr {- 1, word_of_nat (card R) - 1}) (drifts a w x j) (Act u k :: (mem, int) prog) B
     \<and> crewed E f a w x j R (S - {f0}) B P s \<and> (\<forall>i. i \<notin> S \<union> {f0} \<longrightarrow> P i = Ret 0))"

text \<open>All references have been given up, by \<open>l\<close> last; \<open>l\<close> frees what was waiting, while others return.\<close>

definition closing :: "ext \<Rightarrow> nat \<Rightarrow> uptr \<Rightarrow> world \<Rightarrow> uptr \<Rightarrow> nat \<Rightarrow> tid set \<Rightarrow> mem \<Rightarrow> (tid \<Rightarrow> (mem, int) prog) \<Rightarrow> mem \<Rightarrow> bool" where
  "closing E f a w x j R z P s \<longleftrightarrow> (\<exists>l T C Z. l \<in> R \<and> T \<subseteq> R - {l} \<and> s = away w T C
     \<and> solo (\<lambda>_. True) (aways w l) (P l) C \<and> run (P l) C = Ok 0 Z
     \<and> run (bnd (last_out E f x j) (\<lambda>_. leaving l (w_timestamp w))) (drift a w x j True (card R) {} z) = Ok 0 Z
     \<and> (\<forall>i \<in> R - {l}. P i = (if i \<in> T then Ret 0 else leaving i (w_timestamp w))) \<and> (\<forall>i. i \<notin> R \<longrightarrow> P i = Ret 0))"

definition racing :: "ext \<Rightarrow> nat \<Rightarrow> uptr \<Rightarrow> world \<Rightarrow> uptr \<Rightarrow> nat \<Rightarrow> tid set \<Rightarrow> event list \<Rightarrow> tid set \<Rightarrow> tid \<Rightarrow> (mem, int) prog \<Rightarrow> mem
    \<Rightarrow> (tid \<Rightarrow> (mem, int) prog) \<Rightarrow> mem \<Rightarrow> bool" where
  "racing E f a w x j R tr S f0 K z P s \<longleftrightarrow> busy E f a w x j R tr S f0 K z P s
     \<or> (crewed E f a w x j R S z P s \<and> (\<forall>i. i \<notin> S \<longrightarrow> P i = Ret 0))
     \<or> (S = R \<and> closing E f a w x j R z P s)"

lemma crewed_others:
  assumes "crewed E f a w x j R M B P s" "i \<notin> M" "\<And>b d T. s = drift a w x j b d T B \<Longrightarrow> t = drift a w x j b d T B'"
  shows "crewed E f a w x j R M B' (P(i := p)) t"
proof -
  have "(P(i := p)) l = P l" if "l \<in> M" for l using that assms(2) by auto
  then have c: "crew E f a w x j M D T b (P(i := p)) = crew E f a w x j M D T b P" for D T b
    unfolding crew_def by (intro ball_cong refl) (simp only:)
  obtain b D T where d: "s = drift a w x j b (card D) T B" "crew E f a w x j M D T b P" "T \<subseteq> D" "D \<subseteq> M"
    "D \<noteq> R" "D \<noteq> {} \<longrightarrow> b" "b \<longrightarrow> M \<noteq> {}" using assms(1) unfolding crewed_def by blast
  show ?thesis by (rule crewedI [OF assms(3) [OF d(1)] _ d(3-7)]) (simp only: c d(2))
qed

text \<open>The thread that frees joins the others.\<close>

lemma crewed_join:
  assumes "crewed E f a w x j R (S - {f0}) B P s"
    and "if f0 \<in> S then arriving a w f0 (giving_up E f f0 x j (w_timestamp w)) False (P f0) else P f0 = Ret 0"
  shows "crewed E f a w x j R S B P s"
proof -
  obtain b D T where d: "s = drift a w x j b (card D) T B" "crew E f a w x j (S - {f0}) D T b P" "T \<subseteq> D" "D \<subseteq> S - {f0}"
    "D \<noteq> R" "D \<noteq> {} \<longrightarrow> b" "b \<longrightarrow> S - {f0} \<noteq> {}" using assms(1) unfolding crewed_def by blast
  have "crew E f a w x j S D T b P"
    unfolding crew_def
  proof
    fix i assume i: "i \<in> S"
    show "if i \<in> T then P i = Ret 0 else if i \<in> D then P i = leaving i (w_timestamp w)
      else (\<exists>k. (k \<longrightarrow> b) \<and> arriving a w i (giving_up E f i x j (w_timestamp w)) k (P i))"
    proof (cases "i = f0")
      case True
      then have n: "i \<notin> T" "i \<notin> D" using d(3,4) by blast+
      have "arriving a w i (giving_up E f i x j (w_timestamp w)) False (P i)" using True i assms(2) by simp
      then show ?thesis unfolding if_not_P [OF n(1)] if_not_P [OF n(2)] by (intro exI [of _ False]) simp
    next
      case False
      then show ?thesis using d(2) [unfolded crew_def] i by blast
    qed
  qed
  with d show ?thesis by (intro crewedI [of _ _ _ _ _ b D T]) auto
qed

text \<open>Every action of any thread keeps the race going as described.\<close>

lemma busy_step:
  assumes ct: "contended E a w x j R" and po: "poised a w x j S tr {word_of_nat (card R) - 1} z"
    and f0: "f0 \<in> R" "S \<subseteq> R" and f: "f = Suc (Suc g)"
    and K: "K = (if f0 \<in> S then mulle_aba_checkin_current_thread E f0 f else Ret 0)"
    and b: "busy E f a w x j R tr S f0 K z P s" and th: "P th = Act u c"
  shows "racing E f a w x j R tr S f0 K z (P(th := c s)) (u s)"
proof -
  let ?I = "poised a w x j S tr {- 1, word_of_nat (card R) - 1}" and ?F = "drifts a w x j"
  obtain B v k where pf: "P f0 = bnd (Act v k :: (mem, int) prog) (\<lambda>_. K)" and r: "run (Act v k :: (mem, int) prog) B = Ok 0 z"
    and so: "solo ?I ?F (Act v k :: (mem, int) prog) B" and cr: "crewed E f a w x j R (S - {f0}) B P s"
    and q: "\<And>i. i \<notin> S \<union> {f0} \<Longrightarrow> P i = Ret 0" using b unfolding busy_def by blast
  show ?thesis
  proof (cases "th = f0")
    case False
    then have i: "th \<in> S - {f0}" using q [of th] th by auto
    have "crewed E f a w x j R (S - {f0}) B (P(th := c s)) (u s)"
      using crewed_step [OF ct solo_I [OF so] _ cr i th] f0 by blast
    then have "busy E f a w x j R tr S f0 K z (P(th := c s)) (u s)"
      unfolding busy_def using pf r so q i False by (intro exI [of _ B] exI [of _ v] exI [of _ k]) auto
    then show ?thesis by (simp add: racing_def)
  next
    case True
    obtain e d T where s: "s = drift a w x j e d T B" using cr unfolding crewed_def by blast
    have uc: "u = v" "c = (\<lambda>s. bnd (k s) (\<lambda>_. K))" using th pf True by simp_all
    have mv: "k (drift a w x j e d T B) = k B" "v (drift a w x j e d T B) = drift a w x j e d T (v B)" for e d T
      using so by (auto simp: drifts_def)
    have cs: "c s = bnd (k B) (\<lambda>_. K)" using uc s mv by simp
    have cr': "crewed E f a w x j R (S - {f0}) (v B) (P(f0 := c s)) (u s)"
      by (rule crewed_others [OF cr]) (use uc mv in simp_all)
    have so': "solo ?I ?F (k B) (v B)" and r': "run (k B) (v B) = Ok 0 z" using so r by simp_all
    show ?thesis
    proof (cases "k B")
      case (Ret y)
      then have "v B = z" "c s = K" using r' cs by simp_all
      moreover have "if f0 \<in> S then arriving a w f0 (giving_up E f f0 x j (w_timestamp w)) False K else K = Ret 0"
        using arriving_checkin [OF ct] K f by simp
      ultimately have "crewed E f a w x j R S z (P(f0 := c s)) (u s)"
        using crewed_join [OF cr'] by simp
      moreover have "\<forall>i. i \<notin> S \<longrightarrow> (P(f0 := c s)) i = Ret 0" using q K \<open>c s = K\<close> by simp
      ultimately show ?thesis using True by (simp add: racing_def)
    next
      case (Act u' k')
      then have "busy E f a w x j R tr S f0 K z (P(f0 := c s)) (u s)"
        unfolding busy_def using cr' so' r' cs q by (intro exI [of _ "v B"] exI [of _ u'] exI [of _ k']) simp
      then show ?thesis using True by (simp add: racing_def)
    qed (use so' in simp)
  qed
qed

lemma closing_step:
  assumes "closing E f a w x j R z P s" "P th = Act u c"
  shows "closing E f a w x j R z (P(th := c s)) (u s)"
proof -
  obtain l T C Z where l: "l \<in> R" "T \<subseteq> R - {l}" "s = away w T C"
    and so: "solo (\<lambda>_. True) (aways w l) (P l) C" "run (P l) C = Ok 0 Z"
    and Z: "run (bnd (last_out E f x j) (\<lambda>_. leaving l (w_timestamp w))) (drift a w x j True (card R) {} z) = Ok 0 Z"
    and o: "\<And>i. i \<in> R - {l} \<Longrightarrow> P i = (if i \<in> T then Ret 0 else leaving i (w_timestamp w))" "\<And>i. i \<notin> R \<Longrightarrow> P i = Ret 0"
    using assms(1) unfolding closing_def by blast
  show ?thesis
  proof (cases "th = l")
    case True
    have "aways w l (away w T)" using l(2) by (auto simp: aways_def)
    then have "c s = c C" "u s = away w T (u C)" using so(1) assms(2) True l(3) by auto
    then show ?thesis
      unfolding closing_def using l(1,2) so Z o True assms(2)
      by (intro exI [of _ l] exI [of _ T] exI [of _ "u C"] exI [of _ Z]) simp
  next
    case False
    then have th: "th \<in> R - {l}" using o(2) [of th] assms(2) by auto
    then have T: "th \<notin> T" and lv: "leaving th (w_timestamp w) = Act u c" using o(1) [of th] assms(2) by (auto split: if_splits)
    have "u s = away w (insert th T) C"
      unfolding leaving_Act(3) [OF lv T] l(3) by (rule mem.equality) (simp_all add: away_def fun_eq_iff)
    moreover have "c s = Ret 0" by (rule leaving_Act(2) [OF lv])
    ultimately show ?thesis
      unfolding closing_def using l(1,2) so Z o False th
      by (intro exI [of _ l] exI [of _ "insert th T"] exI [of _ C] exI [of _ Z]) auto
  qed
qed

lemma racing_step:
  assumes ct: "contended E a w x j R" and po: "poised a w x j S tr {word_of_nat (card R) - 1} z"
    and f0: "f0 \<in> R" "S \<subseteq> R" and f: "f = Suc (Suc g)"
    and K: "K = (if f0 \<in> S then mulle_aba_checkin_current_thread E f0 f else Ret 0)"
    and H: "\<And>l. S = R \<Longrightarrow> l \<in> R \<Longrightarrow> \<exists>Z. run (bnd (last_out E f x j) (\<lambda>_. leaving l (w_timestamp w))) (drift a w x j True (card R) {} z) = Ok 0 Z"
    and r: "racing E f a w x j R tr S f0 K z P s" and th: "P th = Act u c"
  shows "racing E f a w x j R tr S f0 K z (P(th := c s)) (u s)"
proof -
  consider "busy E f a w x j R tr S f0 K z P s" | "S = R" "closing E f a w x j R z P s"
    | "crewed E f a w x j R S z P s" "\<forall>i. i \<notin> S \<longrightarrow> P i = Ret 0" using r unfolding racing_def by blast
  then show ?thesis
  proof cases
    case 1
    show ?thesis by (rule busy_step [OF ct po f0 f K 1 th])
  next
    case 2
    then show ?thesis using closing_step [OF 2(2) th] by (simp add: racing_def)
  next
    case 3
    note cr = 3(1) and q = 3(2)
    have i: "th \<in> S" using q th by auto
    have n: "(word_of_nat (card R) - 1 :: uptr) \<noteq> - 1"
      using contendedD(11,12) [OF ct] by (auto simp: word_of_nat_eq_0_iff dest!: dvd_imp_le)
    from crewed_step [OF ct po _ cr i th f0(2) _ order.refl] n consider
      "crewed E f a w x j R S z (P(th := c s)) (u s)"
      | T where "S = R" "T \<subseteq> R - {th}" "u s = drift a w x j True (card R) T z"
        "c s = bnd (last_out E f x j) (\<lambda>_. leaving th (w_timestamp w))"
        "\<forall>l \<in> R - {th}. P l = (if l \<in> T then Ret 0 else leaving l (w_timestamp w))" by auto
    then show ?thesis
    proof cases
      case 1
      then show ?thesis using q i by (auto simp: racing_def)
    next
      case 2
      let ?C = "drift a w x j True (card R) {} z"
      obtain Z where Z: "run (c s) ?C = Ok 0 Z" using H [OF 2(1)] i 2(1,4) by auto
      have "solo (\<lambda>_. True) (aways w th) (c s) ?C"
        by (rule solo_quiet [OF _ _ _ Z]) (simp_all add: 2(4) blind_tail del: blind.simps)
      moreover have "u s = away w T ?C" unfolding 2(3) by (rule drift_away)
      ultimately have "closing E f a w x j R z (P(th := c s)) (u s)"
        unfolding closing_def using 2 i q Z
        by (intro exI [of _ th] exI [of _ T] exI [of _ ?C] exI [of _ Z]) auto
      with 2(1) show ?thesis by (simp add: racing_def)
    qed
  qed
qed

section \<open>How the race ends\<close>

lemma crew_sound:
  assumes "crew E f a w x j M D T b P" "i \<in> M"
  shows "P i \<noteq> Crash e" "P i = Ret r \<Longrightarrow> i \<in> T"
proof -
  have g: "giving_up E f i x j v \<noteq> Ret r" for v r
    by (simp add: giving_up_def entry_decrement_rc_def entry_update_def)
  note c = crewD [OF assms]
  show "P i \<noteq> Crash e"
    using c by (cases "i \<in> T"; cases "i \<in> D") (auto elim: arriving_CrashE simp: giving_up_def entry_decrement_rc_def entry_update_def)
  show "i \<in> T" if "P i = Ret r"
  proof (rule ccontr)
    assume "i \<notin> T"
    with c(2,3) that show False by (cases "i \<in> D") (auto elim!: arriving_RetE simp: leaving_simps(1) [symmetric] g [symmetric])
  qed
qed

lemma racing_safe:
  assumes "racing E f a w x j R tr S f0 K z P s"
  shows "P i \<noteq> Crash e"
proof -
  consider (b) "busy E f a w x j R tr S f0 K z P s" | (d) "closing E f a w x j R z P s"
    | (c) "crewed E f a w x j R S z P s" "\<forall>i. i \<notin> S \<longrightarrow> P i = Ret 0" using assms unfolding racing_def by blast
  then show ?thesis
  proof cases
    case b
    then obtain B u k where "P f0 = bnd (Act u k :: (mem, int) prog) (\<lambda>_. K)" "crewed E f a w x j R (S - {f0}) B P s"
      "\<And>i. i \<notin> S \<union> {f0} \<Longrightarrow> P i = Ret 0" unfolding busy_def by blast
    then show ?thesis by (cases "i = f0"; cases "i \<in> S") (auto simp: crewed_def dest: crew_sound(1))
  next
    case c
    then show ?thesis by (cases "i \<in> S") (auto simp: crewed_def dest: crew_sound(1))
  next
    case d
    then obtain l T C where "solo (\<lambda>_. True) (aways w l) (P l) C" "l \<in> R" "\<And>i. i \<notin> R \<Longrightarrow> P i = Ret 0"
      "\<And>i. i \<in> R - {l} \<Longrightarrow> P i = (if i \<in> T then Ret 0 else leaving i (w_timestamp w))" unfolding closing_def by blast
    then show ?thesis by (cases "i = l"; cases "i \<in> R") auto
  qed
qed

lemma racing_trace:
  assumes "racing E f a w x j R tr S f0 K z P s" "poised a w x j S tr C z" "S \<noteq> R"
  shows "trace s = tr"
proof -
  consider (b) "busy E f a w x j R tr S f0 K z P s" | (c) "crewed E f a w x j R S z P s"
    using assms(1,3) unfolding racing_def by blast
  then show ?thesis
  proof cases
    case b
    then obtain B u k where "solo (poised a w x j S tr {- 1, word_of_nat (card R) - 1}) (drifts a w x j) (Act u k :: (mem, int) prog) B"
      "crewed E f a w x j R (S - {f0}) B P s" unfolding busy_def by blast
    with solo_I [OF this(1)] show ?thesis by (auto simp: crewed_def poised_def)
  next
    case c
    with assms(2) show ?thesis by (auto simp: crewed_def poised_def)
  qed
qed

lemma racing_end:
  assumes "racing E f a w x j R tr S f0 K z P s" "\<And>i. \<exists>r. P i = Ret r"
  shows "S \<noteq> R \<and> s = drift a w x j (S \<noteq> {}) (card S) S z
    \<or> S = R \<and> (\<exists>l \<in> R. \<exists>Z. s = away w (R - {l}) Z
        \<and> run (bnd (last_out E f x j) (\<lambda>_. leaving l (w_timestamp w))) (drift a w x j True (card R) {} z) = Ok 0 Z)"
proof -
  consider (b) "busy E f a w x j R tr S f0 K z P s" | (d) "S = R" "closing E f a w x j R z P s"
    | (c) "crewed E f a w x j R S z P s" using assms(1) unfolding racing_def by blast
  then show ?thesis
  proof cases
    case b
    then obtain u k where "P f0 = bnd (Act u k :: (mem, int) prog) (\<lambda>_. K)" unfolding busy_def by blast
    then show ?thesis using assms(2) [of f0] by simp
  next
    case c
    then obtain b D T where d: "s = drift a w x j b (card D) T z" "crew E f a w x j S D T b P" "T \<subseteq> D" "D \<subseteq> S"
      "D \<noteq> R" "D \<noteq> {} \<longrightarrow> b" "b \<longrightarrow> S \<noteq> {}" unfolding crewed_def by blast
    have "S \<subseteq> T" using crew_sound(2) [OF d(2)] assms(2) by blast
    then have "T = S" "D = S" using d(3,4) by blast+
    moreover from this have "b = (S \<noteq> {})" using d(6,7) by blast
    ultimately show ?thesis using d(1,5) by simp
  next
    case d
    then obtain l T C Z where l: "l \<in> R" "T \<subseteq> R - {l}" "s = away w T C" "run (P l) C = Ok 0 Z"
      "run (bnd (last_out E f x j) (\<lambda>_. leaving l (w_timestamp w))) (drift a w x j True (card R) {} z) = Ok 0 Z"
      and o: "\<And>i. i \<in> R - {l} \<Longrightarrow> P i = (if i \<in> T then Ret 0 else leaving i (w_timestamp w))" unfolding closing_def by blast
    have "R - {l} \<subseteq> T" using o assms(2) by (metis leaving_simps(1) subsetI)
    with l(2) have T: "T = R - {l}" by blast
    have "C = Z" using l(4) assms(2) [of l] by auto
    with d(1) l T show ?thesis by blast
  qed
qed

end
