(* ===== verification/Aba_Concurrent.thy ===== *)
theory Aba_Concurrent
  imports Aba_Race
begin

text \<open>
  Calls that race and calls made one after the other: what a sequence of check-ins leaves behind is what
  any interleaving of them, and of the rest of a free, ends with (\<open>race_ends\<close>).
\<close>

section \<open>One call after the other\<close>

lemma checkin_drift:
  assumes ct: "contended E a w x j R" and po: "poised a w x j S tr {word_of_nat (card R) - 1} z"
    and i: "i \<in> S" "i \<notin> T" "d < card R"
  shows "run (mulle_aba_checkin_current_thread E i (Suc (Suc g))) (drift a w x j b d T z)
    = run (if Suc d = card R then bnd (last_out E (Suc (Suc g)) x j) (\<lambda>_. leaving i (w_timestamp w)) else leaving i (w_timestamp w))
        (drift a w x j True (Suc d) T z)"
proof -
  let ?G = "giving_up E (Suc (Suc g)) i x j (w_timestamp w)"
  have v: "view a w i False (drift a w x j b d T z)" by (rule view_drift [OF po i(1,2)]) simp
  have m: "set_q_world (a OR 1) (drift a w x j b d T z) = drift a w x j True d T z"
    by (rule mem.equality) (simp_all add: drift_def set_q_world_def)
  obtain u c where G: "?G = Act u c" by (simp add: giving_up_def entry_decrement_rc_def entry_update_def)
  obtain r :: uptr where r: "r \<in> {word_of_nat (card R) - 1}" "u (drift a w x j True d T z) = drift a w x j True (Suc d) T z"
    "c (drift a w x j True d T z) = (if r - word_of_nat d \<noteq> 0 then leaving i (w_timestamp w)
      else bnd (last_out E (Suc (Suc g)) x j) (\<lambda>_. leaving i (w_timestamp w)))"
    by (rule giving_up_Act [OF ct po G, where b = True and d = d and T = T])
  have "r - word_of_nat d = 0 \<longleftrightarrow> Suc d = card R" using r(1) count_word(2) [OF i(3) contendedD(12) [OF ct]] by simp
  moreover have "run ?G (drift a w x j True d T z) = run (c (drift a w x j True d T z)) (drift a w x j True (Suc d) T z)"
    unfolding G using r(2) by simp
  ultimately show ?thesis
    using arriving_run [OF arriving_checkin [OF ct] v] m r(3) by simp
qed

lemma run_leaving: "run (leaving i (w_timestamp w)) (drift a w x j b d T z) = Ok 0 (drift a w x j b d (insert i T) z)"
proof -
  obtain u k where l: "leaving i (w_timestamp w) = Act u k" by (simp add: leaving_def tss_set_def modify_def)
  show ?thesis using leaving_Act(1,2) [OF l] l by simp
qed

text \<open>Check-ins of some threads, and of all of them.\<close>

lemma checkins_drift:
  assumes ct: "contended E a w x j R" and po: "poised a w x j S tr {word_of_nat (card R) - 1} z" and S: "S \<subseteq> R"
  shows "runs (api_step E (Suc (Suc g))) (drift a w x j b (card T) T z) (map Checkin L) u \<Longrightarrow> distinct L \<Longrightarrow> set L \<subseteq> S - T \<Longrightarrow>
    T \<subseteq> S \<Longrightarrow> card T + length L < card R \<Longrightarrow> u = drift a w x j (b \<or> L \<noteq> []) (card T + length L) (T \<union> set L) z"
proof (induction L arbitrary: b T)
  case Nil
  then show ?case by (auto elim: runs_NilE)
next
  case (Cons i L)
  have fin: "finite T" using Cons.prems(4) S contendedD(10) [OF ct] by (meson finite_subset)
  have i: "i \<in> S" "i \<notin> T" using Cons.prems(3) by auto
  have d: "card T < card R" "Suc (card T) \<noteq> card R" using Cons.prems(5) by simp_all
  from Cons.prems(1) obtain v where v: "api_step E (Suc (Suc g)) (drift a w x j b (card T) T z) (Checkin i) v"
    "runs (api_step E (Suc (Suc g))) v (map Checkin L) u" by (auto elim: runs_ConsE)
  have "v = drift a w x j True (card (insert i T)) (insert i T) z"
    using v(1) checkin_drift [OF ct po i d(1), of g b] d(2) fin i(2) by (auto simp: api_step_def run_leaving)
  from Cons.IH [OF v(2) [unfolded this]] show ?case using Cons.prems(2-5) fin i by auto
qed

lemma drift_none: "drift a w x j False 0 {} z = z"
proof -
  have "ts_upd j (\<lambda>y. y\<lparr>retain_count_1 := retain_count_1 y - word_of_nat 0\<rparr>) ts = ts" for ts
    by (simp add: ts_upd_def)
  then show ?thesis by (intro mem.equality) (simp_all add: drift_def option.map_ident cong: option.map_cong)
qed

lemma checkins_last:
  assumes ct: "contended E a w x j R" and po: "poised a w x j R tr {word_of_nat (card R) - 1} z"
    and r: "runs (api_step E (Suc (Suc g))) z (map Checkin (L @ [l])) u" and L: "distinct (L @ [l])" "set (L @ [l]) = R"
  obtains Z where "u = away w (R - {l}) Z"
    "run (bnd (last_out E (Suc (Suc g)) x j) (\<lambda>_. leaving l (w_timestamp w))) (drift a w x j True (card R) {} z) = Ok 0 Z"
proof -
  let ?p = "bnd (last_out E (Suc (Suc g)) x j) (\<lambda>_. leaving l (w_timestamp w))"
  have sl: "set L = R - {l}" "length L = card (R - {l})" "l \<in> R" "Suc (length L) = card R"
    using L distinct_card [of "L @ [l]"] distinct_card [of L] by auto
  obtain v where v: "runs (api_step E (Suc (Suc g))) z (map Checkin L) v" "api_step E (Suc (Suc g)) v (Checkin l) u"
    using runs_append [of _ z "map Checkin L" "[Checkin l]" u] r by (auto elim!: runs_ConsE elim: runs_NilE)
  have "v = drift a w x j (False \<or> L \<noteq> []) (card ({} :: tid set) + length L) ({} \<union> set L) z"
  proof (rule checkins_drift [OF ct po order.refl])
    show "runs (api_step E (Suc (Suc g))) (drift a w x j False (card ({} :: tid set)) {} z) (map Checkin L) v" using v(1) by (simp add: drift_none)
  qed (use L sl in simp_all)
  then have vd: "v = drift a w x j (L \<noteq> []) (length L) (R - {l}) z" using sl(1) by simp
  obtain y where "run (mulle_aba_checkin_current_thread E l (Suc (Suc g))) v = Ok y u" using v(2) by (auto simp: api_step_def)
  then have y: "run ?p (away w (R - {l}) (drift a w x j True (card R) {} z)) = Ok y u"
    unfolding vd using checkin_drift [OF ct po sl(3), of "R - {l}" "length L" g "L \<noteq> []"] sl(4)
    by (simp add: drift_away [of _ _ _ _ _ _ "R - {l}"])
  have "aways w l (away w (R - {l}))" by (auto simp: aways_def)
  from blind_run [OF blind_tail this, of E "Suc (Suc g)" x j "w_timestamp w"] y obtain Z where
    Z: "run ?p (drift a w x j True (card R) {} z) = Ok y Z" "u = away w (R - {l}) Z" by (auto split: outcome.splits)
  have "y = 0" using Z(1) by (auto simp: run_bnd_Ok leaving_def tss_set_def)
  with Z show ?thesis by (intro that) simp_all
qed

section \<open>All at once\<close>

text \<open>The thread \<open>f0\<close> runs \<open>F\<close>, the threads of \<open>S\<close> check in, \<open>f0\<close> after \<open>F\<close> if it is one of them.\<close>

definition pool_of :: "ext \<Rightarrow> nat \<Rightarrow> tid \<Rightarrow> (mem, int) prog \<Rightarrow> tid set \<Rightarrow> tid \<Rightarrow> (mem, int) prog" where
  "pool_of E fuel f0 F S = (\<lambda>i. let own = (if i \<in> S then mulle_aba_checkin_current_thread E i fuel else Ret 0)
     in if i = f0 then bnd F (\<lambda>_. own) else own)"

lemma racing_start:
  assumes ct: "contended E a w x j R" and so: "solo (poised a w x j S tr {- 1, word_of_nat (card R) - 1}) (drifts a w x j) (Act u k) t"
    and r: "run (Act u k) t = Ok 0 z" and f: "f = Suc (Suc g)"
  shows "racing E f a w x j R tr S f0 (if f0 \<in> S then mulle_aba_checkin_current_thread E f0 f else Ret 0) z
    (pool_of E f f0 (Act u k) S) t"
proof -
  have "crew E f a w x j (S - {f0}) {} {} False (pool_of E f f0 (Act u k) S)"
    unfolding crew_def using arriving_checkin [OF ct] f by (auto simp: pool_of_def)
  moreover have "{} \<noteq> R" using contendedD(11) [OF ct] by auto
  ultimately have "crewed E f a w x j R (S - {f0}) t (pool_of E f f0 (Act u k) S) t"
    by (intro crewedI [of _ _ _ _ _ False "{}" "{}"]) (simp_all add: drift_none)
  moreover have "pool_of E f f0 (Act u k) S i = Ret 0" if "i \<notin> S \<union> {f0}" for i using that by (simp add: pool_of_def)
  moreover have "pool_of E f f0 (Act u k) S f0 = bnd (Act u k) (\<lambda>_. if f0 \<in> S then mulle_aba_checkin_current_thread E f0 f else Ret 0)"
    by (simp add: pool_of_def)
  ultimately show ?thesis
    unfolding racing_def busy_def using so r by blast
qed

lemma checkins_run:
  assumes "sound E z" "budget E fuel (length L) z"
  shows "\<exists>u. runs (api_step E fuel) z (map Checkin L) u"
proof (rule aba.legal_runs [OF assms(1)])
  show "budget E fuel (length (map Checkin L)) z" using assms(2) by simp
  show "op_ok t x" if "map Checkin L = xs @ x # ys" for xs x ys t
  proof -
    have "x \<in> set (map Checkin L)" unfolding that by simp
    then show ?thesis by auto
  qed
qed

lemma race_ends:
  assumes ct: "contended E a w x j R" and so: "solo (poised a w x j S tr {- 1, word_of_nat (card R) - 1}) (drifts a w x j) F t"
    and F: "F = Act v k" "run F t = Ok 0 z" and po: "poised a w x j S tr {word_of_nat (card R) - 1} z"
    and f0: "f0 \<in> R" "S \<subseteq> R" and f: "fuel = Suc (Suc g)" and z: "sound E z" "budget E fuel (card S) z"
    and sc: "sched (pool_of E fuel f0 F S) t Q u"
  shows "(\<forall>i e. Q i \<noteq> Crash e) \<and> (S \<noteq> R \<longrightarrow> trace u = tr)
    \<and> ((\<forall>i. \<exists>r. Q i = Ret r) \<longrightarrow> (\<exists>L. distinct L \<and> set L = S \<and> runs (api_step E fuel) z (map Checkin L) u))"
proof -
  let ?K = "if f0 \<in> S then mulle_aba_checkin_current_thread E f0 fuel else Ret 0"
  let ?p = "\<lambda>l. bnd (last_out E fuel x j) (\<lambda>_. leaving l (w_timestamp w))"
  have fin: "finite S" using f0(2) contendedD(10) [OF ct] by (rule finite_subset)
  have seq: "\<exists>u. runs (api_step E fuel) z (map Checkin L) u" if "distinct L" "set L = S" for L
    by (rule checkins_run [OF z(1)]) (use z(2) distinct_card [OF that(1)] that(2) in simp)
  have order: "\<exists>L. distinct (L @ [l]) \<and> set (L @ [l]) = R" if "l \<in> R" for l
  proof -
    obtain L where "distinct L" "set L = R - {l}"
      using finite_distinct_list [of "R - {l}"] contendedD(10) [OF ct] by auto
    with that show ?thesis by (intro exI [of _ L]) auto
  qed
  have H: "\<exists>Z. run (?p l) (drift a w x j True (card R) {} z) = Ok 0 Z" if SR: "S = R" and l: "l \<in> R" for l
  proof -
    obtain L where L: "distinct (L @ [l])" "set (L @ [l]) = R" using order [OF l] by blast
    obtain y where "runs (api_step E fuel) z (map Checkin (L @ [l])) y" using seq L SR by blast
    from checkins_last [OF ct po [unfolded SR] this [unfolded f] L] show ?thesis unfolding f by blast
  qed
  have ra: "racing E fuel a w x j R tr S f0 ?K z Q u"
  proof (rule sched_inv [OF sc])
    show "racing E fuel a w x j R tr S f0 ?K z (pool_of E fuel f0 F S) t"
      unfolding F(1) by (rule racing_start [OF ct so [unfolded F(1)] F(2) [unfolded F(1)] f])
    show "racing E fuel a w x j R tr S f0 ?K z (P(i := c s)) (q s)"
      if "racing E fuel a w x j R tr S f0 ?K z P s" "P i = Act q c" for P s i q c
      by (rule racing_step [OF ct po f0 f refl H that])
  qed
  have "\<exists>L. distinct L \<and> set L = S \<and> runs (api_step E fuel) z (map Checkin L) u" if q: "\<forall>i. \<exists>r. Q i = Ret r"
  proof -
    consider "S \<noteq> R" "u = drift a w x j (S \<noteq> {}) (card S) S z"
      | l Z where "S = R" "l \<in> R" "u = away w (R - {l}) Z" "run (?p l) (drift a w x j True (card R) {} z) = Ok 0 Z"
      using racing_end [OF ra spec [OF q]] by (elim disjE conjE bexE exE)
    then show ?thesis
    proof cases
      case 1
      obtain L where L: "distinct L" "set L = S" using finite_distinct_list [OF fin] by blast
      obtain y where y: "runs (api_step E fuel) z (map Checkin L) y" using seq [OF L] by blast
      have c: "card S < card R" "length L = card S"
        using psubset_card_mono [OF contendedD(10) [OF ct], of S] 1(1) f0(2) distinct_card [OF L(1)] by (blast, simp add: L(2))
      have "runs (api_step E (Suc (Suc g))) (drift a w x j False (card ({} :: tid set)) {} z) (map Checkin L) y"
        using y unfolding f by (simp only: drift_none card.empty)
      then have "y = drift a w x j (False \<or> L \<noteq> []) (card ({} :: tid set) + length L) ({} \<union> set L) z"
        by (rule checkins_drift [OF ct po f0(2)]) (use L c in simp_all)
      then have "y = u" using 1(2) L(2) c(2) by auto
      with y L show ?thesis by blast
    next
      case 2
      obtain L where L: "distinct (L @ [l])" "set (L @ [l]) = R" using order [OF 2(2)] by blast
      obtain y where y: "runs (api_step E fuel) z (map Checkin (L @ [l])) y" using seq L 2(1) by blast
      obtain Z' where "y = away w (R - {l}) Z'" "run (?p l) (drift a w x j True (card R) {} z) = Ok 0 Z'"
        using checkins_last [OF ct po [unfolded 2(1)] y [unfolded f] L] unfolding f by blast
      with 2(3,4) have "y = u" by simp
      with y L 2(1) show ?thesis by blast
    qed
  qed
  then show ?thesis using racing_safe [OF ra] racing_trace [OF ra po] by blast
qed

end
