(* ===== verification/Aba_Overlap.thy ===== *)
theory Aba_Overlap
  imports Aba_Concurrent
begin

text \<open>
  A free and check-ins at the same time, by threads that have nothing older to check in to. From the moment it is settled
  which timestamp the pointer waits for, every interleaving of the actions of the calls ends as some sequence of the calls does: when
  the free has read a world pointer whose bit is clear, it is the current timestamp; when the bit was set,
  it is the next one, and the moment is when the free has installed the world with it. What the free does
  before that moment runs alone. The pointer is freed only if all registered threads have checked in.
\<close>

section \<open>The count of the timestamp\<close>

text \<open>While the bit of the world pointer is clear, every registered thread counts for the current timestamp.\<close>

lemma entry_full:
  assumes "inv E s w X" "get_bit' (q_world (q s)) = 0" "registered s \<noteq> {}"
  obtains x j ts where "slot E w (w_timestamp w) = Some (x, j)" "x \<noteq> 0" "w_timestamp w \<noteq> 0" "stores s x = Some ts"
    "j < length (ts_entries ts)" "retain_count_1 (ts_entries ts ! j) = word_of_nat (card (registered s)) - 1"
proof -
  let ?v = "w_timestamp w"
  note i = invD [OF assms(1)]
  note l = layoutD [OF coreD(1) [OF i(6)]]
  have le: "\<forall>th \<in> registered s. unat (tss s th) \<le> unat ?v" using i(5) assms(2) by blast
  obtain th where th: "th \<in> registered s" using assms(3) by blast
  then have "0 < unat (tss s th)" by (simp add: registered_def unat_gt_0)
  then have nz: "?v \<noteq> 0" using le th by force
  have h: "hold s w (unat ?v) = registered s" using le by (auto simp: hold_def registered_def)
  note win = hold_in_window [OF coreD(1) [OF i(6)], of "unat ?v", unfolded h, OF assms(3)]
  have cv: "covers E w ?v" using win in_window_covers [OF l(9) nz refl] by blast
  have ix: "(unat ?v - unat (w_offset w)) div n_entries E < unat (w_n w)"
    using cv by (simp add: covers_def slot_index_def)
  then obtain ts where ts: "stores s (stor E w (unat ?v)) = Some ts" "length (ts_entries ts) = n_entries E"
    using l(8) by (auto simp: slots_ok_def store_shape_def stor_def)
  have "retain_count_1 (entry_at E (stores s) w (unat ?v)) = word_of_nat (card (registered s)) - 1"
    using slots_ok_entry [OF l(8) win] h by (simp add: entry_ok_def)
  moreover have "stor E w (unat ?v) \<noteq> 0" using wf_shape_storage_nonzero [OF l(9) ix] by (simp add: stor_def)
  ultimately show ?thesis
    using slot_stor [OF l(9) cv] nz ts by (intro that) (simp_all add: entry_at_def n_entries_pos)
qed

lemma wf_inv:
  assumes "inv E s w X" "1 < card (registered s)"
  shows "wf_world E w" "w_link w = 0" "unat (w_n_threads w) = card (registered s)" "finite (registered s)" "card (registered s) < 10000"
    "registered s \<noteq> {}"
  using layoutD [OF coreD(1) [OF invD(6) [OF assms(1)]]] assms(2) by auto

text \<open>The bit is clear: the pointer will wait for the current timestamp.\<close>

lemma contended_current:
  assumes "inv E s w X" "get_bit' (q_world (q s)) = 0" "1 < card (registered s)" "unat (w_timestamp w) < 2 ^ 62"
    and "\<forall>i \<in> S. tss s i = w_timestamp w"
  obtains x j where "contended E (q_world (q s)) w x j (registered s)"
    "poised (q_world (q s)) w x j S (trace s) {word_of_nat (card (registered s)) - 1} s"
proof -
  note i = invD [OF assms(1)] and w = wf_inv [OF assms(1,3)]
  obtain x j ts where e: "slot E w (w_timestamp w) = Some (x, j)" "x \<noteq> 0" "w_timestamp w \<noteq> 0" "stores s x = Some ts"
    "j < length (ts_entries ts)" "retain_count_1 (ts_entries ts ! j) = word_of_nat (card (registered s)) - 1"
    by (rule entry_full [OF assms(1,2) w(6)])
  have al: "aligned (q_world (q s))" using assms(2) i(2) by (simp add: aligned_iff_bits get_bit_iff get_lock_iff split: if_splits)
  then have "q_world (q s) \<noteq> 0" "worlds s (q_world (q s)) = Some w" using i(1,3) get_struct_aligned by auto
  then show ?thesis using al e w assms(3-5) by (intro that [of x j]) (simp_all add: contended_def poised_def)
qed

text \<open>The bit was set: a world with the next timestamp has been installed, and its count is not yet complete.\<close>

lemma contended_opened:
  assumes "opened E s w {#} t a w' x j ts" "1 < card (registered s)" "unat (w_timestamp w) + 1 < 2 ^ 62"
    and "\<forall>i \<in> S. tss s i = w_timestamp w + 1"
  shows "contended E a w' x j (registered s)" "poised a w' x j S (trace s) {- 1} t"
proof -
  let ?u = "t\<lparr>stores := (stores t)(x \<mapsto> ts_upd j (gain (w_n_threads w)) ts)\<rparr>"
  note v = openedD [OF assms(1)]
  have rg: "registered ?u = registered s" using v(19) by (simp add: registered_def)
  note wi = wf_inv [OF v(16), unfolded rg, OF assms(2)]
  have al: "aligned a" using v(3,4) by (simp add: aligned_iff_bits get_bit_iff get_lock_iff split: if_splits)
  have vt: "unat (w_timestamp w') = unat (w_timestamp w) + 1"
    unfolding v(23) by (rule unat_plus_1) (use assms(3) in simp)
  obtain x' j' ts' where e: "slot E w' (w_timestamp w') = Some (x', j')" "w_timestamp w' \<noteq> 0" "stores ?u x' = Some ts'"
    "retain_count_1 (ts_entries ts' ! j') = word_of_nat (card (registered s)) - 1"
    by (rule entry_full [OF v(16)]) (use v(3,13) wi(6) rg in simp_all)
  have "x' = x" "j' = j" "ts' = ts_upd j (gain (w_n_threads w)) ts" using e(1,3) v(6) by auto
  then have "retain_count_1 (ts_entries ts ! j) + w_n_threads w = word_of_nat (card (registered s)) - 1"
    using e(4) v(9) by (simp add: gain_def ts_upd_def)
  moreover have "w_n_threads w = word_of_nat (card (registered s))" using wi(3) v(10) by (simp flip: wi(3))
  ultimately have "retain_count_1 (ts_entries ts ! j) = - 1" by (simp add: algebra_simps eq_neg_iff_add_eq_0)
  then show "poised a w' x j S (trace s) {- 1} t"
    using v(5,8,9,13,19,20,23) assms(4) by (simp add: poised_def)
  show "contended E a w' x j (registered s)"
    unfolding contended_def using v(1,6,7) al wi assms(2,3) e(2) vt by simp
qed

section \<open>A free split in two\<close>

text \<open>What a free does after it has read the world pointer, and how it opens the next timestamp, up to the installed world.\<close>

definition free_rest :: "ext \<Rightarrow> tid \<Rightarrow> nat \<Rightarrow> fnptr \<Rightarrow> uptr \<Rightarrow> uptr \<Rightarrow> uptr \<Rightarrow> (mem, int) prog" where
  "free_rest E th fuel f ptr owner p = bnd (c_assert E (ptr \<noteq> get_struct p)) (\<lambda>_. bnd (load_world (get_struct p)) (\<lambda>w.
     if w_n_threads w \<le>s 1 then bnd (call_free E f ptr owner) (\<lambda>_. Ret 0)
     else free_loop E th fuel f ptr owner p 0 \<lparr>ac_ts_storage = 0\<rparr>))"

definition free_opening :: "ext \<Rightarrow> tid \<Rightarrow> nat \<Rightarrow> (mem, worldpointers \<times> add_context) prog" where
  "free_opening E th fuel = bnd mulle_aba_storage_get_worldpointer (\<lambda>p. bnd (load_world (get_struct p)) (\<lambda>w.
     bnd (mulle_aba_world_get_timestampentry E th (get_struct p) (w_timestamp w + get_bit' p)) (\<lambda>e.
     free_change E th fuel p w e \<lparr>ac_ts_storage = 0\<rparr>)))"

lemma free_reads:
  assumes "op_ok s (Free th f ptr owner)" "keyed E s"
  shows "run (mulle_aba_free_owned_pointer_p E th fuel f ptr owner) s = run (free_rest E th fuel f ptr owner (q_world (q s))) s"
  using assms
  by (auto simp: mulle_aba_free_owned_pointer_p_def run_is_registered free_rest_def run_bnd run_c_assert
      run_get_worldpointer Let_def)

lemma run_free_rest:
  assumes "inv E s w X" "1 < card (registered s)" "ptr \<noteq> get_struct (q_world (q s))"
  shows "run (free_rest E th fuel f ptr owner (q_world (q s))) s
    = run (free_loop E th fuel f ptr owner (q_world (q s)) 0 \<lparr>ac_ts_storage = 0\<rparr>) s"
    "\<not> w_n_threads w \<le>s 1" "run (load_world (get_struct (q_world (q s)))) s = Ok w s"
proof -
  note i = invD [OF assms(1)] and wi = wf_inv [OF assms(1,2)]
  have "unat (w_n_threads w) < 2 ^ 63" using less_10000(1) wi(3,5) by simp
  from sle_1 [OF this] show n: "\<not> w_n_threads w \<le>s 1" using wi(3) assms(2) by simp
  show ld: "run (load_world (get_struct (q_world (q s)))) s = Ok w s" using i(1,3) by (simp add: exec)
  show "run (free_rest E th fuel f ptr owner (q_world (q s))) s
    = run (free_loop E th fuel f ptr owner (q_world (q s)) 0 \<lparr>ac_ts_storage = 0\<rparr>) s"
    using n ld assms(3) by (simp add: free_rest_def run_bnd run_c_assert)
qed

text \<open>From where on others may interfere: \<open>F\<close> is what is left of a free called in \<open>s\<close> once its timestamp is settled.\<close>

inductive settled :: "ext \<Rightarrow> mem \<Rightarrow> tid \<Rightarrow> fnptr \<Rightarrow> uptr \<Rightarrow> uptr \<Rightarrow> nat \<Rightarrow> (mem, int) prog \<Rightarrow> mem \<Rightarrow> bool"
  for E s f0 f ptr owner where
  settled_current: "get_bit' (q_world (q s)) = 0 \<Longrightarrow>
    settled E s f0 f ptr owner fuel (free_rest E f0 fuel f ptr owner (q_world (q s))) s"
| settled_next: "get_bit' (q_world (q s)) = 1 \<Longrightarrow> run (free_opening E f0 (Suc g)) s = Ok (ps, c) t \<Longrightarrow>
    settled E s f0 f ptr owner (Suc g) (freeing E f0 g ps f ptr owner c) t"

text \<open>The free is in order, there is memory and fuel for it and the check-ins of the threads \<open>S\<close>, and these have nothing older
  to check in than the timestamp that is settled.\<close>

definition may_race :: "ext \<Rightarrow> nat \<Rightarrow> mem \<Rightarrow> tid set \<Rightarrow> api_op \<Rightarrow> bool" where
  "may_race E fuel s S x \<longleftrightarrow> sound E s \<and> budget E fuel (Suc (card S)) s \<and> op_ok s x \<and> 1 < card (registered s) \<and> S \<subseteq> registered s
     \<and> (\<forall>i \<in> S. tss s i = w_timestamp (cur s) + get_bit' (q_world (q s)))"

lemma may_raceD:
  assumes "may_race E fuel s S (Free f0 f ptr owner)"
  shows "inv E s (cur s) {#}" "1 < card (registered s)" "S \<subseteq> registered s" "f0 \<in> registered s" "ptr \<noteq> get_struct (q_world (q s))"
    "unat (w_timestamp (cur s)) + 1 < 2 ^ 62" "\<exists>g. fuel = Suc (Suc g)" "ready E fuel 4 s (cur s)"
    "\<exists>z. run (mulle_aba_free_owned_pointer_p E f0 fuel f ptr owner) s = Ok 0 z
      \<and> api_step E fuel s (Free f0 f ptr owner) z \<and> sound E z \<and> budget E fuel (card S) z"
    "\<forall>i \<in> S. tss s i = w_timestamp (cur s) + get_bit' (q_world (q s))" "op_ok s (Free f0 f ptr owner)" "keyed E s"
proof -
  have m: "sound E s" "budget E fuel (Suc (card S)) s" "op_ok s (Free f0 f ptr owner)" "1 < card (registered s)" "S \<subseteq> registered s"
    "\<forall>i \<in> S. tss s i = w_timestamp (cur s) + get_bit' (q_world (q s))"
    using assms unfolding may_race_def by blast+
  then show "\<forall>i \<in> S. tss s i = w_timestamp (cur s) + get_bit' (q_world (q s))" "op_ok s (Free f0 f ptr owner)" by blast+
  show "inv E s (cur s) {#}" "keyed E s" using m(1) by (simp_all add: sound_def)
  have rd: "ready E fuel 5 s (cur s)" using budget_enough [OF m(1,2)] by (simp add: enough_def)
  show "ready E fuel 4 s (cur s)" by (rule ready_mono [OF rd]) simp
  show "unat (w_timestamp (cur s)) + 1 < 2 ^ 62" using m(2) by (simp add: budget_def)
  have "1 < fuel" using readyD(3) [OF rd] by simp
  then show "\<exists>g. fuel = Suc (Suc g)" by (intro exI [of _ "fuel - 2"]) simp
  show "\<exists>z. run (mulle_aba_free_owned_pointer_p E f0 fuel f ptr owner) s = Ok 0 z
      \<and> api_step E fuel s (Free f0 f ptr owner) z \<and> sound E z \<and> budget E fuel (card S) z"
    using api_step_progress [OF m(1,2,3)] by simp
  show "1 < card (registered s)" "S \<subseteq> registered s" "f0 \<in> registered s" "ptr \<noteq> get_struct (q_world (q s))"
    using m(3-5) by (simp_all add: registered_def)
qed

section \<open>The races\<close>

text \<open>What \<open>race_ends\<close> asks for.\<close>

definition raceable :: "ext \<Rightarrow> mem \<Rightarrow> tid set \<Rightarrow> (mem, int) prog \<Rightarrow> mem \<Rightarrow> mem \<Rightarrow> bool" where
  "raceable E s S F t z \<longleftrightarrow> run F t = Ok 0 z \<and> (\<exists>v k. F = Act v k) \<and> (\<exists>a w x j. contended E a w x j (registered s)
     \<and> poised a w x j S (trace s) {word_of_nat (card (registered s)) - 1} z
     \<and> solo (poised a w x j S (trace s) {- 1, word_of_nat (card (registered s)) - 1}) (drifts a w x j) F t)"

lemma run_free_opening:
  assumes m: "may_race E fuel s S (Free f0 f ptr owner)" and b: "get_bit' (q_world (q s)) = 1"
  obtains a c t w' x j ts where "run (free_opening E f0 fuel) s = Ok (\<lparr>new_world_p = a, old_world_p = q_world (q s)\<rparr>, c) t"
    "opened E s (cur s) {#} t a w' x j ts"
    "run (mulle_aba_free_owned_pointer_p E f0 fuel f ptr owner) s
      = run (freeing E f0 (fuel - 1) \<lparr>new_world_p = a, old_world_p = q_world (q s)\<rparr> f ptr owner c) t"
proof -
  note d = may_raceD [OF m]
  obtain er a c t w' x j ts where fc:
    "run (mulle_aba_world_get_timestampentry E f0 (get_struct (q_world (q s))) (w_timestamp (cur s) + 1)) s
      = Ok (slot E (cur s) (w_timestamp (cur s) + 1)) (s\<lparr>errno := er\<rparr>)"
    "run (free_change E f0 fuel (q_world (q s)) (cur s) (slot E (cur s) (w_timestamp (cur s) + 1)) \<lparr>ac_ts_storage = 0\<rparr>) (s\<lparr>errno := er\<rparr>)
      = Ok (\<lparr>new_world_p = a, old_world_p = q_world (q s)\<rparr>, c) t"
    and op: "opened E s (cur s) {#} t a w' x j ts"
    by (rule free_opens [OF d(1,8) b d(2)])
  note r = run_free_rest [OF d(1,2,5)]
  obtain g where g: "fuel = Suc g" using d(7) by blast
  have "run (free_opening E f0 fuel) s = Ok (\<lparr>new_world_p = a, old_world_p = q_world (q s)\<rparr>, c) t"
    using r(3) fc b by (simp add: free_opening_def run_bnd run_get_worldpointer)
  moreover have "run (mulle_aba_free_owned_pointer_p E f0 fuel f ptr owner) s
      = run (freeing E f0 (fuel - 1) \<lparr>new_world_p = a, old_world_p = q_world (q s)\<rparr> f ptr owner c) t"
    using r fc b openedD(1) [OF op] d(11,12)
    by (simp add: free_reads g Let_def run_bnd freeing_def del: free_loop.simps(1) op_ok.simps)
  ultimately show ?thesis using op by (intro that)
qed

lemma raceable_next:
  assumes m: "may_race E (Suc g) s S (Free f0 f ptr owner)" and b: "get_bit' (q_world (q s)) = 1"
    and o: "run (free_opening E f0 (Suc g)) s = Ok (ps, c) t"
    and z: "run (mulle_aba_free_owned_pointer_p E f0 (Suc g) f ptr owner) s = Ok 0 z"
  shows "raceable E s S (freeing E f0 g ps f ptr owner c) t z"
proof -
  note d = may_raceD [OF m]
  obtain a c' t' w' x j ts where fo: "run (free_opening E f0 (Suc g)) s = Ok (\<lparr>new_world_p = a, old_world_p = q_world (q s)\<rparr>, c') t'"
    and op: "opened E s (cur s) {#} t' a w' x j ts"
    and sp: "run (mulle_aba_free_owned_pointer_p E f0 (Suc g) f ptr owner) s
      = run (freeing E f0 (Suc g - 1) \<lparr>new_world_p = a, old_world_p = q_world (q s)\<rparr> f ptr owner c') t'"
    by (rule run_free_opening [OF m b])
  have e: "ps = \<lparr>new_world_p = a, old_world_p = q_world (q s)\<rparr>" "c = c'" "t' = t" using o fo by simp_all
  have fr: "run (freeing E f0 g ps f ptr owner c) t = Ok 0 z" using sp z e by simp
  have S: "\<forall>i \<in> S. tss s i = w_timestamp (cur s) + 1" using d(10) b by simp
  note co = contended_opened [OF op d(2,6) S, unfolded e(3)]
  note so = freeing_solo [OF co openedD(15) [OF op] fr [unfolded e(1)], folded e(1)]
  have F: "\<exists>v k. freeing E f0 g ps f ptr owner c = Act v k" by (simp add: freeing_def free_count_def load_world_def)
  show ?thesis unfolding raceable_def using fr F co(1) so by blast
qed

lemma raceable_current:
  assumes m: "may_race E fuel s S (Free f0 f ptr owner)" and b: "get_bit' (q_world (q s)) = 0"
    and z: "run (mulle_aba_free_owned_pointer_p E f0 fuel f ptr owner) s = Ok 0 z"
  shows "raceable E s S (free_rest E f0 fuel f ptr owner (q_world (q s))) s z"
proof -
  note d = may_raceD [OF m]
  let ?a = "q_world (q s)" and ?w = "cur s" and ?F = "free_rest E f0 fuel f ptr owner (q_world (q s))"
  let ?L = "free_loop E f0 fuel f ptr owner (q_world (q s)) 0 \<lparr>ac_ts_storage = 0\<rparr>"
  have S: "\<forall>i \<in> S. tss s i = w_timestamp (cur s)" using d(10) b by simp
  obtain x j where ct: "contended E ?a ?w x j (registered s)" and po: "poised ?a ?w x j S (trace s) {word_of_nat (card (registered s)) - 1} s"
    by (rule contended_current [OF d(1) b d(2) _ S]) (use d(6) in simp_all)
  note r = run_free_rest [OF d(1,2,5)] and cp = contended_pointer [OF ct]
  have rz: "run ?F s = Ok 0 z" using z free_reads [OF d(11,12)] by simp
  let ?I = "poised ?a ?w x j S (trace s) {word_of_nat (card (registered s)) - 1}"
  let ?J = "poised ?a ?w x j S (trace s) {- 1, word_of_nat (card (registered s)) - 1}"
  have ca: "c_assert E (ptr \<noteq> get_struct ?a) = Ret ()" using d(5) by (simp add: c_assert_def skip_def)
  have Fb: "?F = bnd (load_world ?a) (\<lambda>w. if w_n_threads w \<le>s 1 then bnd (call_free E f ptr owner) (\<lambda>_. Ret 0) else ?L)"
    unfolding free_rest_def ca by (simp add: cp(1))
  have so: "solo ?I (drifts ?a ?w x j) ?F s"
    unfolding Fb
    by (rule solo_known [where I = ?I, OF rz [unfolded Fb] lookup_quiet(1,2) po r(3) [unfolded cp(1)]])
      (use r(1,2) rz solo_free_loop [OF ct po] in simp)
  have so': "solo ?J (drifts ?a ?w x j) ?F s" by (rule solo_mono [OF so]) (unfold poised_def, blast)
  have F: "\<exists>v k. ?F = Act v k" unfolding Fb by (simp add: load_world_def)
  show ?thesis unfolding raceable_def using rz F ct solo_end [OF so rz] so' by blast
qed

lemma settled_race:
  assumes m: "may_race E fuel s S (Free f0 f ptr owner)" and st: "settled E s f0 f ptr owner fuel F t"
  obtains z where "raceable E s S F t z" "api_step E fuel s (Free f0 f ptr owner) z" "sound E z" "budget E fuel (card S) z"
    "run (mulle_aba_free_owned_pointer_p E f0 fuel f ptr owner) s = Ok 0 z"
proof -
  obtain z where z: "run (mulle_aba_free_owned_pointer_p E f0 fuel f ptr owner) s = Ok 0 z"
    "api_step E fuel s (Free f0 f ptr owner) z" "sound E z" "budget E fuel (card S) z" using may_raceD(9) [OF m] by blast
  have "raceable E s S F t z"
    using st
  proof cases
    case settled_current
    then show ?thesis using raceable_current [OF m _ z(1)] by simp
  next
    case (settled_next g ps c)
    then show ?thesis using raceable_next [of E g s S f0 f ptr owner ps c t z] m z(1) by simp
  qed
  with z show ?thesis by (intro that)
qed

lemma race_outcome:
  assumes m: "may_race E fuel s S (Free f0 f ptr owner)" and st: "settled E s f0 f ptr owner fuel F t"
    and sc: "sched (pool_of E fuel f0 F S) t Q u"
  shows "Q i \<noteq> Crash e" "S \<noteq> registered s \<Longrightarrow> trace u = trace s"
    "(\<And>i. \<exists>r. Q i = Ret r) \<Longrightarrow> \<exists>L. distinct L \<and> set L = S \<and> runs (api_step E fuel) s (Free f0 f ptr owner # map Checkin L) u"
proof -
  note d = may_raceD [OF m]
  obtain z where z: "raceable E s S F t z" "api_step E fuel s (Free f0 f ptr owner) z" "sound E z" "budget E fuel (card S) z"
    by (rule settled_race [OF m st])
  then obtain v k a w x j where r: "run F t = Ok 0 z" "F = Act v k" "contended E a w x j (registered s)"
    "poised a w x j S (trace s) {word_of_nat (card (registered s)) - 1} z"
    "solo (poised a w x j S (trace s) {- 1, word_of_nat (card (registered s)) - 1}) (drifts a w x j) F t"
    unfolding raceable_def by blast
  obtain h where h: "fuel = Suc (Suc h)" using d(7) by blast
  note e = race_ends [OF r(3,5,2,1,4) d(4,3) h z(3,4) sc]
  show "Q i \<noteq> Crash e" "S \<noteq> registered s \<Longrightarrow> trace u = trace s" using e by blast+
  show "\<exists>L. distinct L \<and> set L = S \<and> runs (api_step E fuel) s (Free f0 f ptr owner # map Checkin L) u" if "\<And>i. \<exists>r. Q i = Ret r"
    using e that runs_Cons [where step = "api_step E fuel", OF z(2)] by blast
qed

section \<open>A race in the sample environment\<close>

text \<open>A thread that checks in keeps the world, and its timestamp becomes the next one.\<close>

lemma checkin_step:
  assumes "sound E s" "budget E fuel (Suc N) s" "tss s th \<noteq> 0"
  obtains t where "api_step E fuel s (Checkin th) t" "sound E t" "budget E fuel N t" "cur t = cur s"
    "tss t = (tss s)(th := w_timestamp (cur s) + 1)" "get_bit' (q_world (q t)) = 1" "registered t = registered s"
proof -
  have "ready E fuel 5 s (cur s)" using budget_enough [OF assms(1,2)] by (simp add: enough_def)
  then have rd: "ready E fuel 0 s (cur s)" by (rule ready_mono) simp
  obtain t where t: "run (mulle_aba_checkin_current_thread E th fuel) s = Ok 0 t" "inv E t (cur s) {#}"
    "tss t = (tss s)(th := if tss s th = 0 then 0 else w_timestamp (cur s) + 1)"
    by (rule run_checkin [OF soundD(1) [OF assms(1)] rd, of th])
  have u: "unat (w_timestamp (cur s) + 1) = unat (w_timestamp (cur s)) + 1"
    by (rule unat_plus_1) (use readyD(5) [OF rd] in simp)
  then have nz: "w_timestamp (cur s) + 1 \<noteq> 0" by (metis unat_0 add_is_0 one_neq_zero)
  have b: "get_bit' (q_world (q t)) = 1"
  proof (rule ccontr)
    assume "get_bit' (q_world (q t)) \<noteq> 1"
    then have "get_bit' (q_world (q t)) = 0" using get_bit_cases by blast
    moreover have "th \<in> registered t" using t(3) nz assms(3) by (simp add: registered_def)
    ultimately have "unat (tss t th) \<le> unat (w_timestamp (cur s))" using invD(5) [OF t(2)] by blast
    then show False using t(3) assms(3) u by simp
  qed
  obtain v where "api_step E fuel s (Checkin th) v" "sound E v" "budget E fuel N v"
    "run (op_prog E fuel (Checkin th)) s = Ok 0 v"
    using api_step_progress [OF assms(1,2), of "Checkin th"] by auto
  then show ?thesis using t cur_inv [OF t(2)] b nz assms(3) by (intro that [of t]) (auto simp: registered_def)
qed

lemma sample_race:
  obtains s F t where "may_race sample_ext 100 s {1, 2} (Free 1 (Fn_client 7) 1 5)" "registered s = {1, 2}"
    "settled sample_ext s 1 (Fn_client 7) 1 5 100 F t" "trace s = []" "pending sample_ext s (cur s) = {#}"
    "get_bit' (q_world (q s)) = 1"
proof -
  let ?E = sample_ext and ?ops = "[Register 1, Register 2]"
  obtain s0 s1 where s1: "run (mulle_aba_init_p ?E 0 4) sample_mem = Ok 0 s0" "runs (api_step ?E 100) s0 ?ops s1"
    "sound ?E s0" "sound ?E s1" "budget ?E 100 (8 - length ?ops) s1" "registered s1 = threads ?ops {}"
    by (rule sample_runs [of ?ops]) simp_all
  have r1: "registered s1 = {1, 2}" using s1(6) by auto
  then have nz: "tss s1 1 \<noteq> 0" "tss s1 2 \<noteq> 0" by (auto simp: registered_def)
  have b1: "budget ?E 100 (Suc (Suc 3)) s1" by (rule budget_mono [OF s1(5)]) simp
  obtain s2 where s2: "api_step ?E 100 s1 (Checkin 1) s2" "sound ?E s2" "budget ?E 100 (Suc 3) s2" "cur s2 = cur s1"
    "tss s2 = (tss s1)(1 := w_timestamp (cur s1) + 1)" "registered s2 = registered s1"
    by (rule checkin_step [OF s1(4) b1 nz(1)])
  have nz2: "tss s2 2 \<noteq> 0" using s2(5) nz by simp
  obtain s where s: "api_step ?E 100 s2 (Checkin 2) s" "sound ?E s" "budget ?E 100 3 s" "cur s = cur s2"
    "tss s = (tss s2)(2 := w_timestamp (cur s2) + 1)" "get_bit' (q_world (q s)) = 1" "registered s = registered s2"
    by (rule checkin_step [OF s2(2,3) nz2])
  have r: "registered s = {1, 2}" using s(7) s2(6) r1 by simp
  obtain s' where "run (mulle_aba_init_p ?E 0 4) sample_mem = Ok 0 s'"
    "abs_of ?E s' = \<lparr>sp_threads = {}, sp_pending = {#}, sp_calls = []\<rparr>" by (rule started [OF startable_sample])
  then have ab: "abs_of ?E s0 = \<lparr>sp_threads = {}, sp_pending = {#}, sp_calls = []\<rparr>" using s1(1) by simp
  have "mset (trace s) + image_mset fst (pending ?E s (cur s)) = {#}"
    using aba.runs_calls [OF s1(2,3), unfolded ab] aba.step_calls [OF s1(4) s2(1)] aba.step_calls [OF s2(2) s(1)] by simp
  then have n: "trace s = []" "pending ?E s (cur s) = {#}" by simp_all
  have "1 \<in> registered s" using r by simp
  then have ok: "op_ok s (Free 1 (Fn_client 7) 1 5)"
    by (auto simp: registered_def dest!: arg_cong [of _ _ aligned]) (simp add: aligned_def)
  have m: "may_race ?E 100 s {1, 2} (Free 1 (Fn_client 7) 1 5)"
    unfolding may_race_def r using s(2,3) ok by (simp add: s(4-6) s2(4,5) numeral_3_eq_3 del: op_ok.simps)
  obtain a c t where o: "run (free_opening ?E 1 100) s = Ok (\<lparr>new_world_p = a, old_world_p = q_world (q s)\<rparr>, c) t"
    by (rule run_free_opening [OF m s(6)])
  have "settled ?E s 1 (Fn_client 7) 1 5 (Suc 99) (freeing ?E 1 99 \<lparr>new_world_p = a, old_world_p = q_world (q s)\<rparr> (Fn_client 7) 1 5 c) t"
    by (rule settled_next [OF s(6)]) (use o in simp)
  then show ?thesis using m r n s(6) by (intro that) simp_all
qed

section \<open>What overlapping calls guarantee\<close>

lemma pool_finishes:
  assumes "may_race E fuel s S (Free f0 f ptr owner)" "settled E s f0 f ptr owner fuel F t" "sched (pool_of E fuel f0 F S) t Q u"
  shows "\<exists>Q' u'. sched Q u Q' u' \<and> (\<forall>i. \<exists>r. Q' i = Ret r)"
proof -
  have fin: "finite (insert f0 S)"
    using may_raceD(3) [OF assms(1)] wf_inv(4) [OF may_raceD(1,2) [OF assms(1)]] by (auto intro: finite_subset)
  have "\<forall>i. i \<notin> insert f0 S \<longrightarrow> Q i = Ret 0"
    by (rule sched_inv [OF assms(3)]) (auto simp: pool_of_def)
  then have "\<And>i u k. i \<notin> insert f0 S \<Longrightarrow> Q i \<noteq> Act u k" by simp
  then have "\<exists>Q' u'. sched Q u Q' u' \<and> (\<forall>i u k. Q' i \<noteq> Act u k)" by (rule sched_ends [OF fin])
  then obtain Q' u' where q: "sched Q u Q' u'" "\<forall>i u k. Q' i \<noteq> Act u k" by (elim exE conjE)
  have "\<exists>r. Q' i = Ret r" for i
    using q(2) race_outcome(1) [OF assms(1,2) sched_trans [OF q(1) assms(3)]] by (cases "Q' i") auto
  with q(1) show ?thesis by blast
qed

text \<open>C3: Check-ins may overlap with a free whose timestamp is settled. At least two threads are registered and the free is in
  order; what it does until its timestamp is settled has run alone: with the bit of the world pointer clear, its entry asserts
  and its read of the world pointer, with the bit set, also the opening of the next timestamp up to the installed world.
  From there on each thread of \<open>S\<close> checks in once (the freeing thread after its free), none of them with anything older to
  check in to than the settled timestamp. Whatever the order of the actions of all these calls, none faults or fails an
  assert, and when all have returned, memory is exactly what the free and then one check-in after the other, in some order,
  would have made of it.\<close>

theorem overlapping_calls_serialisable:
  assumes "may_race E fuel s S (Free f0 f ptr owner)" "settled E s f0 f ptr owner fuel F t"
    and "sched (pool_of E fuel f0 F S) t Q u"
  shows "run (mulle_aba_free_owned_pointer_p E f0 fuel f ptr owner) s = run F t
    \<and> (\<forall>i e. Q i \<noteq> Crash e)
    \<and> ((\<forall>i. \<exists>r. Q i = Ret r) \<longrightarrow>
        (\<exists>L. distinct L \<and> set L = S \<and> runs (api_step E fuel) s (Free f0 f ptr owner # map Checkin L) u))"
proof -
  obtain z where "raceable E s S F t z" "run (mulle_aba_free_owned_pointer_p E f0 fuel f ptr owner) s = Ok 0 z"
    by (rule settled_race [OF assms(1,2)])
  then show ?thesis using race_outcome(1,3) [OF assms] by (auto simp: raceable_def)
qed

theorem overlapping_calls_serialisable_witness:
  "\<exists>s F t Q u L. settled sample_ext s 1 (Fn_client 7) 1 5 100 F t \<and> registered s = {1, 2} \<and> set L = {1, 2}
    \<and> sched (pool_of sample_ext 100 1 F {1, 2}) t Q u \<and> (\<forall>i. \<exists>r. Q i = Ret r)
    \<and> runs (api_step sample_ext 100) s (Free 1 (Fn_client 7) 1 5 # map Checkin L) u"
proof -
  obtain s F t where m: "may_race sample_ext 100 s {1, 2} (Free 1 (Fn_client 7) 1 5)" "registered s = {1, 2}"
    "settled sample_ext s 1 (Fn_client 7) 1 5 100 F t" by (rule sample_race)
  obtain Q u where q: "sched (pool_of sample_ext 100 1 F {1, 2}) t Q u" "\<forall>i. \<exists>r. Q i = Ret r"
    using pool_finishes [OF m(1,3) sched_start] by blast
  from overlapping_calls_serialisable [OF m(1,3) q(1)] m(2,3) q show ?thesis by blast
qed

text \<open>C4: Check-ins that overlap with a free free its pointer neither too early nor too late. Again what the free does until
  its timestamp is settled has run alone, and the threads of \<open>S\<close> have nothing older to check in to. If some registered thread
  is not among them, no call is made at any point, whatever the order of the actions, and when all calls have returned, the
  pointer has been freed exactly if \<open>S\<close> is all registered threads, and not more than once.\<close>

theorem overlapping_free_exact:
  assumes "may_race E fuel s S (Free f0 f ptr owner)" "settled E s f0 f ptr owner fuel F t"
    and "sched (pool_of E fuel f0 F S) t Q u"
    and "due f ptr owner = [c]" "c \<notin> set (trace s)" "c \<notin># image_mset fst (pending E s (cur s))"
  shows "(S \<noteq> registered s \<longrightarrow> trace u = trace s)
    \<and> ((\<forall>i. \<exists>r. Q i = Ret r) \<longrightarrow> (c \<in> set (trace u) \<longleftrightarrow> S = registered s) \<and> count (mset (trace u)) c \<le> 1)"
proof -
  note d = may_raceD [OF assms(1)] and o = race_outcome [OF assms(1-3)]
  have "(c \<in> set (trace u) \<longleftrightarrow> S = registered s) \<and> count (mset (trace u)) c \<le> 1" if q: "\<forall>i. \<exists>r. Q i = Ret r"
  proof -
    obtain L where L: "set L = S" "runs (api_step E fuel) s (Free f0 f ptr owner # map Checkin L) u" using o(3) q by blast
    then obtain z where z: "api_step E fuel s (Free f0 f ptr owner) z" "runs (api_step E fuel) z (map Checkin L) u"
      by (auto elim: runs_ConsE)
    have sd: "sound E s" using d(1,12) by (simp add: sound_def)
    have l: "freed (map Checkin L) = []" "quiesced (map Checkin L) = S" using L(1) by (auto simp: freed_def quiesced_def)
    have n: "c \<notin># mset (sp_calls (abs_of E s)) + image_mset fst (sp_pending (abs_of E s))" using assms(5,6) by simp
    note e = aba.freed_iff_quiesced [OF sd runs_Nil z assms(4) n, unfolded l]
    show ?thesis using e d(2,3) by auto
  qed
  with o(2) show ?thesis by blast
qed

theorem overlapping_free_exact_witness:
  "\<exists>s F t Q u. settled sample_ext s 1 (Fn_client 7) 1 5 100 F t \<and> registered s = {1, 2}
    \<and> sched (pool_of sample_ext 100 1 F {1, 2}) t Q u \<and> Call2 7 1 5 \<notin> set (trace s) \<and> Call2 7 1 5 \<in> set (trace u)"
proof -
  obtain s F t where m: "may_race sample_ext 100 s {1, 2} (Free 1 (Fn_client 7) 1 5)" "registered s = {1, 2}"
    "settled sample_ext s 1 (Fn_client 7) 1 5 100 F t" "trace s = []" "pending sample_ext s (cur s) = {#}" by (rule sample_race)
  obtain Q u where q: "sched (pool_of sample_ext 100 1 F {1, 2}) t Q u" "\<forall>i. \<exists>r. Q i = Ret r"
    using pool_finishes [OF m(1,3) sched_start] by blast
  have n: "Call2 7 1 5 \<notin> set (trace s)" "Call2 7 1 5 \<notin># image_mset fst (pending sample_ext s (cur s))" using m(4,5) by simp_all
  have "due (Fn_client 7) 1 5 = [Call2 7 1 5]" by simp
  from overlapping_free_exact [OF m(1,3) q(1) this n] have "Call2 7 1 5 \<in> set (trace u)" using q(2) m(2) by blast
  with m(2,3) q(1) n(1) show ?thesis by blast
qed

text \<open>C19: A free whose timestamp is settled, what it does until then having run alone, and the check-ins of threads that have nothing
  older to check in to never block each other: whatever actions of theirs the scheduler has let run, they can all still be
  completed, without a fault.\<close>

theorem overlapping_calls_finish:
  assumes "may_race E fuel s S (Free f0 f ptr owner)" "settled E s f0 f ptr owner fuel F t"
    and "sched (pool_of E fuel f0 F S) t Q u"
  shows "\<exists>Q' u'. sched Q u Q' u' \<and> (\<forall>i. \<exists>r. Q' i = Ret r)"
  using pool_finishes [OF assms] .

theorem overlapping_calls_finish_witness:
  "\<exists>s F t Q u. settled sample_ext s 1 (Fn_client 7) 1 5 100 F t
    \<and> sched (pool_of sample_ext 100 1 F {1, 2}) t Q u \<and> (\<forall>i. \<exists>r. Q i = Ret r)"
proof -
  obtain s F t where m: "may_race sample_ext 100 s {1, 2} (Free 1 (Fn_client 7) 1 5)" "registered s = {1, 2}"
    "settled sample_ext s 1 (Fn_client 7) 1 5 100 F t" by (rule sample_race)
  from overlapping_calls_finish [OF m(1,3) sched_start] m(3) show ?thesis by blast
qed

end
