(* ===== verification/Aba_Catchup.thy ===== *)
theory Aba_Catchup
  imports Aba_Outrun Aba_Overlap
begin

text \<open>
  A free whose world pointer was overtaken ends as if it had been called after the free that overtook it.
\<close>

section \<open>The free that lost\<close>

text \<open>A world only depends on the usage bits of its storages.\<close>

definition usage :: "mem \<Rightarrow> uptr \<Rightarrow> 64 word option" where
  "usage s x = map_option usage_bits (stores s x)"

lemma usage_unused: "unused s x \<longleftrightarrow> usage s x = Some 0" "marked (stores s) x j \<longleftrightarrow> (\<exists>b. usage s x = Some b \<and> bit b j)"
  "stores_mapped s w \<longleftrightarrow> (\<forall>i < unat (w_n w). usage s (w_storage w ! i) \<noteq> None)"
  by (auto simp: usage_def unused_def marked_def stores_mapped_def split: option.splits)

lemma outrun_usage: "usage t = usage s \<Longrightarrow> outrun E t v w = outrun E s v w"
  by (simp add: outrun_def usage_unused)

lemma usage_errno [simp]: "usage (s\<lparr>errno := er\<rparr>) = usage s"
  by (simp add: usage_def fun_eq_iff)

lemma losing_errno: "losing E f s w X p v \<Longrightarrow> losing E f (s\<lparr>errno := er\<rparr>) w X p v"
proof -
  let ?t = "s\<lparr>errno := er\<rparr>"
  have "room E ?t 2 = room E s 2" by (rule room_cong) (simp add: live_def)
  moreover have "registered ?t = registered s" by (simp add: registered_def)
  moreover have "inv E ?t w X = inv E s w X" by (rule inv_cong) simp_all
  ultimately show "losing E f s w X p v \<Longrightarrow> losing E f ?t w X p v"
    using outrun_usage [of ?t s E w v] by (simp add: losing_def overtaken_def)
qed

text \<open>Putting a pointer on a list changes neither.\<close>

definition undisturbed :: "uptr \<Rightarrow> world \<Rightarrow> (uptr \<Rightarrow> 64 word option) \<Rightarrow> mem \<Rightarrow> bool" where
  "undisturbed o' v U s \<longleftrightarrow> worlds s o' = Some v \<and> usage s = U"

lemma keeps_undisturbed: "keeps (undisturbed o' v U) (free_put E th g f ptr owner b e old)"
proof -
  have r: "resting (undisturbed o' v U)" by (auto simp: resting_def undisturbed_def usage_def fun_eq_iff)
  have a: "keeps (undisturbed o' v U) (entry_add_pointer E e y)" for y
    by (auto simp: entry_add_pointer_def entry_update_def undisturbed_def usage_def check_ptr_def check_index_def skip_def
        ts_upd_def fun_eq_iff option.map_comp comp_def split: option.splits)
  show ?thesis
    unfolding free_put_def
    by (intro quiet_progs quiet_assert_sanity quiet_freeentry quiet_free_worlds_delayed quiet_simps) (simp_all add: r a)
qed

lemma free_loop_undisturbed:
  assumes "inv E s w X" "get_bit' (q_world (q s)) = 0" "registered s \<noteq> {}"
    and "run (free_loop E th (Suc g) f ptr owner (q_world (q s)) old c) s = Ok r t" "worlds s o' = Some v"
  shows "worlds t o' = Some v" "usage t = usage s"
proof -
  obtain e where "run (free_put E th (Suc g) f ptr owner (get_struct (q_world (q s))) e old) s = Ok r t"
    using run_free_loop_puts [OF assms(1-3), of th g f ptr owner old c] assms(4) by metis
  from keeps_run [OF keeps_undisturbed _ this, of o' v "usage s"] assms(5)
  show "worlds t o' = Some v" "usage t = usage s" by (simp_all add: undisturbed_def)
qed

text \<open>It reads the world pointer again and puts its pointer on the list of the timestamp that the other opened.\<close>

lemma run_free_loop_lost:
  assumes "losing E (Suc g) s w X' p v" "1 < g" "room E s 3"
    and "X' = X + handed f ptr" "fn_ok f owner"
  obtains t where "run (free_loop E th (Suc g) f ptr owner p 0 \<lparr>ac_ts_storage = 0\<rparr>) s = Ok 0 t" "inv E t w X"
    "pending E t w = pending E s w + image_mset (\<lambda>c. (c, registered s)) (mset (due f ptr owner))"
    "tss t = tss s" "trace t = trace s" "q_world (q t) = q_world (q s)" "blocks t \<le> blocks s + 3"
    "worlds t (get_struct p) = Some v" "usage t = usage s"
proof -
  let ?c = "\<lparr>ac_ts_storage = 0\<rparr>" and ?t = "w_timestamp v + 1"
  note o = overtakenD [OF losingD(1) [OF assms(1)]]
  obtain er where lk: "run (mulle_aba_world_get_timestampentry E th (get_struct p) ?t) s = Ok (slot E v ?t) (s\<lparr>errno := er\<rparr>)"
    by (rule run_lookup_next [OF o(1,5,6,7,10)])
  let ?s = "s\<lparr>errno := er\<rparr>"
  note l = losing_errno [OF assms(1), of er]
  obtain c' u where fc: "run (free_change E th (Suc g) p v (slot E v ?t) ?c) ?s = Ok (\<lparr>new_world_p = 0, old_world_p = 0\<rparr>, c') u"
    and us: "unscathed E ?s w X' u" and er: "errno u th = EBUSY"
    by (rule run_free_change_lost [OF l, of ?c]) simp
  note u = unscathedD [OF us]
  have lv: "live ?s = live s" by (simp add: live_def fun_eq_iff)
  have ru: "room E u (Suc (Suc 0))" using u(6) assms(3) by (simp add: room_def blocks_def lv)
  have rg: "registered ?s = registered s" by (simp add: registered_def)
  have qw: "q_world (q u) = q_world (q s)" "get_bit' (q_world (q u)) = 0" using u(5) losingD(6) [OF l] by simp_all
  have ne: "registered u \<noteq> {}" using l u(7) by (auto simp: losing_def)
  have X: "0 = (0 :: uptr) \<and> X' = X + handed f ptr" using assms(4) by simp
  obtain z where z: "run (free_loop E th g f ptr owner (q_world (q u)) 0 c') u = Ok 0 z" "inv E z w X"
    "pending E z w = pending E u w + image_mset (\<lambda>c. (c, registered u)) (mset (due f ptr owner))"
    "tss z = tss u" "trace z = trace u" "q_world (q z) = q_world (q u)" "blocks z \<le> blocks u + 2"
    by (rule run_free_loop_0 [OF u(1) losingD(3) [OF l] ru qw(2) ne disjI1 [OF X] assms(5,2)])
  have ld: "run (load_world (get_struct p)) s = Ok v s" using o(1,5) by (simp add: exec)
  have "run (free_loop E th (Suc g) f ptr owner p 0 ?c) s = run (free_loop E th g f ptr owner (q_world (q u)) 0 c') u"
    using ld lk fc er o(3) qw(1)
    by (simp add: Let_def run_bnd run_get_errno run_get_worldpointer del: free_loop.simps(1))
  moreover have "worlds z (get_struct p) = Some v \<and> usage z = usage s"
  proof -
    have "w_size v \<noteq> 0" using wf_world_size(1) [OF o(6)] by simp
    then have "worlds u (get_struct p) = Some v" using unscathedD(9) [OF us] o(5) by simp
    moreover obtain h where "g = Suc h" using assms(2) by (cases g) auto
    moreover have "usage u = usage s" using u(8) by (simp add: usage_def fun_eq_iff)
    ultimately show ?thesis using free_loop_undisturbed [OF u(1) qw(2) ne] z(1) by metis
  qed
  moreover have "pending E ?s w = pending E s w" by (rule pending_cong [OF inv_cong(2)]) simp_all
  ultimately show ?thesis using z u rg qw(1) lv by (intro that [of z]) (simp_all add: blocks_def)
qed

section \<open>Catching up\<close>

text \<open>The pointer of a free is on a list, and nothing else has happened.\<close>

definition joined :: "ext \<Rightarrow> mem \<Rightarrow> api_op \<Rightarrow> mem \<Rightarrow> bool" where
  "joined E s x t \<longleftrightarrow> sound E t \<and> cur t = cur s \<and> q_world (q t) = q_world (q s) \<and> tss t = tss s \<and> blocks t \<le> blocks s + 3
     \<and> abs_of E t = (abs_of E s)\<lparr>sp_pending := sp_pending (abs_of E s)
          + image_mset (\<lambda>c. (c, registered s)) (mset (op_calls x))\<rparr>"

definition counting :: "ext \<Rightarrow> nat \<Rightarrow> nat \<Rightarrow> mem \<Rightarrow> bool" where
  "counting E fuel N s \<longleftrightarrow> sound E s \<and> budget E fuel N s \<and> get_bit' (q_world (q s)) = 0 \<and> 1 < card (registered s)"

lemma countingD:
  assumes "counting E fuel (Suc N) s"
  shows "inv E s (cur s) {#}" "get_bit' (q_world (q s)) = 0" "1 < card (registered s)" "registered s \<noteq> {}" "ext_ok E"
    "enough E fuel s" "room E s 5" "weak_bound E fuel" "length (q_free_worlds (q s)) + 4 \<le> fuel" "\<exists>g. fuel = Suc g \<and> 1 < g"
    "keyed E s"
proof -
  have c: "sound E s" "budget E fuel (Suc N) s" "get_bit' (q_world (q s)) = 0" "1 < card (registered s)"
    using assms unfolding counting_def by blast+
  then show "inv E s (cur s) {#}" "get_bit' (q_world (q s)) = 0" "1 < card (registered s)" "registered s \<noteq> {}"
    "keyed E s"
    by (auto simp: sound_def)
  show e: "enough E fuel s" by (rule budget_enough [OF c(1,2)])
  then have "ready E fuel 5 s (cur s)" by (simp add: enough_def)
  note r = readyD [OF this]
  show "ext_ok E" "room E s 5" "weak_bound E fuel" "length (q_free_worlds (q s)) + 4 \<le> fuel" using r by blast+
  show "\<exists>g. fuel = Suc g \<and> 1 < g" using r(3) by (intro exI [of _ "fuel - 1"]) simp
qed

lemma counting_joined:
  assumes "counting E fuel (Suc N) s" "joined E s x t"
  shows "counting E fuel N t"
proof -
  have j: "sound E t" "cur t = cur s" "q_world (q t) = q_world (q s)" "tss t = tss s" "blocks t \<le> blocks s + 3"
    using assms(2) unfolding joined_def by blast+
  have "budget E fuel N t" by (rule budget_step [of _ _ _ s]) (use assms(1) j in \<open>simp_all add: counting_def grew_def\<close>)
  then show ?thesis using assms(1) j by (simp add: counting_def registered_def)
qed

lemma joined_keyed: "run (free_loop E th fuel f ptr owner p old x) s = Ok r t \<Longrightarrow> keyed E s \<Longrightarrow> keyed E t"
  using keeps_run [OF key_free_loop [of "tss_key s"]] keyed_cong by blast

lemma run_counting_free:
  assumes "counting E fuel (Suc N) s" "op_ok s (Free th f ptr owner)"
  obtains t where "run (mulle_aba_free_owned_pointer_p E th fuel f ptr owner) s = Ok 0 t" "joined E s (Free th f ptr owner) t"
proof -
  note c = countingD [OF assms(1)]
  have X: "0 = (0 :: uptr) \<and> {#} = {#} + handed f ptr" using assms(2) by (simp add: handed_def)
  obtain g where g: "fuel = Suc g" "1 < fuel" using c(10) by auto
  have rm: "room E s (Suc (Suc 0))" by (rule room_mono [OF c(7)]) simp
  obtain t where t: "run (free_loop E th fuel f ptr owner (q_world (q s)) 0 \<lparr>ac_ts_storage = 0\<rparr>) s = Ok 0 t" "inv E t (cur s) {#}"
    "pending E t (cur s) = pending E s (cur s) + image_mset (\<lambda>c. (c, registered s)) (mset (due f ptr owner))"
    "tss t = tss s" "trace t = trace s" "q_world (q t) = q_world (q s)" "blocks t \<le> blocks s + 2"
    by (rule run_free_loop_0 [OF c(1,5) rm c(2,4) disjI1 [OF X] _ g(2)]) (use assms(2) in auto)
  have r: "registered t = registered s" using t(4) by (simp add: registered_def)
  have "joined E s (Free th f ptr owner) t"
    using t(2-7) r cur_inv [OF t(2)] joined_keyed [OF t(1) c(11)] by (simp add: joined_def sound_def abs_of_def due_def)
  moreover have "run (mulle_aba_free_owned_pointer_p E th fuel f ptr owner) s = Ok 0 t"
    unfolding free_reads [OF assms(2) c(11)] using run_free_rest(1) [OF c(1,3)] t(1) assms(2) by simp
  ultimately show ?thesis by (intro that)
qed

lemma run_late_free:
  assumes "counting E fuel (Suc N) s" "overtaken E s (cur s) p v" "op_ok s (Free th f ptr owner)" "ptr \<noteq> get_struct p"
  obtains t where "run (free_rest E th fuel f ptr owner p) s = Ok 0 t" "joined E s (Free th f ptr owner) t"
    "overtaken E t (cur t) p v"
proof -
  note c = countingD [OF assms(1)] and o = overtakenD [OF assms(2)]
  have X: "{#} = {#} + handed f ptr" using assms(3) by (simp add: handed_def)
  obtain g where g: "fuel = Suc g" "1 < g" using c(10) by auto
  have "room E s 2" "room E s 3" by (rule room_mono [OF c(7)]; simp)+
  then have l: "losing E (Suc g) s (cur s) {#} p v" "room E s 3"
    using assms(2) c g by (simp_all add: losing_def)
  obtain t where t: "run (free_loop E th (Suc g) f ptr owner p 0 \<lparr>ac_ts_storage = 0\<rparr>) s = Ok 0 t" "inv E t (cur s) {#}"
    "pending E t (cur s) = pending E s (cur s) + image_mset (\<lambda>c. (c, registered s)) (mset (due f ptr owner))"
    "tss t = tss s" "trace t = trace s" "q_world (q t) = q_world (q s)" "blocks t \<le> blocks s + 3"
    "worlds t (get_struct p) = Some v" "usage t = usage s"
    by (rule run_free_loop_lost [OF l(1) g(2) l(2) X]) (use assms(3) in auto)
  have r: "registered t = registered s" using t(4) by (simp add: registered_def)
  have j: "joined E s (Free th f ptr owner) t"
    using t(2-7) r cur_inv [OF t(2)] joined_keyed [OF t(1) c(11)] by (simp add: joined_def sound_def abs_of_def due_def)
  have "overtaken E t (cur t) p v"
    using assms(2) t(6,8) outrun_usage [OF t(9)] cur_inv [OF t(2)] by (simp add: overtaken_def)
  moreover have "\<not> w_n_threads v \<le>s 1"
    using sle_1 [of "w_n_threads v"] o(8,9) less_10000(1) by simp
  then have "run (free_rest E th fuel f ptr owner p) s = Ok 0 t"
    using t(1) assms(4) o(1,5) g(1) by (simp add: free_rest_def exec del: free_loop.simps)
  ultimately show ?thesis using j by (intro that)
qed

section \<open>The free that won\<close>

lemma free_overtakes:
  assumes m: "may_race E fuel s {} (Free f0 f ptr owner)" and b: "get_bit' (q_world (q s)) = 1"
    and z: "run (mulle_aba_free_owned_pointer_p E f0 fuel f ptr owner) s = Ok 0 z"
  shows "overtaken E z (cur z) (q_world (q s)) (cur s)" "get_bit' (q_world (q z)) = 0" "tss z = tss s"
proof -
  let ?o = "get_struct (q_world (q s))"
  note d = may_raceD [OF m]
  note i = invD [OF d(1)] and wi = wf_inv [OF d(1,2)]
  obtain h where h: "fuel = Suc (Suc h)" using d(7) by blast
  have h1: "1 < Suc h" using readyD(3) [OF d(8)] h by simp
  obtain a c t w' x j ts where op: "opened E s (cur s) {#} t a w' x j ts"
    and r: "run (mulle_aba_free_owned_pointer_p E f0 fuel f ptr owner) s
      = run (freeing E f0 (fuel - 1) \<lparr>new_world_p = a, old_world_p = q_world (q s)\<rparr> f ptr owner c) t"
    by (rule run_free_opening [OF m b])
  note v = openedD [OF op]
  define u where "u = t\<lparr>stores := (stores t)(x \<mapsto> ts_upd j (gain (w_n_threads (cur s))) ts)\<rparr>"
  have u: "q_world (q u) = a" "tss u = tss s" "worlds u = worlds t" "registered u = registered s"
    using v(13,19) by (simp_all add: u_def registered_def)
  have iu: "inv E u w' {#?o#}" using v(16) by (simp add: u_def)
  have fl: "run (free_loop E f0 (Suc h) f ptr owner (q_world (q u)) ?o c) u = Ok 0 z"
    using r z run_free_count [OF op i(1,2) wi(2)] u(1) v(1) h
    by (simp add: freeing_def run_bnd u_def del: free_loop.simps)
  have bu: "get_bit' (q_world (q u)) = 0" "registered u \<noteq> {}" using u(1,4) v(3) wi(6) by simp_all
  have us: "usage u = usage t" using v(8) by (auto simp: usage_def u_def fun_eq_iff ts_upd_def)
  have wo: "worlds u ?o = Some (cur s)" using v(14) u(3) by simp
  note un = free_loop_undisturbed [OF iu bu fl wo]
  have X: "?o \<noteq> 0 \<and> {#?o#} = add_mset ?o ({#} + handed f ptr) \<and> map_option w_link (worlds u ?o) = Some 0"
    using i(1) wo wi(2) d(11) by (simp add: handed_def)
  have lv: "live u = live t" using v(8) by (auto simp: u_def live_def fun_eq_iff)
  have "room E u (Suc (Suc 0))" using v(22) room_stores [OF lv] by (simp add: numeral_eq_Suc)
  then obtain z' where "run (free_loop E f0 (Suc h) f ptr owner (q_world (q u)) ?o c) u = Ok 0 z'" "inv E z' w' {#}"
    "tss z' = tss u" "q_world (q z') = q_world (q u)"
    by (rule run_free_loop_0 [OF iu readyD(1) [OF d(8)] _ bu disjI2 [OF X] _ h1, where th = f0 and c = c]) (use d(11) in auto)
  then have iz: "inv E z w' {#}" "tss z = tss u" "q_world (q z) = q_world (q u)" using fl by simp_all
  have orn: "outrun E z w' (cur s)" using v(24) outrun_usage [of z t] un(2) us by simp
  show "get_bit' (q_world (q z)) = 0" "tss z = tss s" using iz u bu by simp_all
  then have "q_world (q s) \<noteq> q_world (q z)" using b by auto
  then show "overtaken E z (cur z) (q_world (q s)) (cur s)"
    using orn un(1) i(1,2) wi d(1,2,6) b coreD(2) [OF i(6)] unfolding cur_inv [OF iz(1)] by (simp add: overtaken_def)
qed

section \<open>Late frees\<close>

text \<open>What is left of a free that has read the world pointer \<open>p\<close>.\<close>

definition late_step :: "ext \<Rightarrow> nat \<Rightarrow> uptr \<Rightarrow> mem \<Rightarrow> api_op \<Rightarrow> mem \<Rightarrow> bool" where
  "late_step E fuel p s x t \<longleftrightarrow> op_ok s x
     \<and> (case x of Free th f ptr owner \<Rightarrow> run (free_rest E th fuel f ptr owner p) s = Ok 0 t | _ \<Rightarrow> False)"

lemma late_step_own:
  assumes "op_ok s x" "x = Free th f ptr owner" "keyed E s"
  shows "late_step E fuel (q_world (q s)) s x t \<longleftrightarrow> run (op_prog E fuel x) s = Ok 0 t"
  using assms(1,2) free_reads [of s th f ptr owner E fuel, OF _ assms(3)] by (simp add: late_step_def)

lemma late_steps:
  assumes "counting E fuel (Suc N) s" "overtaken E s (cur s) p v" "counting E fuel (Suc N) m"
    and "abs_of E s = abs_of E m" "q_world (q s) = q_world (q m)" "tss s = tss m"
    and "op_ok s x" "x = Free th f ptr owner" "ptr \<noteq> get_struct p"
  obtains t n where "late_step E fuel p s x t" "api_step E fuel m x n" "joined E s x t" "joined E m x n"
    "overtaken E t (cur t) p v"
proof -
  obtain t where t: "run (free_rest E th fuel f ptr owner p) s = Ok 0 t" "joined E s x t" "overtaken E t (cur t) p v"
    using run_late_free [OF assms(1,2) assms(7) [unfolded assms(8)] assms(9)] assms(8) by metis
  have ok: "op_ok m x" using assms(5-8) by simp
  obtain n where n: "run (mulle_aba_free_owned_pointer_p E th fuel f ptr owner) m = Ok 0 n" "joined E m x n"
    using run_counting_free [OF assms(3) ok [unfolded assms(8)]] assms(8) by metis
  have "api_step E fuel m x n" using n(1) ok countingD(6) [OF assms(3)] assms(8) by (simp add: api_step_def)
  with t n(2) assms(7,8) show ?thesis by (intro that) (simp_all add: late_step_def)
qed

lemma joined_pair:
  assumes "joined E s x t" "joined E m x n" "abs_of E s = abs_of E m" "q_world (q s) = q_world (q m)" "tss s = tss m"
  shows "abs_of E t = abs_of E n" "q_world (q t) = q_world (q n)" "tss t = tss n"
proof -
  have "registered s = registered m" using assms(5) by (simp add: registered_def)
  then show "abs_of E t = abs_of E n" using assms(1-3) by (simp add: joined_def del: abs_of_sel)
qed (use assms in \<open>simp_all add: joined_def\<close>)

lemma late_runs:
  assumes "counting E fuel (length xs) s" "overtaken E s (cur s) p v" "counting E fuel (length xs) m"
    and "abs_of E s = abs_of E m" "q_world (q s) = q_world (q m)" "tss s = tss m"
    and "\<forall>x \<in> set xs. op_ok s x \<and> (\<exists>th f ptr owner. x = Free th f ptr owner \<and> ptr \<noteq> get_struct p)"
  shows "\<exists>u n. runs (late_step E fuel p) s xs u \<and> runs (api_step E fuel) m xs n \<and> sound E u \<and> abs_of E u = abs_of E n
     \<and> q_world (q u) = q_world (q s)"
  using assms
proof (induction xs arbitrary: s m)
  case Nil
  then show ?case by (auto simp: counting_def intro: runs_Nil)
next
  case (Cons x xs)
  have "op_ok s x \<and> (\<exists>th f ptr owner. x = Free th f ptr owner \<and> ptr \<noteq> get_struct p)" using Cons.prems(7) by simp
  then obtain th f ptr owner where x: "op_ok s x" "x = Free th f ptr owner" "ptr \<noteq> get_struct p" by blast
  note c = Cons.prems(1,3) [unfolded list.size(4) add_Suc_right add_0_right]
  obtain t n where t: "late_step E fuel p s x t" "api_step E fuel m x n" "joined E s x t" "joined E m x n"
    "overtaken E t (cur t) p v"
    by (rule late_steps [OF c(1) Cons.prems(2) c(2) Cons.prems(4-6) x])
  note j = joined_pair [OF t(3,4) Cons.prems(4-6)]
  have w: "q_world (q t) = q_world (q s)" "tss t = tss s" using t(3) by (simp_all add: joined_def)
  have "registered t = registered s" using w(2) by (simp add: registered_def)
  then have "op_ok t y = op_ok s y" for y using w by (cases y) simp_all
  then have ok: "\<forall>x \<in> set xs. op_ok t x \<and> (\<exists>th f ptr owner. x = Free th f ptr owner \<and> ptr \<noteq> get_struct p)"
    using Cons.prems(7) by simp
  obtain u k where u: "runs (late_step E fuel p) t xs u" "runs (api_step E fuel) n xs k" "sound E u" "abs_of E u = abs_of E k"
    "q_world (q u) = q_world (q t)"
    using Cons.IH [OF counting_joined [OF c(1) t(3)] t(5) counting_joined [OF c(2) t(4)] j ok] by blast
  from runs_Cons [where step = "late_step E fuel p", OF t(1) u(1)] runs_Cons [where step = "api_step E fuel", OF t(2) u(2)]
  show ?case using u(3-5) w(1) by metis
qed

text \<open>C6: Frees that lose the race for a timestamp catch up. Several threads want to free while the bit of the world pointer is
  set, so all of them want to open the next timestamp, and all have read the same world pointer; one of them gets its world
  installed and returns. What the others still have to do then, with the world pointer they have read, fails to
  install anything, gives back the memory it took, and ends with no fault and no failed assert as if each of them had been called
  only now: same pending calls, waiting for the same threads, same calls made, and the world pointer is the one that
  the first free has installed.\<close>

theorem late_frees_catch_up:
  assumes "sound E s" "budget E fuel (Suc (length xs)) s" "get_bit' (q_world (q s)) = 1" "1 < card (registered s)"
    and "api_step E fuel s (Free f0 f ptr owner) z"
    and "\<forall>x \<in> set xs. (\<exists>th f ptr owner. x = Free th f ptr owner) \<and> op_ok s x \<and> op_ok z x"
  shows "(\<forall>x \<in> set xs. \<forall>t. late_step E fuel (q_world (q s)) s x t \<longleftrightarrow> run (op_prog E fuel x) s = Ok 0 t)
    \<and> (\<exists>u n. runs (late_step E fuel (q_world (q s))) z xs u \<and> runs (api_step E fuel) z xs n
      \<and> sound E u \<and> abs_of E u = abs_of E n \<and> q_world (q u) = q_world (q z))"
proof -
  let ?p = "q_world (q s)" and ?x = "Free f0 f ptr owner"
  have ok: "op_ok s ?x" using assms(5) by (simp add: api_step_def del: op_ok.simps)
  have m: "may_race E fuel s {} ?x"
    unfolding may_race_def using assms(1,4) ok budget_mono [OF assms(2), of 1] by (simp del: op_ok.simps)
  obtain z' where z': "run (op_prog E fuel ?x) s = Ok 0 z'" "sound E z'" "budget E fuel (length xs) z'"
    using api_step_progress [OF assms(1,2) ok] by blast
  then have z: "run (op_prog E fuel ?x) s = Ok 0 z" "sound E z" "budget E fuel (length xs) z"
    using assms(5) by (auto simp: api_step_def)
  note o = free_overtakes [OF m assms(3) z(1) [unfolded op_prog.simps]]
  have "1 < card (registered z)" using assms(4) o(3) by (simp add: registered_def)
  then have c: "counting E fuel (length xs) z" using z(2,3) o(2) by (simp add: counting_def)
  have "\<forall>x \<in> set xs. op_ok z x \<and> (\<exists>th f ptr owner. x = Free th f ptr owner \<and> ptr \<noteq> get_struct ?p)"
    using assms(6) by force
  from late_runs [OF c o(1) c refl refl refl this] late_step_own [OF _ _ soundD(2) [OF assms(1)]] assms(6) show ?thesis by blast
qed

theorem late_frees_catch_up_witness:
  "\<exists>s z u n. get_bit' (q_world (q s)) = 1 \<and> registered s = {1, 2}
    \<and> api_step sample_ext 100 s (Free 1 (Fn_client 7) 1 5) z
    \<and> runs (late_step sample_ext 100 (q_world (q s))) z [Free 2 (Fn_client 8) 1 5] u
    \<and> runs (api_step sample_ext 100) z [Free 2 (Fn_client 8) 1 5] n \<and> abs_of sample_ext u = abs_of sample_ext n"
proof -
  obtain s F t where m: "may_race sample_ext 100 s {1, 2} (Free 1 (Fn_client 7) 1 5)" "registered s = {1, 2}"
    "get_bit' (q_world (q s)) = 1"
    by (rule sample_race)
  let ?x = "Free 1 (Fn_client 7) 1 5" and ?xs = "[Free 2 (Fn_client 8) 1 5]"
  have s: "sound sample_ext s" "budget sample_ext 100 3 s" "op_ok s ?x"
    using m(1) by (simp_all add: may_race_def numeral_3_eq_3 del: op_ok.simps)
  obtain z where z: "api_step sample_ext 100 s ?x z" "run (op_prog sample_ext 100 ?x) s = Ok 0 z"
    using api_step_progress [OF s(1) s(2) [unfolded numeral_3_eq_3] s(3)] by blast
  have "may_race sample_ext 100 s {} ?x"
    unfolding may_race_def using s m(2) budget_mono [OF s(2), of 1] by (simp del: op_ok.simps)
  from free_overtakes(3) [OF this m(3) z(2) [unfolded op_prog.simps]] have "tss z = tss s" .
  moreover have "tss s 2 \<noteq> 0" using m(2) by (auto simp: registered_def)
  moreover have "\<not> aligned 1" by (simp add: aligned_def)
  then have "1 \<noteq> get_struct p" for p by (metis aligned_get_struct)
  ultimately have ok: "\<forall>x \<in> set ?xs. (\<exists>th f ptr owner. x = Free th f ptr owner) \<and> op_ok s x \<and> op_ok z x" by simp
  have "budget sample_ext 100 (Suc (length ?xs)) s" by (rule budget_mono [OF s(2)]) simp
  from late_frees_catch_up [OF s(1) this m(3) _ z(1) ok] m(2,3) z(1) show ?thesis by auto
qed

end
