(* ===== verification/Aba_Reading.thy ===== *)
theory Aba_Reading
  imports Aba_Reachable
begin

text \<open>
  The worlds themselves are freed through the mechanism they implement. A thread reads them without taking a
  lock or a reference; what keeps a world alive that it reads is that its delayed release waits for the thread.
\<close>

section \<open>One call\<close>

lemma api_step_spares:
  assumes "sound E s" "api_step E fuel s x t" "r \<in> registered s" "r \<notin> op_quiet x"
  shows "spares E {r} s (cur s) {#} t (cur t) {#}" "r \<in> registered t"
proof -
  obtain b where b: "op_ok s x" "enough E fuel s" "run (op_prog E fuel x) s = Ok b t" using assms(2) by (auto simp: api_step_def)
  note i = soundD(1) [OF assms(1)]
  have rd: "ready E fuel 5 s (cur s)" "card (dom (worlds s)) < fuel" using b(2) by (simp_all add: enough_def)
  note rd' = ready_mono [OF rd(1)]
  have "registered t = op_threads x (registered s)"
    using aba.step_threads [OF assms(1,2)] by simp
  then show "r \<in> registered t" using assms(3,4) by (cases x) auto
  show "spares E {r} s (cur s) {#} t (cur t) {#}"
  proof (cases x)
    case (Register th)
    obtain u w' where "run (mulle_aba_register_current_thread E th fuel) s = Ok 0 u" "inv E u w' {#}"
      "spares E (registered s) s (cur s) {#} u w' {#}"
      by (rule run_register [OF i rd(1), of th]) (use b(1) Register soundD(2) [OF assms(1)] in simp_all)
    with b(3) Register assms(3) show ?thesis using cur_inv [of E t w' "{#}"] by (auto elim: spares_mono)
  next
    case (Checkin th)
    obtain u where "run (mulle_aba_checkin_current_thread E th fuel) s = Ok 0 u" "inv E u (cur s) {#}"
      "spares E (- {th}) s (cur s) {#} u (cur s) {#}"
      by (rule run_checkin [OF i rd', of th]) simp_all
    with b(3) Checkin assms(4) show ?thesis using cur_inv [of E t "cur s" "{#}"] by (auto elim: spares_mono)
  next
    case (Free th f ptr owner)
    obtain u w' where "run (mulle_aba_free_owned_pointer_p E th fuel f ptr owner) s = Ok 0 u" "inv E u w' {#}"
      "spares E (if f = Fn_owned_pointer_free_world then registered s - {th} else registered s) s (cur s) {#} u w' {#}"
      by (rule run_free_p [OF i rd' [of 4], of th ptr "{#}" f owner]) (use b(1) Free soundD(2) [OF assms(1)] in \<open>simp_all add: registered_def handed_def\<close>)
    with b(1,3) Free assms(3) show ?thesis using cur_inv [of E t w' "{#}"] by (auto elim: spares_mono)
  next
    case (Unregister th)
    obtain u w' where u: "run (mulle_aba_unregister_current_thread E th fuel) s = Ok 0 u" "inv E u w' {#}"
      "registered s \<noteq> {th} \<longrightarrow> spares E (- {th}) s (cur s) {#} u w' {#}"
      by (rule run_unregister [OF i rd' [of 1] rd(2) soundD(2) [OF assms(1)], of th]) simp_all
    have ne: "registered s \<noteq> {th}" "{r} \<subseteq> - {th}" using assms(3,4) Unregister by auto
    have "spares E {r} s (cur s) {#} u w' {#}" by (rule spares_mono [OF mp [OF u(3) ne(1)] ne(2)])
    moreover have "t = u" using b(3) Unregister u(1) by simp
    ultimately show ?thesis using cur_inv [OF u(2)] by simp
  qed
qed

section \<open>Any calls\<close>

lemma runs_spares:
  "runs (api_step E fuel) s ops t \<Longrightarrow> sound E s \<Longrightarrow> r \<in> registered s \<Longrightarrow> r \<notin> quiesced ops
    \<Longrightarrow> spares E {r} s (cur s) {#} t (cur t) {#}"
proof (induction rule: runs.induct)
  case (runs_Cons s x t ops u)
  then have "sound E t" using api_step_refines by blast
  with runs_Cons api_step_spares [OF runs_Cons.prems(1) runs_Cons.hyps(1) runs_Cons.prems(2)]
  show ?case by (auto intro: spares_trans)
qed simp

text \<open>C5: What a registered thread reads without a lock stays valid: the world a thread finds at the world pointer stays in memory,
  unchanged, with all its timestamp storages, until the thread checks in or unregisters, whatever calls all threads make in the
  meantime, even if many new worlds are installed, old ones released and other threads registered or unregistered.\<close>

theorem read_world_stays_valid:
  assumes "reachable E fuel s" "r \<in> registered s" "runs (api_step E fuel) s ops t" "r \<notin> quiesced ops"
  shows "worlds t (get_struct (q_world (q s))) = Some (cur s)
    \<and> (\<forall>i < unat (w_n (cur s)). stores t (w_storage (cur s) ! i) \<noteq> None)"
proof -
  note so = reachable_sound [OF assms(1)]
  note i = invD [OF soundD(1) [OF so]]
  note l = coreD(1) [OF i(6)]
  have "readable E s (cur s) {#} r (get_struct (q_world (q s))) (cur s)"
    using i(3) wf_world_size(1) [OF layoutD(1) [OF l]] by (simp add: readable_def)
  moreover note sp = runs_spares [OF assms(3) so assms(2,4)]
  ultimately have "worlds t (get_struct (q_world (q s))) = Some (cur s)" by (simp add: spares_def readable_def)
  moreover have "dom (stores s) \<subseteq> dom (stores t)" using sp by (simp add: spares_def)
  then have "\<forall>i < unat (w_n (cur s)). stores t (w_storage (cur s) ! i) \<noteq> None"
    using stores_mapped_layout [OF l] unfolding stores_mapped_def domIff [symmetric] by blast
  ultimately show ?thesis ..
qed

theorem read_world_stays_valid_witness:
  "\<exists>s t. reachable sample_ext 100 s \<and> runs (api_step sample_ext 100) s [Checkin 2, Free 2 (Fn_client 7) 1 5, Unregister 2] t
    \<and> q_world (q t) \<noteq> q_world (q s) \<and> worlds t (get_struct (q_world (q s))) = Some (cur s)"
proof -
  let ?a = "[Register 1, Register 2]" and ?b = "[Checkin 2, Free 2 (Fn_client 7) 1 5, Unregister 2]"
  obtain s0 t where s0: "run (mulle_aba_init_p sample_ext 0 4) sample_mem = Ok 0 s0" "runs (api_step sample_ext 100) s0 (?a @ ?b) t"
    "sound sample_ext s0" "sound sample_ext t" "registered t = threads (?a @ ?b) {}"
    by (rule sample_runs [of "?a @ ?b"]) (simp_all add: aligned_def)
  obtain s where s: "runs (api_step sample_ext 100) s0 ?a s" "runs (api_step sample_ext 100) s ?b t"
    using runs_append [OF s0(2)] by blast
  have re: "reachable sample_ext 100 s" unfolding reachable_def using startable_sample s0(1) s(1) by blast
  note so = reachable_sound [OF re]
  have "abs_of sample_ext s0 = \<lparr>sp_threads = {}, sp_pending = {#}, sp_calls = []\<rparr>"
    using started [OF startable_sample, of 0] s0(1) by auto
  then have rs: "registered s = {1, 2}" using aba.runs_threads [OF s(1) s0(3)] by auto
  have st: "worlds t (get_struct (q_world (q s))) = Some (cur s)"
    using read_world_stays_valid [OF re _ s(2), of 1] rs by simp
  have "unat (w_n_threads (cur s)) = 2" "unat (w_n_threads (cur t)) = 1"
    using layoutD(4) [OF coreD(1) [OF invD(6)]] so s0(4) rs s0(5) by (auto simp: sound_def)
  then have "cur s \<noteq> cur t" by auto
  moreover have "worlds t (get_struct (q_world (q t))) = Some (cur t)" using invD(3) s0(4) by (auto simp: sound_def)
  ultimately have "q_world (q t) \<noteq> q_world (q s)" using st by auto
  with re s(2) st show ?thesis by blast
qed

end
