(* ===== verification/Spec2Isabelle.thy ===== *)
theory Spec2Isabelle
  imports Aba_Catchup Aba_Reading
begin

text \<open>
  A verification development for mulle-aba, a solution of the ABA problem for lock-free code. Threads
  that share lock-free structures register, hand the blocks they have unlinked to
  \<open>mulle_aba_free\<close>, and check in from time to time; the library calls the free function of a block
  only when every thread that was registered when the block was handed over has checked in since.

  \<^bold>\<open>The program.\<close> \<open>src/mulle-aba-storage.h\<close> has the data. A \<^emph>\<open>world\<close> holds the current timestamp, the
  number of registered threads and an array of \<^emph>\<open>timestamp storages\<close>; a storage has one entry per
  timestamp (64, in debug builds 2): a reference count and a lock-free list of free entries. The
  world is reached through a tagged \<^emph>\<open>world pointer\<close>: bit 0 tells that some thread has checked in since
  the last timestamp was opened, bit 1 that the world is locked. Worlds are replaced by
  compare-and-swap of that pointer, never changed in place, and freed through the very mechanism
  they implement. \<open>src/mulle-aba-storage.c\<close> has the operations on worlds, the caches and the loops
  that swap worlds; \<open>src/mulle-aba.c\<close> has the callbacks that compute the next world, the four
  operations register, unregister, check-in and free, and the API on one global instance.

  \<^bold>\<open>The model.\<close> C functions keep their names, less leading underscores; structs are records, their addresses
  64 bit words, pointers to nothing and dangling pointers faults.

  \<^item> \<open>Aba_Prelude\<close>: programs as trees of atomic actions, executed alone (\<open>run\<close>) or with actions of others
    in between (\<open>runi\<close>); faults; the collection \<open>exec\<close>.
  \<^item> \<open>Aba_Mem\<close>: the memory, the structs of \<open>mulle-aba-storage.h\<close>, the parameters \<open>ext\<close> (build flags,
    allocator, weak compare-and-swap, the list of mulle-linkedlist, the key of the thread-specific storage)
    and what is relied on, \<open>ext_ok\<close>.
  \<^item> \<open>Aba_Worldpointer\<close>: the tagged pointer and the state graph \<open>valid_transition\<close> that the asserts of
    \<open>_mulle_aba_storage_swap_worlds\<close> check.
  \<^item> \<open>Aba_Timestampstorage\<close>, \<open>Aba_World\<close>: \<open>struct _mulle_aba_timestampstorage\<close> and \<open>struct
    _mulle_aba_world\<close> with their operations; \<open>Aba_Window\<close>: which timestamps a world has entries for, and
    how popping, pushing, rotating and reusing storages moves that window. The loop that reuses storages tests slot \<open>i\<close> but
    rotates slot 0, which is right only if the unused storages come first; \<open>Aba_Reachable\<close> shows that they do.
  \<^item> \<open>Aba_Storage\<close>: \<open>struct _mulle_aba_storage\<close>: caches of worlds and free entries, leaked worlds, delayed calls,
    \<open>_mulle_aba_world_check_timerange\<close>, setup and teardown.
  \<^item> \<open>Aba_Swap\<close>: swap, lock and unlock of the world pointer and the four loops that install a changed world. The
    callback is a parameter; the locale \<open>world_callback\<close> states what it must do, and its lemmas prove the
    loops for every callback that does it.
  \<^item> \<open>Aba_Callbacks\<close>: the callbacks of \<open>mulle-aba.c\<close>, each interpreting \<open>world_callback\<close>.
  \<^item> \<open>Aba_Api\<close>: the operations and the API of \<open>mulle-aba.c\<close>.

  \<^bold>\<open>The proofs.\<close> \<open>Aba_Slots\<close> and \<open>Aba_Inv\<close> have the invariant \<open>inv\<close>: the reference count of a timestamp
  is the number of threads that hold it, a storage is in one slot, a world or free entry is owned by exactly one place.
  \<open>Aba_Move\<close> proves opening the next timestamp in all four ways the code has (entry present, storage added,
  storages rotated, world grown); \<open>Aba_Free\<close>, \<open>Aba_Checkin\<close>, \<open>Aba_Threads\<close> and \<open>Aba_Unregister\<close> prove
  the four operations, \<open>Aba_Lifecycle\<close> setup and teardown: each ends with 0, without a fault, keeps \<open>inv\<close>,
  and its effect on registered threads, pending calls and made calls is stated exactly.

  \<open>Aba_Spec\<close> states the contract without worlds and timestamps: a state is the registered
  threads, the pending calls with the threads each waits for, and the calls made. The locale
  \<open>deferred_free\<close> has the laws of an implementation and proves what clients want to know once for
  all; \<open>budgeted_free\<close> extends it by resources. \<open>Aba_Refine\<close> and \<open>Aba_Guarantees\<close> interpret both on the code,
  so that the properties there are those of the locales: a pointer is freed exactly when it may be,
  exactly once, nothing leaks, no call fails. What a call may not be made with is in \<open>op_ok\<close>: freeing NULL, the world, with a NULL
  function (\<open>fn_ok\<close>) or by a thread that is not registered, registering twice; \<open>sound\<close> adds to \<open>inv\<close> that the thread key the asserts
  test is valid (\<open>keyed\<close>; \<open>Aba_Key\<close> shows that no call changes it). \<open>Aba_Reachable\<close> has properties of reachable
  states: reference counts, windows, entries of timestamps, reuse of storages, locking and unlocking. \<open>Aba_Reading\<close> shows why threads
  may read a world without a lock: every operation \<open>spares\<close> (\<open>Aba_Inv\<close>) the worlds that other threads may have read, since
  a replaced world is leaked or put on the list of a timestamp that these threads hold.

  \<^bold>\<open>Calls that overlap.\<close> \<open>Aba_Pool\<close> lets several programs run at once: \<open>sched\<close> gives one of them after the other its next
  action, in any order; \<open>blind\<close>, \<open>keeps\<close> and \<open>solo\<close> say that a program is not disturbed by the others.
  \<open>Aba_Arrive\<close> shows that a check-in only reads and sets the bit of the world pointer up to the atomic decrement that gives
  up its reference, whatever others do meanwhile; \<open>Aba_Drift\<close> that a free, once it is settled which timestamp its pointer
  waits for, is not disturbed by check-ins. In between a count may be below zero: the free installs the new world first and adds
  the references of the threads afterwards, check-ins may already have taken theirs away. \<open>Aba_Race\<close> has the
  invariant of such a race (\<open>racing\<close>), \<open>Aba_Concurrent\<close> compares its ends with calls in sequence, and \<open>Aba_Overlap\<close>
  states the result for a settled free and check-ins of threads that have nothing older to check in to: every interleaving ends
  as some sequence of the calls, and frees the pointer exactly if all registered threads checked in.

  \<^bold>\<open>Calls that lose a race.\<close> Frees that read the same world pointer with its bit set all want to open the next timestamp; one
  installs its world. \<open>Aba_Lost\<close> runs the loops of \<open>Aba_Swap\<close> with a world pointer that is no longer the present one: the
  compare-and-swap fails, the second round finds the bit cleared (\<open>EBUSY\<close>), the callback is told to discard what it has
  allocated (locale \<open>retreating_callback\<close>, interpreted for the three callbacks that open a timestamp). \<open>Aba_Outrun\<close> shows for the four ways to open
  one that nothing is lost and nothing changed: the usage bit the loser has set is the one the winner has set (\<open>outrun\<close>).
  \<open>Aba_Catchup\<close> concludes that the loser, which reads the world pointer again, ends as if it had been called after the winner.

  \<^bold>\<open>Bounds.\<close> A loop that other threads or spurious failures may repeat carries fuel and crashes
  without it, so a theorem that a call returns 0 includes that the fuel was enough.
  \<open>weak_bound E F\<close> says that of \<open>F\<close> weak compare-and-swaps in a row one succeeds. \<open>ready\<close> and \<open>enough\<close>
  are what one call needs: fuel for \<open>F\<close>, the timestamps of the window and the cached worlds; room for
  five blocks; timestamps below \<open>2 ^ 62\<close> (the code compares them as signed words, and 64 bits are not used up in
  practice); \<open>(size + 1) * n_entries < 2 ^ 32\<close> (the code multiplies as \<open>unsigned int\<close>); fewer than 10000 threads (an
  assert of the code). \<open>affords E fuel N\<close> gives all of these for \<open>N\<close> calls from the start.

  \<^bold>\<open>Granularity.\<close> Most properties of the API hold for every sequence of calls of all threads, one call after the
  other. For every interleaving of their actions we have: a free and one check-in of each of any set of threads that have no older
  timestamp to check in (\<open>may_race\<close>), from the moment on at which the free has read a world pointer whose bit is
  clear, or has installed the world with the next timestamp (\<open>settled\<close>); setting a usage bit and locking the
  world pointer under any interference. Of calls that overlap and would all install a world we have frees
  of which the others have read the world pointer before the first installs its world and go on when it has returned (\<open>late_step\<close>).
  A free that loses to an unregistration that leaves a single thread (\<open>EAGAIN\<close>) is modelled, but no property is about it.

  \<^bold>\<open>Not modelled.\<close> Tracing and printing (compiled out by default), the version checks, the memory model below
  sequential consistency, more than one instance of \<open>struct mulle_aba\<close>, and the bodies of mulle-allocator,
  mulle-thread and mulle-linkedlist, which are not in this repository. The list is a
  parameter that keeps the multiset of its elements; the allocator gives fresh aligned blocks while it has room.
\<close>

end
